theory Spec2Isabelle
  imports Complex_Main
begin

section \<open>The node model (base-node.js)\<close>

text \<open>
  A JavaScript object reference is an index into an arena of nodes: the heap is the list
  of all node objects allocated so far, \<open>new\<close> appends to it, and object identity
  (\<open>includes\<close>, \<open>indexOf\<close>, \<open>Set\<close> of nodes) is equality of indices. The fields
  of \<open>BaseNode\<close> are the fields of the record; what a subclass adds is the record's
  extension.
\<close>

type_synonym ref = nat

record node =
  nid :: string
  isMainDocument :: bool
  dependents :: "ref list"
  dependencies :: "ref list"

type_synonym 'a heap = "'a node_scheme list"

text \<open>
  What the code can throw: the explicit \<open>Error('Cloned graph missing node')\<close>, and the
  \<open>TypeError\<close> of reading a property of \<open>undefined\<close>.
\<close>

datatype error = MissingNode | TypeError

text \<open>\<open>constructor(id)\<close>: a node with no edges that is not the main document.\<close>

definition BaseNode :: "string \<Rightarrow> node" where
  "BaseNode i = \<lparr>nid = i, isMainDocument = False, dependents = [], dependencies = []\<rparr>"

definition getDependents :: "'a heap \<Rightarrow> ref \<Rightarrow> ref list" where
  "getDependents h n = dependents (h ! n)"

definition getDependencies :: "'a heap \<Rightarrow> ref \<Rightarrow> ref list" where
  "getDependencies h n = dependencies (h ! n)"

definition getNumberOfDependencies :: "'a heap \<Rightarrow> ref \<Rightarrow> nat" where
  "getNumberOfDependencies h n = length (dependencies (h ! n))"

text \<open>
  \<open>getRootNode\<close>: the loop follows the first dependency while there is one. On a cycle
  it never returns, which is the value \<open>None\<close>.
\<close>

partial_function (option) getRootNode :: "'a heap \<Rightarrow> ref \<Rightarrow> ref option" where
  "getRootNode h rootNode =
     (case dependencies (h ! rootNode) of
        [] \<Rightarrow> Some rootNode
      | d # _ \<Rightarrow> getRootNode h d)"

subsection \<open>Edge operations\<close>

definition addDependency :: "ref \<Rightarrow> ref \<Rightarrow> 'a heap \<Rightarrow> 'a heap" where
  "addDependency this n h =
     (if n \<in> set (dependencies (h ! this)) then h
      else
        let h1 = h[n := (h ! n)\<lparr>dependents := dependents (h ! n) @ [this]\<rparr>]
        in h1[this := (h1 ! this)\<lparr>dependencies := dependencies (h1 ! this) @ [n]\<rparr>])"

definition addDependent :: "ref \<Rightarrow> ref \<Rightarrow> 'a heap \<Rightarrow> 'a heap" where
  "addDependent this n h = addDependency n this h"

text \<open>\<open>Array.prototype.indexOf\<close>: the first index of the element, or -1.\<close>

fun indexOf :: "'b list \<Rightarrow> 'b \<Rightarrow> int" where
  "indexOf [] x = -1"
| "indexOf (y # ys) x =
     (if y = x then 0 else (let i = indexOf ys x in if i < 0 then -1 else i + 1))"

text \<open>
  \<open>xs.splice(start, 1)\<close>: a negative start counts from the end (so -1 removes the last
  element), a start beyond the end removes nothing.
\<close>

definition splice1 :: "'b list \<Rightarrow> int \<Rightarrow> 'b list" where
  "splice1 xs start =
     (let len = int (length xs);
          s = (if start < 0 then max (len + start) 0 else min start len)
      in take (nat s) xs @ drop (nat s + 1) xs)"

definition removeDependency :: "ref \<Rightarrow> ref \<Rightarrow> 'a heap \<Rightarrow> 'a heap" where
  "removeDependency this n h =
     (if n \<notin> set (dependencies (h ! this)) then h
      else
        let thisIndex = indexOf (dependents (h ! n)) this;
            h1 = h[n := (h ! n)\<lparr>dependents := splice1 (dependents (h ! n)) thisIndex\<rparr>]
        in h1[this := (h1 ! this)\<lparr>dependencies :=
                 splice1 (dependencies (h1 ! this)) (indexOf (dependencies (h1 ! this)) n)\<rparr>])"

definition removeDependent :: "ref \<Rightarrow> ref \<Rightarrow> 'a heap \<Rightarrow> 'a heap" where
  "removeDependent this n h = removeDependency n this h"

text \<open>The loop runs over a copy (\<open>slice\<close>) of the dependencies taken before the first removal.\<close>

definition removeAllDependencies :: "ref \<Rightarrow> 'a heap \<Rightarrow> 'a heap" where
  "removeAllDependencies this h =
     fold (\<lambda>n h'. removeDependency this n h') (dependencies (h ! this)) h"

subsection \<open>Traversal\<close>

text \<open>
  A callback is a closure: it reads and writes the heap and its captured variables
  (the second component of the state), it may throw, and it may not return.
\<close>

type_synonym ('a, 'x) callback =
  "ref \<Rightarrow> ref list \<Rightarrow> 'a heap \<times> 'x \<Rightarrow> (error + 'a heap \<times> 'x) option"

text \<open>
  The inner \<open>for\<close> loop of \<open>traverse\<close>: every next node whose id is not yet visited is
  marked and pushed at the back of the queue with its path.
\<close>

fun enqueue :: "'a heap \<Rightarrow> ref list \<Rightarrow> ref list \<Rightarrow> string set \<times> ref list list
    \<Rightarrow> string set \<times> ref list list" where
  "enqueue h traversalPath [] (visited, queue) = (visited, queue)"
| "enqueue h traversalPath (nextNode # ns) (visited, queue) =
     (if nid (h ! nextNode) \<in> visited then enqueue h traversalPath ns (visited, queue)
      else enqueue h traversalPath ns
             (insert (nid (h ! nextNode)) visited, queue @ [nextNode # traversalPath]))"

text \<open>
  The \<open>while (queue.length)\<close> loop. Every path in the queue is non-empty (the first one
  is \<open>[this]\<close>, the others are pushed as \<open>[nextNode, ...traversalPath]\<close>); for an empty
  path \<open>traversalPath[0]\<close> would be \<open>undefined\<close> and reading its edges a TypeError.
\<close>

partial_function (option) traverse_loop ::
  "('a, 'x) callback \<Rightarrow> ('a heap \<Rightarrow> ref \<Rightarrow> ref list) \<Rightarrow> string set \<Rightarrow> ref list list
    \<Rightarrow> 'a heap \<times> 'x \<Rightarrow> (error + 'a heap \<times> 'x) option" where
  "traverse_loop callback getNextNodes visited queue s =
     (case queue of
        [] \<Rightarrow> Some (Inr s)
      | traversalPath # rest \<Rightarrow>
          (case traversalPath of
             [] \<Rightarrow> Some (Inl TypeError)
           | n # _ \<Rightarrow>
               (case callback n traversalPath s of
                  None \<Rightarrow> None
                | Some (Inl e) \<Rightarrow> Some (Inl e)
                | Some (Inr s') \<Rightarrow>
                    (case enqueue (fst s') traversalPath (getNextNodes (fst s') n) (visited, rest) of
                       (visited', queue') \<Rightarrow>
                         traverse_loop callback getNextNodes visited' queue' s'))))"

definition traverse ::
  "ref \<Rightarrow> ('a, 'x) callback \<Rightarrow> ('a heap \<Rightarrow> ref \<Rightarrow> ref list) \<Rightarrow> 'a heap \<times> 'x
    \<Rightarrow> (error + 'a heap \<times> 'x) option" where
  "traverse this callback getNextNodes s =
     traverse_loop callback getNextNodes {nid (fst s ! this)} [[this]] s"

subsection \<open>Cycle detection\<close>

datatype direction = Dependents | Dependencies | Both

text \<open>
  The \<open>for\<close> loop at the end of an iteration of \<open>hasCycle\<close>: a next node that is not
  on the stack is pushed and its depth recorded (\<open>currentPath.length\<close> is constant
  during the loop).
\<close>

fun explore :: "ref list \<Rightarrow> nat \<Rightarrow> ref list \<times> (ref \<rightharpoonup> nat) \<Rightarrow> ref list \<times> (ref \<rightharpoonup> nat)" where
  "explore [] depth (toVisit, depthAdded) = (toVisit, depthAdded)"
| "explore (nextNode # ns) depth (toVisit, depthAdded) =
     (if nextNode \<in> set toVisit then explore ns depth (toVisit, depthAdded)
      else explore ns depth (toVisit @ [nextNode], depthAdded(nextNode \<mapsto> depth)))"

text \<open>
  The \<open>while (toVisit.length)\<close> loop for one direction. Arrays are lists in array order:
  \<open>pop\<close> takes the last element, \<open>push\<close> appends. The inner
  \<open>while (currentPath.length > depthAdded.get(currentNode)) currentPath.pop()\<close> cuts the
  path to the recorded depth (and does nothing when the map has no entry, the comparison
  with \<open>undefined\<close> being false).
\<close>

partial_function (option) hasCycle_loop ::
  "'a heap \<Rightarrow> direction \<Rightarrow> ref set \<Rightarrow> ref list \<Rightarrow> ref list \<Rightarrow> (ref \<rightharpoonup> nat) \<Rightarrow> bool option" where
  "hasCycle_loop h direction visited currentPath toVisit depthAdded =
     (if toVisit = [] then Some False
      else
        let currentNode = last toVisit; toVisit1 = butlast toVisit in
        if currentNode \<in> set currentPath then Some True
        else if currentNode \<in> visited then
          hasCycle_loop h direction visited currentPath toVisit1 depthAdded
        else
          let currentPath1 =
                (case depthAdded currentNode of
                   None \<Rightarrow> currentPath
                 | Some d \<Rightarrow> take d currentPath);
              visited1 = insert currentNode visited;
              currentPath2 = currentPath1 @ [currentNode];
              nodesToExplore =
                (if direction = Dependents then dependents (h ! currentNode)
                 else dependencies (h ! currentNode))
          in (case explore nodesToExplore (length currentPath2) (toVisit1, depthAdded) of
                (toVisit2, depthAdded2) \<Rightarrow>
                  hasCycle_loop h direction visited1 currentPath2 toVisit2 depthAdded2))"

text \<open>
  \<open>hasCycle(node, direction = 'both')\<close>: \<open>'both'\<close> is the disjunction of the two
  directions, the second evaluated only when the first is false.
\<close>

definition hasCycle :: "'a heap \<Rightarrow> ref \<Rightarrow> direction \<Rightarrow> bool option" where
  "hasCycle h n direction =
     (if direction = Both then
        (case hasCycle_loop h Dependents {} [] [n] [n \<mapsto> 0] of
           None \<Rightarrow> None
         | Some True \<Rightarrow> Some True
         | Some False \<Rightarrow> hasCycle_loop h Dependencies {} [] [n] [n \<mapsto> 0])
      else hasCycle_loop h direction {} [] [n] [n \<mapsto> 0])"

subsection \<open>Cloning\<close>

text \<open>
  \<open>cloneWithoutRelationships\<close>: a fresh node with the id and the main-document flag of
  this one and no edges. A subclass builds the fresh node of its own variant from its own
  data, which is the record's extension.
\<close>

definition cloneWithoutRelationships :: "'a node_scheme \<Rightarrow> 'a node_scheme" where
  "cloneWithoutRelationships n =
     \<lparr>nid = nid n, isMainDocument = isMainDocument n, dependents = [], dependencies = [],
      \<dots> = node.more n\<rparr>"

text \<open>Sequencing of computations that may throw or not return.\<close>

definition andThen :: "(error + 'b) option \<Rightarrow> ('b \<Rightarrow> (error + 'c) option) \<Rightarrow> (error + 'c) option" where
  "andThen m f = (case m of None \<Rightarrow> None | Some (Inl e) \<Rightarrow> Some (Inl e) | Some (Inr x) \<Rightarrow> f x)"

text \<open>
  \<open>shouldIncludeNode\<close> is \<open>() => true\<close> without a predicate (\<open>None\<close>) and
  \<open>node => idsToInclude.has(node.id)\<close> with one.
\<close>

definition shouldIncludeNode :: "string set option \<Rightarrow> 'a heap \<Rightarrow> ref \<Rightarrow> bool" where
  "shouldIncludeNode idsToInclude h n =
     (case idsToInclude of None \<Rightarrow> True | Some ids \<Rightarrow> nid (h ! n) \<in> ids)"

text \<open>The inner callback of the first pass: \<open>node => idsToInclude.add(node.id)\<close>.\<close>

definition addIdCallback :: "('a, string set) callback" where
  "addIdCallback n traversalPath s =
     (case s of (h, idsToInclude) \<Rightarrow> Some (Inr (h, insert (nid (h ! n)) idsToInclude)))"

text \<open>
  The outer callback of the first pass: from every node that passes the predicate, walk
  back up the dependencies and add the id of every node on the way.
\<close>

definition includeCallback :: "('a heap \<Rightarrow> ref \<Rightarrow> bool) \<Rightarrow> ('a, string set) callback" where
  "includeCallback predicate n traversalPath s =
     (if \<not> predicate (fst s) n then Some (Inr s)
      else traverse n addIdCallback getDependencies s)"

definition computeIdsToInclude ::
  "ref \<Rightarrow> ('a heap \<Rightarrow> ref \<Rightarrow> bool) option \<Rightarrow> 'a heap \<Rightarrow> (error + 'a heap \<times> string set option) option" where
  "computeIdsToInclude rootNode predicate h =
     (case predicate of
        None \<Rightarrow> Some (Inr (h, None))
      | Some p \<Rightarrow>
          andThen (traverse rootNode (includeCallback p) getDependents (h, {}))
            (\<lambda>(h1, idsToInclude). Some (Inr (h1, Some idsToInclude))))"

text \<open>The callback of the second pass: clone every included node into the map, keyed by id.\<close>

definition cloneNodeCallback :: "string set option \<Rightarrow> ('a, string \<rightharpoonup> ref) callback" where
  "cloneNodeCallback idsToInclude originalNode traversalPath s =
     (case s of (h, idToNodeMap) \<Rightarrow>
        if \<not> shouldIncludeNode idsToInclude h originalNode then Some (Inr s)
        else
          let clonedNode = cloneWithoutRelationships (h ! originalNode)
          in Some (Inr (h @ [clonedNode], idToNodeMap(nid clonedNode \<mapsto> length h))))"

text \<open>
  The \<open>for\<close> loop of the third pass. \<open>idToNodeMap.get\<close> gives \<open>undefined\<close> for an
  id that was not cloned, and \<open>addDependency\<close> on or with \<open>undefined\<close> is a TypeError.
  The loop body writes the two clones only, so the list it runs over is the original's
  dependencies as they were when the loop started.
\<close>

fun wireDependencies ::
  "(string \<rightharpoonup> ref) \<Rightarrow> ref option \<Rightarrow> ref list \<Rightarrow> 'a heap \<Rightarrow> error + 'a heap" where
  "wireDependencies idToNodeMap clonedNode [] h = Inr h"
| "wireDependencies idToNodeMap clonedNode (dependency # ds) h =
     (case idToNodeMap (nid (h ! dependency)) of
        None \<Rightarrow> Inl TypeError
      | Some clonedDependency \<Rightarrow>
          (case clonedNode of
             None \<Rightarrow> Inl TypeError
           | Some c \<Rightarrow> wireDependencies idToNodeMap clonedNode ds (addDependency c clonedDependency h)))"

definition cloneEdgesCallback ::
  "string set option \<Rightarrow> (string \<rightharpoonup> ref) \<Rightarrow> ('a, unit) callback" where
  "cloneEdgesCallback idsToInclude idToNodeMap originalNode traversalPath s =
     (case s of (h, u) \<Rightarrow>
        if \<not> shouldIncludeNode idsToInclude h originalNode then Some (Inr s)
        else
          (case wireDependencies idToNodeMap (idToNodeMap (nid (h ! originalNode)))
                  (dependencies (h ! originalNode)) h of
             Inl e \<Rightarrow> Some (Inl e)
           | Inr h' \<Rightarrow> Some (Inr (h', u))))"

text \<open>
  The three passes of \<open>cloneWithRelationships\<close> up to the final check: the heap with
  the clones in it, and \<open>idToNodeMap\<close>.
\<close>

definition cloneGraph ::
  "ref \<Rightarrow> ('a heap \<Rightarrow> ref \<Rightarrow> bool) option \<Rightarrow> 'a heap
    \<Rightarrow> (error + 'a heap \<times> (string \<rightharpoonup> ref)) option" where
  "cloneGraph this predicate h =
     (case getRootNode h this of
        None \<Rightarrow> None
      | Some rootNode \<Rightarrow>
          andThen (computeIdsToInclude rootNode predicate h) (\<lambda>(h1, idsToInclude).
          andThen (traverse rootNode (cloneNodeCallback idsToInclude) getDependents (h1, Map.empty))
            (\<lambda>(h2, idToNodeMap).
          andThen (traverse rootNode (cloneEdgesCallback idsToInclude idToNodeMap) getDependents (h2, ()))
            (\<lambda>(h3, u). Some (Inr (h3, idToNodeMap))))))"

text \<open>
  \<open>cloneWithRelationships(predicate)\<close>: the new heap and the clone of this node, or the
  error thrown.
\<close>

definition cloneWithRelationships ::
  "ref \<Rightarrow> ('a heap \<Rightarrow> ref \<Rightarrow> bool) option \<Rightarrow> 'a heap \<Rightarrow> (error + 'a heap \<times> ref) option" where
  "cloneWithRelationships this predicate h =
     andThen (cloneGraph this predicate h) (\<lambda>(h3, idToNodeMap).
       (case idToNodeMap (nid (h3 ! this)) of
          None \<Rightarrow> Some (Inl MissingNode)
        | Some c \<Rightarrow> Some (Inr (h3, c))))"

section \<open>First contentful paint (lantern-first-contentful-paint.js)\<close>

text \<open>
  The classes \<open>NetworkNode\<close> and \<open>CPUNode\<close> are not part of the sources at hand; a
  node carries, as the extension of the base record, what the classifier and the builder
  read of it: its type with its timing, and for a network node the URL of its record, its
  render-blocking priority and its initiator type, for a CPU node the predicate
  \<open>isEvaluateScriptFor\<close>, whether it performed a layout, and the names of its child
  events in order.
\<close>

datatype node_type = NETWORK | CPU

datatype payload =
    NetworkNode (startTime: real) (endTime: real) (url: string)
      (hasRenderBlockingPriority: bool) (initiatorType: string)
  | CPUNode (startTime: real) (endTime: real) (isEvaluateScriptFor: "string set \<Rightarrow> bool")
      (didPerformLayout: bool) (childEvents: "string list")

type_synonym lnode = "payload node_scheme"

fun payloadType :: "payload \<Rightarrow> node_type" where
  "payloadType (NetworkNode s e u p i) = NETWORK"
| "payloadType (CPUNode s e f l c) = CPU"

definition nodeType :: "lnode \<Rightarrow> node_type" where
  "nodeType n = payloadType (node.more n)"

text \<open>A JavaScript \<open>Set\<close> keeps its elements in insertion order, each once.\<close>

definition setAdd :: "'b \<Rightarrow> 'b list \<Rightarrow> 'b list" where
  "setAdd x xs = (if x \<in> set xs then xs else xs @ [x])"

text \<open>
  The elements of \<open>blockingCpuNodeIds\<close> are JavaScript values: a string is equal to an
  equal string and to nothing else, a node object to itself only.
\<close>

datatype jsval = JString string | JNode ref

record blockingCpuData =
  possiblyRenderBlockingScriptUrls :: "string list"
  actuallyRenderBlockingScriptUrls :: "string list"
  blockingCpuNodeIds :: "jsval list"

text \<open>The callback that collects the CPU nodes that started by the paint.\<close>

definition collectCpuCallback :: "real \<Rightarrow> (payload, ref list) callback" where
  "collectCpuCallback fcpTs n traversalPath s =
     (case s of (h, cpuNodes) \<Rightarrow>
        if nodeType (h ! n) = CPU \<and> startTime (node.more (h ! n)) \<le> fcpTs
        then Some (Inr (h, cpuNodes @ [n]))
        else Some (Inr s))"

text \<open>
  Modelled from the spec: \<open>LanternMetric.getScriptUrls\<close>, which is missing from the
  sources: the set of the URLs of the network nodes of the graph for which the condition
  holds, in traversal order.
\<close>

definition scriptUrlCallback :: "(lnode \<Rightarrow> bool) \<Rightarrow> (payload, string list) callback" where
  "scriptUrlCallback condition n traversalPath s =
     (case s of (h, scriptUrls) \<Rightarrow>
        if nodeType (h ! n) = CPU then Some (Inr s)
        else if \<not> condition (h ! n) then Some (Inr s)
        else Some (Inr (h, setAdd (url (node.more (h ! n))) scriptUrls)))"

definition getScriptUrls ::
  "ref \<Rightarrow> (lnode \<Rightarrow> bool) \<Rightarrow> payload heap \<Rightarrow> (error + payload heap \<times> string list) option" where
  "getScriptUrls dependencyGraph condition h =
     traverse dependencyGraph (scriptUrlCallback condition) getDependents (h, [])"

text \<open>
  The inner \<open>for\<close> loop over the sorted CPU nodes for one URL: the first node that
  evaluates the script adds the URL and itself, and \<open>break\<close> ends the loop.
\<close>

fun scanCpuNodes ::
  "payload heap \<Rightarrow> string \<Rightarrow> ref list \<Rightarrow> string list \<times> jsval list \<Rightarrow> string list \<times> jsval list" where
  "scanCpuNodes h u [] (actually, ids) = (actually, ids)"
| "scanCpuNodes h u (cpuNode # rest) (actually, ids) =
     (if isEvaluateScriptFor (node.more (h ! cpuNode)) {u}
      then (setAdd u actually, setAdd (JNode cpuNode) ids)
      else scanCpuNodes h u rest (actually, ids))"

definition addFound :: "payload heap \<Rightarrow> ref option \<Rightarrow> jsval list \<Rightarrow> jsval list" where
  "addFound h found ids =
     (case found of None \<Rightarrow> ids | Some n \<Rightarrow> setAdd (JString (nid (h ! n))) ids)"

definition getBlockingCpuData ::
  "ref \<Rightarrow> real \<Rightarrow> (lnode \<Rightarrow> bool) \<Rightarrow> (lnode \<Rightarrow> bool) option \<Rightarrow> payload heap
    \<Rightarrow> (error + payload heap \<times> blockingCpuData) option" where
  "getBlockingCpuData graph fcpTs networkFilter cpuFilter h =
     andThen (traverse graph (collectCpuCallback fcpTs) getDependents (h, [])) (\<lambda>(h1, collected).
       let cpuNodes = sort_key (\<lambda>n. startTime (node.more (h1 ! n))) collected in
       andThen (getScriptUrls graph
                  (\<lambda>n. endTime (node.more n) \<le> fcpTs \<and> networkFilter n) h1) (\<lambda>(h2, possibly).
         let (actually, ids0) = fold (\<lambda>u acc. scanCpuNodes h2 u cpuNodes acc) possibly ([], []);
             firstLayout = find (\<lambda>n. didPerformLayout (node.more (h2 ! n))) cpuNodes;
             ids1 = addFound h2 firstLayout ids0;
             firstPaint = find (\<lambda>n. ''Paint'' \<in> set (childEvents (node.more (h2 ! n)))) cpuNodes;
             ids2 = addFound h2 firstPaint ids1;
             firstParse = find (\<lambda>n. ''ParseHTML'' \<in> set (childEvents (node.more (h2 ! n)))) cpuNodes;
             ids3 = addFound h2 firstParse ids2;
             ids4 = (case cpuFilter of
                       None \<Rightarrow> ids3
                     | Some f \<Rightarrow>
                         fold (\<lambda>n acc. setAdd (JString (nid (h2 ! n))) acc)
                           (filter (\<lambda>n. f (h2 ! n)) cpuNodes) ids3)
         in Some (Inr (h2, \<lparr>possiblyRenderBlockingScriptUrls = possibly,
                            actuallyRenderBlockingScriptUrls = actually,
                            blockingCpuNodeIds = ids4\<rparr>))))"

text \<open>The predicate that \<open>getFirstPaintBasedGraph\<close> hands to \<open>cloneWithRelationships\<close>.\<close>

definition firstPaintPredicate :: "real \<Rightarrow> blockingCpuData \<Rightarrow> payload heap \<Rightarrow> ref \<Rightarrow> bool" where
  "firstPaintPredicate fcpTs d h n =
     (if nodeType (h ! n) = NETWORK then
        (if endTime (node.more (h ! n)) > fcpTs \<and> \<not> isMainDocument (h ! n) then False
         else if url (node.more (h ! n)) \<in> set (possiblyRenderBlockingScriptUrls d)
         then url (node.more (h ! n)) \<in> set (actuallyRenderBlockingScriptUrls d)
         else hasRenderBlockingPriority (node.more (h ! n)))
      else JString (nid (h ! n)) \<in> set (blockingCpuNodeIds d))"

definition getFirstPaintBasedGraph ::
  "ref \<Rightarrow> real \<Rightarrow> (lnode \<Rightarrow> bool) \<Rightarrow> (lnode \<Rightarrow> bool) option \<Rightarrow> payload heap
    \<Rightarrow> (error + payload heap \<times> ref) option" where
  "getFirstPaintBasedGraph dependencyGraph fcpTs blockingScriptFilter cpuNodeFilter h =
     andThen (getBlockingCpuData dependencyGraph fcpTs blockingScriptFilter cpuNodeFilter h)
       (\<lambda>(h1, d). cloneWithRelationships dependencyGraph (Some (firstPaintPredicate fcpTs d)) h1)"

record traceOfTab =
  firstContentfulPaint :: real

definition getOptimisticGraph ::
  "ref \<Rightarrow> traceOfTab \<Rightarrow> payload heap \<Rightarrow> (error + payload heap \<times> ref) option" where
  "getOptimisticGraph dependencyGraph t h =
     getFirstPaintBasedGraph dependencyGraph (firstContentfulPaint t)
       (\<lambda>n. hasRenderBlockingPriority (node.more n) \<and> initiatorType (node.more n) \<noteq> ''script'')
       None h"

definition getPessimisticGraph ::
  "ref \<Rightarrow> traceOfTab \<Rightarrow> payload heap \<Rightarrow> (error + payload heap \<times> ref) option" where
  "getPessimisticGraph dependencyGraph t h =
     getFirstPaintBasedGraph dependencyGraph (firstContentfulPaint t)
       (\<lambda>n. hasRenderBlockingPriority (node.more n))
       None h"

section \<open>Example graphs\<close>

text \<open>
  The classifier scenario: the main document, a render-blocking script that finished
  loading at 100, and the CPU task (90 to 110) that evaluates it; the paint is at 150.
\<close>

definition classifierScenario :: "payload heap" where
  "classifierScenario =
    [\<lparr>nid = ''doc'', isMainDocument = True, dependents = [1], dependencies = [],
      \<dots> = NetworkNode 0 50 ''http://a/'' True ''other''\<rparr>,
     \<lparr>nid = ''js'', isMainDocument = False, dependents = [2], dependencies = [0],
      \<dots> = NetworkNode 60 100 ''http://a/s.js'' True ''parser''\<rparr>,
     \<lparr>nid = ''cpu'', isMainDocument = False, dependents = [], dependencies = [1],
      \<dots> = CPUNode 90 110 (\<lambda>urls. ''http://a/s.js'' \<in> urls) False []\<rparr>]"

definition blockingIdsOf :: "(error + payload heap \<times> blockingCpuData) option \<Rightarrow> jsval list" where
  "blockingIdsOf r = (case r of Some (Inr (h, d)) \<Rightarrow> blockingCpuNodeIds d | _ \<Rightarrow> [])"

definition actuallyBlockingOf :: "(error + payload heap \<times> blockingCpuData) option \<Rightarrow> string list" where
  "actuallyBlockingOf r = (case r of Some (Inr (h, d)) \<Rightarrow> actuallyRenderBlockingScriptUrls d | _ \<Rightarrow> [])"

section \<open>Well-formedness of heaps and graphs\<close>

text \<open>
  Every reference held by a node points to an allocated node: in JavaScript a reference
  cannot dangle.
\<close>

definition heapClosed :: "'a heap \<Rightarrow> bool" where
  "heapClosed h = (\<forall>n \<in> set h. \<forall>r \<in> set (dependents n) \<union> set (dependencies n). r < length h)"

text \<open>
  Edge symmetry as the data model words it: A appears in B's dependents exactly when B
  appears in A's dependencies.
\<close>

definition symmetricEdges :: "'a heap \<Rightarrow> bool" where
  "symmetricEdges h =
     (\<forall>a < length h. \<forall>b < length h.
        (a \<in> set (dependents (h ! b))) = (b \<in> set (dependencies (h ! a))))"

text \<open>
  Edge symmetry with multiplicity: A appears in B's dependents exactly as often as B
  appears in A's dependencies.
\<close>

definition edgeCountsAgree :: "'a heap \<Rightarrow> bool" where
  "edgeCountsAgree h =
     (\<forall>a < length h. \<forall>b < length h.
        count_list (dependents (h ! b)) a = count_list (dependencies (h ! a)) b)"

text \<open>
  Two nodes with symmetric edges where B lists its dependent A twice: a state that
  \<open>addDependency\<close> never builds.
\<close>

definition duplicateEdgeHeap :: "node list" where
  "duplicateEdgeHeap =
     [\<lparr>nid = ''A'', isMainDocument = False, dependents = [], dependencies = [1]\<rparr>,
      \<lparr>nid = ''B'', isMainDocument = False, dependents = [0, 0], dependencies = []\<rparr>]"

text \<open>The chain A \<open>\<rightarrow>\<close> B \<open>\<rightarrow>\<close> C \<open>\<rightarrow>\<close> X: each node depends on the one before it.\<close>

definition chainABCX :: "node list" where
  "chainABCX =
     [\<lparr>nid = ''A'', isMainDocument = False, dependents = [1], dependencies = []\<rparr>,
      \<lparr>nid = ''B'', isMainDocument = False, dependents = [2], dependencies = [0]\<rparr>,
      \<lparr>nid = ''C'', isMainDocument = False, dependents = [3], dependencies = [1]\<rparr>,
      \<lparr>nid = ''X'', isMainDocument = False, dependents = [], dependencies = [2]\<rparr>]"

text \<open>
  The shapes of the cycle-detection examples, wherever the nodes lie in the heap: a linear
  chain \<open>rs\<close> (each node's only dependency is the node before it, its only dependent the
  node after it), two nodes that depend on each other, and a node without edges.
\<close>

definition isChain :: "'a heap \<Rightarrow> ref list \<Rightarrow> bool" where
  "isChain h rs =
     (distinct rs \<and>
      (\<forall>i < length rs.
         dependents (h ! (rs ! i)) = (if Suc i < length rs then [rs ! Suc i] else []) \<and>
         dependencies (h ! (rs ! i)) = (if 0 < i then [rs ! (i - 1)] else [])))"

definition isMutualPair :: "'a heap \<Rightarrow> ref \<Rightarrow> ref \<Rightarrow> bool" where
  "isMutualPair h a b =
     (a \<noteq> b \<and> dependencies (h ! a) = [b] \<and> dependents (h ! b) = [a] \<and>
      dependencies (h ! b) = [a] \<and> dependents (h ! a) = [b])"

definition isIsolated :: "'a heap \<Rightarrow> ref \<Rightarrow> bool" where
  "isIsolated h a = (dependencies (h ! a) = [] \<and> dependents (h ! a) = [])"

definition mutualPair :: "node list" where
  "mutualPair =
     [\<lparr>nid = ''A'', isMainDocument = False, dependents = [1], dependencies = [1]\<rparr>,
      \<lparr>nid = ''B'', isMainDocument = False, dependents = [0], dependencies = [0]\<rparr>]"

definition isolatedNode :: "node list" where
  "isolatedNode = [BaseNode ''A'']"

section \<open>Breadth-first traversal, abstractly\<close>

text \<open>
  A callback that only updates its own variables: it leaves the heap alone, returns, and
  does not throw.
\<close>

definition readOnlyCallback :: "(ref \<Rightarrow> ref list \<Rightarrow> 'x \<Rightarrow> 'x) \<Rightarrow> ('a, 'x) callback" where
  "readOnlyCallback f n traversalPath s = (case s of (h, x) \<Rightarrow> Some (Inr (h, f n traversalPath x)))"

text \<open>Calling a callback on a list of traversal paths in order, each with its first node.\<close>

fun foldCallback :: "('a, 'x) callback \<Rightarrow> ref list list \<Rightarrow> 'a heap \<times> 'x
    \<Rightarrow> (error + 'a heap \<times> 'x) option" where
  "foldCallback callback [] s = Some (Inr s)"
| "foldCallback callback (p # ps) s =
     (case callback (hd p) p s of
        None \<Rightarrow> None
      | Some (Inl e) \<Rightarrow> Some (Inl e)
      | Some (Inr s') \<Rightarrow> foldCallback callback ps s')"

text \<open>The next nodes that \<open>enqueue\<close> pushes: the first of each id that is not yet visited.\<close>

fun freshNodes :: "'a heap \<Rightarrow> ref list \<Rightarrow> string set \<Rightarrow> ref list" where
  "freshNodes h [] visited = []"
| "freshNodes h (m # ms) visited =
     (if nid (h ! m) \<in> visited then freshNodes h ms visited
      else m # freshNodes h ms (insert (nid (h ! m)) visited))"

text \<open>
  A run of the queue loop over a heap that stays the same: from the visited set and the
  queue to the list of traversal paths taken from the queue, in order.
\<close>

inductive bfsRun ::
  "'a heap \<Rightarrow> ('a heap \<Rightarrow> ref \<Rightarrow> ref list) \<Rightarrow> string set \<Rightarrow> ref list list \<Rightarrow> ref list list \<Rightarrow> bool"
  for h g where
    bfsDone: "bfsRun h g visited [] []"
  | bfsStep: "enqueue h (n # t) (g h n) (visited, rest) = (visited', queue') \<Longrightarrow>
       bfsRun h g visited' queue' ps \<Longrightarrow>
       bfsRun h g visited ((n # t) # rest) ((n # t) # ps)"

text \<open>
  A traversal path: the node at the front, the start at the back, and each node one of
  the next nodes of the node after it.
\<close>

fun validPath :: "(ref \<Rightarrow> ref list) \<Rightarrow> ref \<Rightarrow> ref list \<Rightarrow> bool" where
  "validPath nx start [] = False"
| "validPath nx start [n] = (n = start)"
| "validPath nx start (m # n # t) = (m \<in> set (nx n) \<and> validPath nx start (n # t))"

text \<open>The nodes reachable from the start have pairwise distinct ids.\<close>

definition uniqueIds :: "'a heap \<Rightarrow> (ref \<Rightarrow> ref list) \<Rightarrow> ref \<Rightarrow> bool" where
  "uniqueIds h nx start =
     (\<forall>p q. validPath nx start p \<and> validPath nx start q \<and> nid (h ! hd p) = nid (h ! hd q)
        \<longrightarrow> hd p = hd q)"

text \<open>
  The invariant of the queue loop, over the paths already called back and the queue.
\<close>

definition bfsInv ::
  "'a heap \<Rightarrow> (ref \<Rightarrow> ref list) \<Rightarrow> ref \<Rightarrow> string set \<Rightarrow> ref list list \<Rightarrow> ref list list \<Rightarrow> bool" where
  "bfsInv h nx start visited queue calls =
     ((\<forall>p \<in> set (calls @ queue). validPath nx start p) \<and>
      [start] \<in> set (calls @ queue) \<and>
      visited = (\<lambda>p. nid (h ! hd p)) ` set (calls @ queue) \<and>
      distinct (map (\<lambda>p. nid (h ! hd p)) (calls @ queue)) \<and>
      sorted (map length (calls @ queue)) \<and>
      (\<forall>p \<in> set (calls @ queue). queue \<noteq> [] \<longrightarrow> length p \<le> Suc (length (hd queue))) \<and>
      (\<forall>p \<in> set calls. \<forall>m \<in> set (nx (hd p)). nid (h ! m) \<in> visited) \<and>
      (\<forall>p \<in> set (calls @ queue). \<forall>q. validPath nx start q \<and> hd q = hd p \<longrightarrow> length p \<le> length q))"

text \<open>A diamond: B and C depend on A, and D depends on B and C.\<close>

definition diamond :: "node list" where
  "diamond =
     [\<lparr>nid = ''A'', isMainDocument = False, dependents = [1, 2], dependencies = []\<rparr>,
      \<lparr>nid = ''B'', isMainDocument = False, dependents = [3], dependencies = [0]\<rparr>,
      \<lparr>nid = ''C'', isMainDocument = False, dependents = [3], dependencies = [0]\<rparr>,
      \<lparr>nid = ''D'', isMainDocument = False, dependents = [], dependencies = [1, 2]\<rparr>]"

section \<open>Cloning, pass by pass\<close>

text \<open>
  What the first pass of \<open>cloneWithRelationships\<close> computes: the ids that the walk back
  up the dependencies from a node adds, their union over the visited nodes that pass the
  predicate, and with it \<open>idsToInclude\<close> (none without a predicate).
\<close>

definition ancestorIds :: "'a heap \<Rightarrow> ref \<Rightarrow> string set" where
  "ancestorIds h n =
     {i. \<exists>qs. bfsRun h getDependencies {nid (h ! n)} [[n]] qs \<and> i \<in> (\<lambda>q. nid (h ! hd q)) ` set qs}"

definition includedIds :: "'a heap \<Rightarrow> ('a heap \<Rightarrow> ref \<Rightarrow> bool) \<Rightarrow> ref list \<Rightarrow> string set" where
  "includedIds h predicate ns = (\<Union>n \<in> {n \<in> set ns. predicate h n}. ancestorIds h n)"

definition idsToIncludeOf ::
  "'a heap \<Rightarrow> ('a heap \<Rightarrow> ref \<Rightarrow> bool) option \<Rightarrow> ref list \<Rightarrow> string set option" where
  "idsToIncludeOf h predicate ns =
     (case predicate of None \<Rightarrow> None | Some p \<Rightarrow> Some (includedIds h p ns))"

text \<open>
  What the second pass computes from the list of visited nodes: \<open>idToNodeMap\<close> (the
  k-th included node is cloned at index k of the new part of the heap), the included
  nodes, and their clones.
\<close>

fun cloneMap :: "'a heap \<Rightarrow> string set option \<Rightarrow> ref list \<Rightarrow> nat \<Rightarrow> (string \<rightharpoonup> ref) \<Rightarrow> (string \<rightharpoonup> ref)" where
  "cloneMap h idsToInclude [] k m = m"
| "cloneMap h idsToInclude (n # ns) k m =
     (if shouldIncludeNode idsToInclude h n
      then cloneMap h idsToInclude ns (Suc k) (m(nid (h ! n) \<mapsto> k))
      else cloneMap h idsToInclude ns k m)"

definition includedNodes :: "'a heap \<Rightarrow> string set option \<Rightarrow> ref list \<Rightarrow> ref list" where
  "includedNodes h idsToInclude ns = filter (shouldIncludeNode idsToInclude h) ns"

definition clonesOf :: "'a heap \<Rightarrow> ref list \<Rightarrow> 'a heap" where
  "clonesOf h ns = map (\<lambda>n. cloneWithoutRelationships (h ! n)) ns"

text \<open>
  The nodes allocated from index N on hold references to nodes allocated from index N on
  only: no edge leads from the clones back to the original nodes.
\<close>

definition cloneRegionClosed :: "nat \<Rightarrow> 'a heap \<Rightarrow> bool" where
  "cloneRegionClosed N H =
     (\<forall>r. N \<le> r \<and> r < length H \<longrightarrow>
        (\<forall>e \<in> set (dependents (H ! r)) \<union> set (dependencies (H ! r)). N \<le> e \<and> e < length H))"

text \<open>The heap after cloning the chain A, B, C, X: the four clones follow the originals.\<close>

definition clonedChainABCX :: "node list" where
  "clonedChainABCX = chainABCX @
     [\<lparr>nid = ''A'', isMainDocument = False, dependents = [5], dependencies = []\<rparr>,
      \<lparr>nid = ''B'', isMainDocument = False, dependents = [6], dependencies = [4]\<rparr>,
      \<lparr>nid = ''C'', isMainDocument = False, dependents = [7], dependencies = [5]\<rparr>,
      \<lparr>nid = ''X'', isMainDocument = False, dependents = [], dependencies = [6]\<rparr>]"

text \<open>The heap and the node that a cloning operation returns.\<close>

definition graphOf :: "(error + 'a heap \<times> ref) option \<Rightarrow> 'a heap" where
  "graphOf r = (case r of Some (Inr (h, c)) \<Rightarrow> h | _ \<Rightarrow> [])"

definition nodeOf :: "(error + 'a heap \<times> ref) option \<Rightarrow> ref" where
  "nodeOf r = (case r of Some (Inr (h, c)) \<Rightarrow> c | _ \<Rightarrow> 0)"

text \<open>The main document with two dependents that are distinct objects with the same id.\<close>

definition duplicateIdHeap :: "node list" where
  "duplicateIdHeap =
     [\<lparr>nid = ''r'', isMainDocument = True, dependents = [1, 2], dependencies = []\<rparr>,
      \<lparr>nid = ''a'', isMainDocument = False, dependents = [], dependencies = [0]\<rparr>,
      \<lparr>nid = ''a'', isMainDocument = False, dependents = [], dependencies = [0]\<rparr>]"

text \<open>The heap after cloning it: one clone of the root, and one clone for the id \<open>a\<close>.\<close>

definition clonedDuplicateIdHeap :: "node list" where
  "clonedDuplicateIdHeap = duplicateIdHeap @
     [\<lparr>nid = ''r'', isMainDocument = True, dependents = [4], dependencies = []\<rparr>,
      \<lparr>nid = ''a'', isMainDocument = False, dependents = [], dependencies = [3]\<rparr>]"

section \<open>Edges of the clones\<close>

text \<open>
  The dependency edges and the dependent edges held by the nodes allocated from index
  \<open>N\<close> on (the clones), as sets of pairs.
\<close>

definition cloneDeps :: "nat \<Rightarrow> 'a heap \<Rightarrow> (ref \<times> ref) set" where
  "cloneDeps N H = {(a, b). N \<le> a \<and> a < length H \<and> b \<in> set (dependencies (H ! a))}"

definition cloneDependents :: "nat \<Rightarrow> 'a heap \<Rightarrow> (ref \<times> ref) set" where
  "cloneDependents N H = {(b, a). N \<le> b \<and> b < length H \<and> a \<in> set (dependents (H ! b))}"

text \<open>
  The dependency edges of the original nodes \<open>S\<close>, carried over to their clones by
  the clone map.
\<close>

definition clonedEdges :: "(string \<rightharpoonup> ref) \<Rightarrow> 'a heap \<Rightarrow> ref set \<Rightarrow> (ref \<times> ref) set" where
  "clonedEdges m h S =
     {(c, cd). \<exists>n d. n \<in> S \<and> d \<in> set (dependencies (h ! n)) \<and>
        m (nid (h ! n)) = Some c \<and> m (nid (h ! d)) = Some cd}"

text \<open>
  Every dependency of a node of \<open>S\<close> has an id that is a key of the clone map: the
  third pass finds a clone to wire to.
\<close>

definition depsCovered :: "(string \<rightharpoonup> ref) \<Rightarrow> 'a heap \<Rightarrow> ref set \<Rightarrow> bool" where
  "depsCovered m h S = (\<forall>n \<in> S. \<forall>d \<in> set (dependencies (h ! n)). m (nid (h ! d)) \<noteq> None)"

section \<open>States that the code builds\<close>

text \<open>\<open>setIsMainDocument(value)\<close> writes the flag of this node.\<close>

definition setIsMainDocument :: "ref \<Rightarrow> bool \<Rightarrow> 'a heap \<Rightarrow> 'a heap" where
  "setIsMainDocument this v h = h[this := (h ! this)\<lparr>isMainDocument := v\<rparr>]"

text \<open>
  The states that the code can be in. The edge lists are private fields that only the
  methods of \<open>BaseNode\<close> write: a constructor (of the class or of a subclass, also when
  \<open>cloneWithoutRelationships\<close> calls it) allocates a node without edges, and the edge
  operations are the only writers of the lists afterwards.
  (\<open>cloneWithRelationships\<close> writes the lists of its clones through
  \<open>addDependency\<close>, so the heaps it returns are of this kind too.)
\<close>

inductive built :: "'a heap \<Rightarrow> bool" where
    builtEmpty: "built []"
  | builtNew: "built h \<Longrightarrow> dependents n = [] \<Longrightarrow> dependencies n = [] \<Longrightarrow> built (h @ [n])"
  | builtSetIsMainDocument: "built h \<Longrightarrow> this < length h \<Longrightarrow> built (setIsMainDocument this v h)"
  | builtAddDependency:
      "built h \<Longrightarrow> this < length h \<Longrightarrow> n < length h \<Longrightarrow> built (addDependency this n h)"
  | builtAddDependent:
      "built h \<Longrightarrow> this < length h \<Longrightarrow> n < length h \<Longrightarrow> built (addDependent this n h)"
  | builtRemoveDependency:
      "built h \<Longrightarrow> this < length h \<Longrightarrow> n < length h \<Longrightarrow> built (removeDependency this n h)"
  | builtRemoveDependent:
      "built h \<Longrightarrow> this < length h \<Longrightarrow> n < length h \<Longrightarrow> built (removeDependent this n h)"
  | builtRemoveAllDependencies:
      "built h \<Longrightarrow> this < length h \<Longrightarrow> built (removeAllDependencies this h)"

text \<open>
  A graph with two distinct nodes of the same id \<open>a\<close>, built by \<open>addDependency\<close>
  from four fresh nodes: both depend on the root, \<open>x\<close> depends on the second of them
  and the first depends on \<open>x\<close>.
\<close>

definition dupCrash :: "node list" where
  "dupCrash =
     [\<lparr>nid = ''r'', isMainDocument = False, dependents = [1, 2], dependencies = []\<rparr>,
      \<lparr>nid = ''a'', isMainDocument = False, dependents = [], dependencies = [0, 3]\<rparr>,
      \<lparr>nid = ''a'', isMainDocument = False, dependents = [3], dependencies = [0]\<rparr>,
      \<lparr>nid = ''x'', isMainDocument = False, dependents = [1], dependencies = [2]\<rparr>]"

section \<open>Well-formed graphs\<close>

text \<open>
  The dependency relation of a heap: \<open>a\<close> depends on \<open>b\<close>. Two nodes are adjacent
  when one lists the other in either of its edge lists.
\<close>

definition depRel :: "'a heap \<Rightarrow> (ref \<times> ref) set" where
  "depRel h = {(a, b). a < length h \<and> b \<in> set (dependencies (h ! a))}"

definition adjacent :: "'a heap \<Rightarrow> (ref \<times> ref) set" where
  "adjacent h =
     {(a, b). a < length h \<and> b \<in> set (dependencies (h ! a)) \<union> set (dependents (h ! a))}"

text \<open>
  The connected graph that contains a node: the nodes reached from it along edges in
  either direction, its dependency edges (a node of the graph and one of its
  dependencies), and the ids of its nodes.
\<close>

definition graphNodes :: "'a heap \<Rightarrow> ref \<Rightarrow> ref set" where
  "graphNodes h n = {b. (n, b) \<in> (adjacent h)\<^sup>*}"

definition graphEdges :: "'a heap \<Rightarrow> ref \<Rightarrow> (ref \<times> ref) set" where
  "graphEdges h n = {(a, b). a \<in> graphNodes h n \<and> b \<in> set (dependencies (h ! a))}"

definition graphIds :: "'a heap \<Rightarrow> ref \<Rightarrow> string set" where
  "graphIds h n = (\<lambda>a. nid (h ! a)) ` graphNodes h n"

text \<open>
  A well-formed graph, as the header of \<open>base-node.js\<close> and the data model describe
  it: there is a root node upon which all other nodes eventually depend, no node depends
  on itself through a chain of dependencies, A is among B's dependents exactly when B is
  among A's dependencies, and the nodes have pairwise distinct ids.
\<close>

definition wellFormedGraph :: "'a heap \<Rightarrow> ref \<Rightarrow> bool" where
  "wellFormedGraph h n =
     (heapClosed h \<and> n < length h \<and>
      (\<exists>r \<in> graphNodes h n. \<forall>a \<in> graphNodes h n. (a, r) \<in> (depRel h)\<^sup>*) \<and>
      (\<forall>a \<in> graphNodes h n. (a, a) \<notin> (depRel h)\<^sup>+) \<and>
      (\<forall>a \<in> graphNodes h n. \<forall>b \<in> graphNodes h n.
         (a \<in> set (dependents (h ! b))) = (b \<in> set (dependencies (h ! a)))) \<and>
      inj_on (\<lambda>a. nid (h ! a)) (graphNodes h n))"

text \<open>
  The nodes that a clone keeps: without a predicate all nodes of the graph, with one the
  nodes that some node of the graph satisfying the predicate depends on, directly or
  through other nodes, that node included.
\<close>

definition retained :: "'a heap \<Rightarrow> ('a heap \<Rightarrow> ref \<Rightarrow> bool) option \<Rightarrow> ref \<Rightarrow> ref set" where
  "retained h predicate n =
     (case predicate of
        None \<Rightarrow> graphNodes h n
      | Some p \<Rightarrow> {a. \<exists>s \<in> graphNodes h n. p h s \<and> (s, a) \<in> (depRel h)\<^sup>*})"

text \<open>
  The clone of an original node: the entry of the clone map for its id.
\<close>

definition cloneOf :: "(string \<rightharpoonup> ref) \<Rightarrow> 'a heap \<Rightarrow> ref \<Rightarrow> ref" where
  "cloneOf m h a = the (m (nid (h ! a)))"

text \<open>
  Two roots: \<open>c\<close> depends on \<open>r1\<close> and on \<open>r2\<close>, and \<open>x\<close> depends on
  \<open>r2\<close>; built by three calls of \<open>addDependency\<close> on four fresh nodes.
\<close>

definition twoRoots :: "node list" where
  "twoRoots =
     [\<lparr>nid = ''r1'', isMainDocument = False, dependents = [2], dependencies = []\<rparr>,
      \<lparr>nid = ''r2'', isMainDocument = False, dependents = [2, 3], dependencies = []\<rparr>,
      \<lparr>nid = ''c'', isMainDocument = False, dependents = [], dependencies = [0, 1]\<rparr>,
      \<lparr>nid = ''x'', isMainDocument = False, dependents = [], dependencies = [1]\<rparr>]"

text \<open>The heap after cloning it from \<open>r1\<close> with a predicate that selects \<open>r1\<close> and \<open>x\<close>.\<close>

definition clonedTwoRoots :: "node list" where
  "clonedTwoRoots = twoRoots @
     [\<lparr>nid = ''r1'', isMainDocument = False, dependents = [], dependencies = []\<rparr>]"

section \<open>The classifier, as sets\<close>

text \<open>
  What the classifier finds, as sets: the CPU nodes that started by the paint among the
  nodes traversed, the URLs of the network nodes traversed that ended by the paint and
  pass the filter, and those of them that one of the CPU nodes evaluates.
\<close>

definition startedCpuNodes :: "payload heap \<Rightarrow> real \<Rightarrow> ref list \<Rightarrow> ref list" where
  "startedCpuNodes h fcpTs ns =
     filter (\<lambda>n. nodeType (h ! n) = CPU \<and> startTime (node.more (h ! n)) \<le> fcpTs) ns"

definition possiblyBlocking :: "payload heap \<Rightarrow> real \<Rightarrow> (lnode \<Rightarrow> bool) \<Rightarrow> ref list \<Rightarrow> string set" where
  "possiblyBlocking h fcpTs networkFilter ns =
     (\<lambda>n. url (node.more (h ! n))) `
       {n \<in> set ns. nodeType (h ! n) \<noteq> CPU \<and> endTime (node.more (h ! n)) \<le> fcpTs \<and>
                     networkFilter (h ! n)}"

definition actuallyBlocking :: "payload heap \<Rightarrow> real \<Rightarrow> (lnode \<Rightarrow> bool) \<Rightarrow> ref list \<Rightarrow> string set" where
  "actuallyBlocking h fcpTs networkFilter ns =
     {u \<in> possiblyBlocking h fcpTs networkFilter ns.
        \<exists>c \<in> set (startedCpuNodes h fcpTs ns). isEvaluateScriptFor (node.more (h ! c)) {u}}"

text \<open>The strings among the elements of \<open>blockingCpuNodeIds\<close>.\<close>

definition stringsOf :: "jsval list \<Rightarrow> string set" where
  "stringsOf ids = {i. JString i \<in> set ids}"

text \<open>
  The ids of the CPU nodes that \<open>getBlockingCpuData\<close> marks as blocking whatever the
  network filter is: the first layout, the first paint and the first HTML parse among the
  sorted CPU nodes.
\<close>

definition markedCpuIds :: "payload heap \<Rightarrow> real \<Rightarrow> ref list \<Rightarrow> string set" where
  "markedCpuIds h fcpTs ns =
     (let cpuNodes = sort_key (\<lambda>n. startTime (node.more (h ! n))) (startedCpuNodes h fcpTs ns)
      in (case find (\<lambda>n. didPerformLayout (node.more (h ! n))) cpuNodes of
            None \<Rightarrow> {} | Some n \<Rightarrow> {nid (h ! n)}) \<union>
         (case find (\<lambda>n. ''Paint'' \<in> set (childEvents (node.more (h ! n)))) cpuNodes of
            None \<Rightarrow> {} | Some n \<Rightarrow> {nid (h ! n)}) \<union>
         (case find (\<lambda>n. ''ParseHTML'' \<in> set (childEvents (node.more (h ! n)))) cpuNodes of
            None \<Rightarrow> {} | Some n \<Rightarrow> {nid (h ! n)}))"

text \<open>
  The nodes that \<open>traverse\<close> visits from a node along dependents: the node and the nodes
  that depend on it, directly or through other nodes.
\<close>

definition traversed :: "'a heap \<Rightarrow> ref \<Rightarrow> ref set" where
  "traversed h g = {n. \<exists>p. validPath (getDependents h) g p \<and> hd p = n}"

text \<open>
  Every render-blocking, script-initiated network node among \<open>S\<close> that ended by the
  paint has its script evaluated by a CPU node among \<open>S\<close> that started by the paint.
\<close>

definition scriptsEvaluated :: "payload heap \<Rightarrow> real \<Rightarrow> ref set \<Rightarrow> bool" where
  "scriptsEvaluated h fcpTs S =
     (\<forall>n \<in> S. nodeType (h ! n) = NETWORK \<and> hasRenderBlockingPriority (node.more (h ! n)) \<and>
          initiatorType (node.more (h ! n)) = ''script'' \<and> endTime (node.more (h ! n)) \<le> fcpTs \<longrightarrow>
        (\<exists>c \<in> S. nodeType (h ! c) = CPU \<and> startTime (node.more (h ! c)) \<le> fcpTs \<and>
           isEvaluateScriptFor (node.more (h ! c)) {url (node.more (h ! n))}))"

text \<open>
  A main document that finishes loading after the paint, and a render-blocking script
  that a script initiated, loaded by the paint and evaluated by no CPU node.
\<close>

definition unevaluatedScript :: "payload heap" where
  "unevaluatedScript =
    [\<lparr>nid = ''doc'', isMainDocument = True, dependents = [1], dependencies = [],
      \<dots> = NetworkNode 0 200 ''http://a/'' True ''other''\<rparr>,
     \<lparr>nid = ''js'', isMainDocument = False, dependents = [], dependencies = [0],
      \<dots> = NetworkNode 60 100 ''http://a/s.js'' True ''script''\<rparr>]"

text \<open>The heaps after building its optimistic and its pessimistic graph.\<close>

definition unevaluatedScriptOptimistic :: "payload heap" where
  "unevaluatedScriptOptimistic = unevaluatedScript @
    [\<lparr>nid = ''doc'', isMainDocument = True, dependents = [3], dependencies = [],
      \<dots> = NetworkNode 0 200 ''http://a/'' True ''other''\<rparr>,
     \<lparr>nid = ''js'', isMainDocument = False, dependents = [], dependencies = [2],
      \<dots> = NetworkNode 60 100 ''http://a/s.js'' True ''script''\<rparr>]"

definition unevaluatedScriptPessimistic :: "payload heap" where
  "unevaluatedScriptPessimistic = unevaluatedScript @
    [\<lparr>nid = ''doc'', isMainDocument = True, dependents = [], dependencies = [],
      \<dots> = NetworkNode 0 200 ''http://a/'' True ''other''\<rparr>]"

text \<open>
  The same with the script evaluated: the main document, the script-initiated
  render-blocking script that finished loading at 100, and the CPU task (90 to 110) that
  evaluates it.
\<close>

definition evaluatedScript :: "payload heap" where
  "evaluatedScript =
    [\<lparr>nid = ''doc'', isMainDocument = True, dependents = [1], dependencies = [],
      \<dots> = NetworkNode 0 200 ''http://a/'' True ''other''\<rparr>,
     \<lparr>nid = ''js'', isMainDocument = False, dependents = [2], dependencies = [0],
      \<dots> = NetworkNode 60 100 ''http://a/s.js'' True ''script''\<rparr>,
     \<lparr>nid = ''cpu'', isMainDocument = False, dependents = [], dependencies = [1],
      \<dots> = CPUNode 90 110 (\<lambda>urls. ''http://a/s.js'' \<in> urls) False []\<rparr>]"

text \<open>
  The number of dependency edges of the graph of a node, as the code counts them: the sum
  of \<open>getNumberOfDependencies\<close> over its nodes.
\<close>

definition numberOfDependencies :: "'a heap \<Rightarrow> ref \<Rightarrow> nat" where
  "numberOfDependencies h n = (\<Sum>a \<in> graphNodes h n. getNumberOfDependencies h a)"

section \<open>Evaluation\<close>

lemmas traverse_eval =
  traverse_def traverse_loop.simps getDependents_def getDependencies_def andThen_def

lemmas classifier_eval =
  getBlockingCpuData_def getScriptUrls_def scriptUrlCallback_def collectCpuCallback_def
  nodeType_def setAdd_def addFound_def

lemmas clone_eval =
  cloneWithRelationships_def cloneGraph_def getRootNode.simps computeIdsToInclude_def
  includeCallback_def addIdCallback_def cloneNodeCallback_def cloneEdgesCallback_def
  shouldIncludeNode_def cloneWithoutRelationships_def addDependency_def

section \<open>The render-blocking classifier\<close>

text \<open>
  C1. In \<open>getBlockingCpuData\<close> the first CPU node that evaluates a possibly-blocking
  script is to add the URL to the actually-blocking set and its id to
  \<open>blockingCpuNodeIds\<close>. In the classifier scenario the URL is added, but what the code
  adds to \<open>blockingCpuNodeIds\<close> is the node object, not its id: the set holds the node
  and not the string \<open>cpu\<close>, so the lookup by id that builds the graph misses it.
\<close>

theorem C1_evaluating_node_added_not_its_id:
  "actuallyBlockingOf (getBlockingCpuData 0 150 (\<lambda>n. hasRenderBlockingPriority (node.more n))
      None classifierScenario) = [''http://a/s.js''] \<and>
   blockingIdsOf (getBlockingCpuData 0 150 (\<lambda>n. hasRenderBlockingPriority (node.more n))
      None classifierScenario) = [JNode 2] \<and>
   JString (nid (classifierScenario ! 2)) \<notin> set (blockingIdsOf
     (getBlockingCpuData 0 150 (\<lambda>n. hasRenderBlockingPriority (node.more n))
        None classifierScenario))"
  by (simp add: traverse_eval classifier_eval classifierScenario_def blockingIdsOf_def
      actuallyBlockingOf_def)

section \<open>Edge operations\<close>

lemma indexOf_nonneg: "x \<in> set xs \<Longrightarrow> 0 \<le> indexOf xs x"
  by (induction xs) (auto simp: Let_def)

lemma indexOf_neg: "x \<notin> set xs \<Longrightarrow> indexOf xs x = -1"
  by (induction xs) (auto simp: Let_def)

lemma indexOf_less: "x \<in> set xs \<Longrightarrow> indexOf xs x < int (length xs)"
  by (induction xs) (auto simp: Let_def)

lemma splice1_indexOf: "x \<in> set xs \<Longrightarrow> splice1 xs (indexOf xs x) = remove1 x xs"
proof (induction xs)
  case Nil
  then show ?case by simp
next
  case (Cons y ys)
  show ?case
  proof (cases "y = x")
    case True
    then show ?thesis by (simp add: splice1_def)
  next
    case False
    with Cons.prems have mem: "x \<in> set ys" by simp
    have nn: "0 \<le> indexOf ys x" and lt: "indexOf ys x < int (length ys)"
      using mem by (rule indexOf_nonneg, rule indexOf_less)
    have "splice1 ys (indexOf ys x) = remove1 x ys" using Cons.IH mem by simp
    with False nn lt show ?thesis
      by (simp add: splice1_def Let_def nat_add_distrib min_def)
  qed
qed

lemma count_list_remove1_if:
  "count_list (remove1 x xs) y = (if x = y \<and> x \<in> set xs then count_list xs y - 1 else count_list xs y)"
  by (induction xs) auto

lemma count_list_zero_iff: "count_list xs x = 0 \<longleftrightarrow> x \<notin> set xs"
  by (induction xs) auto

lemma addDependency_dependents:
  "this < length h \<Longrightarrow> n < length h \<Longrightarrow> b < length h \<Longrightarrow>
   dependents (addDependency this n h ! b) =
     (if n \<notin> set (dependencies (h ! this)) \<and> b = n then dependents (h ! n) @ [this]
      else dependents (h ! b))"
  by (auto simp: addDependency_def Let_def nth_list_update)

lemma addDependency_dependencies:
  "this < length h \<Longrightarrow> n < length h \<Longrightarrow> a < length h \<Longrightarrow>
   dependencies (addDependency this n h ! a) =
     (if n \<notin> set (dependencies (h ! this)) \<and> a = this then dependencies (h ! this) @ [n]
      else dependencies (h ! a))"
  by (auto simp: addDependency_def Let_def nth_list_update)

lemma length_addDependency [simp]: "length (addDependency this n h) = length h"
  by (simp add: addDependency_def Let_def)

lemma removeDependency_dependents:
  "this < length h \<Longrightarrow> n < length h \<Longrightarrow> b < length h \<Longrightarrow>
   dependents (removeDependency this n h ! b) =
     (if n \<in> set (dependencies (h ! this)) \<and> b = n
      then splice1 (dependents (h ! n)) (indexOf (dependents (h ! n)) this)
      else dependents (h ! b))"
  by (auto simp: removeDependency_def Let_def nth_list_update)

lemma removeDependency_dependencies:
  "this < length h \<Longrightarrow> n < length h \<Longrightarrow> a < length h \<Longrightarrow>
   dependencies (removeDependency this n h ! a) =
     (if n \<in> set (dependencies (h ! this)) \<and> a = this then remove1 n (dependencies (h ! this))
      else dependencies (h ! a))"
  by (auto simp: removeDependency_def Let_def nth_list_update splice1_indexOf)

lemma length_removeDependency [simp]: "length (removeDependency this n h) = length h"
  by (simp add: removeDependency_def Let_def)

lemma edgeCountsAgree_addDependency:
  assumes "edgeCountsAgree h" "this < length h" "n < length h"
  shows "edgeCountsAgree (addDependency this n h)"
  using assms unfolding edgeCountsAgree_def
  by (auto simp: addDependency_dependents addDependency_dependencies count_list_zero_iff)

lemma edgeCountsAgree_removeDependency:
  assumes "edgeCountsAgree h" "this < length h" "n < length h"
  shows "edgeCountsAgree (removeDependency this n h)"
proof (cases "n \<in> set (dependencies (h ! this))")
  case False
  then show ?thesis using assms by (simp add: removeDependency_def)
next
  case True
  with assms have "count_list (dependents (h ! n)) this \<noteq> 0"
    unfolding edgeCountsAgree_def by (simp add: count_list_zero_iff)
  then have mem: "this \<in> set (dependents (h ! n))" by (simp add: count_list_zero_iff)
  show ?thesis
    using assms True mem unfolding edgeCountsAgree_def
    by (auto simp: removeDependency_dependents removeDependency_dependencies
          splice1_indexOf count_list_remove1_if)
qed





lemma closed_nth:
  "heapClosed h \<longleftrightarrow> (\<forall>i < length h. (\<forall>r \<in> set (dependents (h ! i)). r < length h) \<and>
      (\<forall>r \<in> set (dependencies (h ! i)). r < length h))"
proof
  assume "heapClosed h"
  then show "\<forall>i < length h. (\<forall>r \<in> set (dependents (h ! i)). r < length h) \<and>
      (\<forall>r \<in> set (dependencies (h ! i)). r < length h)"
    unfolding heapClosed_def using nth_mem by blast
next
  assume r: "\<forall>i < length h. (\<forall>r \<in> set (dependents (h ! i)). r < length h) \<and>
      (\<forall>r \<in> set (dependencies (h ! i)). r < length h)"
  show "heapClosed h"
    unfolding heapClosed_def
  proof (intro ballI)
    fix n r assume "n \<in> set h" "r \<in> set (dependents n) \<union> set (dependencies n)"
    then obtain i where "i < length h" "h ! i = n" by (auto simp: in_set_conv_nth)
    with r \<open>r \<in> set (dependents n) \<union> set (dependencies n)\<close> show "r < length h" by blast
  qed
qed


lemma closedD1: "heapClosed h \<Longrightarrow> i < length h \<Longrightarrow> r \<in> set (dependents (h ! i)) \<Longrightarrow> r < length h"
  unfolding closed_nth by blast


lemma closedD2: "heapClosed h \<Longrightarrow> i < length h \<Longrightarrow> r \<in> set (dependencies (h ! i)) \<Longrightarrow> r < length h"
  unfolding closed_nth by blast


lemma closedI:
  assumes "\<And>i r. i < length h \<Longrightarrow> r \<in> set (dependents (h ! i)) \<Longrightarrow> r < length h"
    and "\<And>i r. i < length h \<Longrightarrow> r \<in> set (dependencies (h ! i)) \<Longrightarrow> r < length h"
  shows "heapClosed h"
  unfolding closed_nth using assms by blast


lemma closed_addDependency:
  assumes "heapClosed h" "this < length h" "n < length h"
  shows "heapClosed (addDependency this n h)"
proof (rule closedI)
  fix i r assume i: "i < length (addDependency this n h)"
    and r: "r \<in> set (dependents (addDependency this n h ! i))"
  from i have i': "i < length h" by simp
  from r have "r = this \<or> r \<in> set (dependents (h ! i))"
    using assms i' by (auto simp: addDependency_dependents split: if_splits)
  then show "r < length (addDependency this n h)"
    using assms i' closedD1[of h i r] by auto
next
  fix i r assume i: "i < length (addDependency this n h)"
    and r: "r \<in> set (dependencies (addDependency this n h ! i))"
  from i have i': "i < length h" by simp
  from r have "r = n \<or> r \<in> set (dependencies (h ! i))"
    using assms i' by (auto simp: addDependency_dependencies split: if_splits)
  then show "r < length (addDependency this n h)"
    using assms i' closedD2[of h i r] by auto
qed


lemma set_splice1_subset: "set (splice1 xs i) \<subseteq> set xs"
  unfolding splice1_def Let_def
  by (auto dest: in_set_takeD in_set_dropD)


lemma closed_removeDependency:
  assumes "heapClosed h" "this < length h" "n < length h"
  shows "heapClosed (removeDependency this n h)"
proof (rule closedI)
  fix i r assume i: "i < length (removeDependency this n h)"
    and r: "r \<in> set (dependents (removeDependency this n h ! i))"
  from i have i': "i < length h" by simp
  from r have "r \<in> set (dependents (h ! i))"
    using assms i' set_splice1_subset[of "dependents (h ! n)"]
    by (auto simp: removeDependency_dependents split: if_splits)
  then show "r < length (removeDependency this n h)"
    using assms i' closedD1[of h i r] by auto
next
  fix i r assume i: "i < length (removeDependency this n h)"
    and r: "r \<in> set (dependencies (removeDependency this n h ! i))"
  from i have i': "i < length h" by simp
  from r have "r \<in> set (dependencies (h ! i))"
    using assms i' set_remove1_subset[of n "dependencies (h ! this)"]
    by (auto simp: removeDependency_dependencies split: if_splits)
  then show "r < length (removeDependency this n h)"
    using assms i' closedD2[of h i r] by auto
qed


lemma removeAll_fold_invariant:
  "heapClosed h \<Longrightarrow> edgeCountsAgree h \<Longrightarrow> this < length h \<Longrightarrow> \<forall>n \<in> set ns. n < length h \<Longrightarrow>
   heapClosed (fold (\<lambda>n h'. removeDependency this n h') ns h) \<and>
   edgeCountsAgree (fold (\<lambda>n h'. removeDependency this n h') ns h)"
proof (induction ns arbitrary: h)
  case Nil
  then show ?case by simp
next
  case (Cons n ns)
  have "heapClosed (removeDependency this n h)" "edgeCountsAgree (removeDependency this n h)"
    using Cons.prems by (simp_all add: closed_removeDependency edgeCountsAgree_removeDependency)
  then show ?case using Cons.IH[of "removeDependency this n h"] Cons.prems by simp
qed

lemma edgeCountsAgree_symmetric: "edgeCountsAgree h \<Longrightarrow> symmetricEdges h"
  unfolding edgeCountsAgree_def symmetricEdges_def
  by (metis count_list_zero_iff)

text \<open>
  Symmetry of the edge lists as sets is not enough to keep itself: when B lists its
  dependent A twice, \<open>removeDependency\<close> removes one of the two entries and A's only
  entry for B. The property that every operation keeps is the agreement of the counts.
\<close>

lemma symmetry_lost_with_duplicate:
  "symmetricEdges duplicateEdgeHeap \<and>
   \<not> symmetricEdges (removeDependency 0 1 duplicateEdgeHeap)"
  by (simp add: symmetricEdges_def duplicateEdgeHeap_def removeDependency_def splice1_def
      All_less_Suc Ex_less_Suc)

lemma edge_counts_preserved:
  assumes "heapClosed h" and "edgeCountsAgree h" and "this < length h" and "n < length h"
  shows "edgeCountsAgree (addDependency this n h) \<and> symmetricEdges (addDependency this n h) \<and>
         edgeCountsAgree (addDependent this n h) \<and> symmetricEdges (addDependent this n h) \<and>
         edgeCountsAgree (removeDependency this n h) \<and> symmetricEdges (removeDependency this n h) \<and>
         edgeCountsAgree (removeDependent this n h) \<and> symmetricEdges (removeDependent this n h) \<and>
         edgeCountsAgree (removeAllDependencies this h) \<and>
         symmetricEdges (removeAllDependencies this h) \<and>
         (n \<in> set (dependencies (h ! this)) \<longrightarrow> addDependency this n h = h) \<and>
         (n \<notin> set (dependencies (h ! this)) \<longrightarrow> removeDependency this n h = h)"
proof -
  have a: "edgeCountsAgree (addDependency this n h)"
    using assms by (simp add: edgeCountsAgree_addDependency)
  have b: "edgeCountsAgree (addDependent this n h)"
    using assms by (simp add: addDependent_def edgeCountsAgree_addDependency)
  have c: "edgeCountsAgree (removeDependency this n h)"
    using assms by (simp add: edgeCountsAgree_removeDependency)
  have d: "edgeCountsAgree (removeDependent this n h)"
    using assms by (simp add: removeDependent_def edgeCountsAgree_removeDependency)
  have "\<forall>m \<in> set (dependencies (h ! this)). m < length h"
    using assms(1,3) closedD2 by blast
  then have e: "edgeCountsAgree (removeAllDependencies this h)"
    using assms removeAll_fold_invariant[of h this "dependencies (h ! this)"]
    by (simp add: removeAllDependencies_def)
  have f: "n \<in> set (dependencies (h ! this)) \<longrightarrow> addDependency this n h = h"
    by (simp add: addDependency_def)
  have g: "n \<notin> set (dependencies (h ! this)) \<longrightarrow> removeDependency this n h = h"
    by (simp add: removeDependency_def)
  show ?thesis
    using a b c d e f g edgeCountsAgree_symmetric by blast
qed

section \<open>Cycle detection\<close>

lemma take_path_subset:
  "set p \<subseteq> S \<Longrightarrow> set (case d of None \<Rightarrow> p | Some k \<Rightarrow> take k p) \<subseteq> S"
  by (auto split: option.splits dest: in_set_takeD)

lemma nth_notin_take: "distinct rs \<Longrightarrow> j < length rs \<Longrightarrow> rs ! j \<notin> set (take j rs)"
  by (metis distinct_take id_take_nth_drop not_distinct_conv_prefix distinct_append
       disjoint_iff list.set_intros(1))

lemma nth_notin_drop: "distinct rs \<Longrightarrow> j < length rs \<Longrightarrow> rs ! j \<notin> set (drop (Suc j) rs)"
  by (metis Cons_nth_drop_Suc distinct.simps(2) distinct_drop)

lemma chain_dependents_loop:
  "isChain h rs \<Longrightarrow> j < length rs \<Longrightarrow> set p \<subseteq> set (take j rs) \<Longrightarrow> visited \<subseteq> set (take j rs) \<Longrightarrow>
   hasCycle_loop h Dependents visited p [rs ! j] dA = Some False"
proof (induction "length rs - j" arbitrary: j p visited dA)
  case 0
  then show ?case by simp
next
  case (Suc m)
  let ?p1 = "case dA (rs ! j) of None \<Rightarrow> p | Some k \<Rightarrow> take k p"
  have d: "distinct rs" using Suc.prems(1) by (simp add: isChain_def)
  have p1: "set ?p1 \<subseteq> set (take j rs)" using Suc.prems(3) by (rule take_path_subset)
  have nin: "rs ! j \<notin> set p" "rs ! j \<notin> visited"
    using Suc.prems nth_notin_take[OF d Suc.prems(2)] by auto
  have deps: "dependents (h ! (rs ! j)) = (if Suc j < length rs then [rs ! Suc j] else [])"
    using Suc.prems(1,2) by (simp add: isChain_def)
  have tk: "set (take (Suc j) rs) = insert (rs ! j) (set (take j rs))"
    using Suc.prems(2) by (simp add: take_Suc_conv_app_nth)
  show ?case
  proof (cases "Suc j < length rs")
    case True
    have rec: "hasCycle_loop h Dependents (insert (rs ! j) visited) (?p1 @ [rs ! j]) [rs ! Suc j]
        (dA(rs ! Suc j \<mapsto> Suc (length ?p1))) = Some False"
    proof (rule Suc.hyps(1))
      show "m = length rs - Suc j" using Suc.hyps(2) by simp
      show "isChain h rs" by (rule Suc.prems(1))
      show "Suc j < length rs" by (rule True)
      show "set (?p1 @ [rs ! j]) \<subseteq> set (take (Suc j) rs)" using p1 tk by auto
      show "insert (rs ! j) visited \<subseteq> set (take (Suc j) rs)" using Suc.prems(4) tk by auto
    qed
    show ?thesis
      by (subst hasCycle_loop.simps) (simp add: nin deps True rec Let_def)
  next
    case False
    have fin: "hasCycle_loop h Dependents (insert (rs ! j) visited) (?p1 @ [rs ! j]) [] dA = Some False"
      by (subst hasCycle_loop.simps) simp
    show ?thesis
      by (subst hasCycle_loop.simps) (simp add: nin deps False fin Let_def)
  qed
qed

lemma chain_dependencies_loop:
  "isChain h rs \<Longrightarrow> j < length rs \<Longrightarrow> set p \<subseteq> set (drop (Suc j) rs) \<Longrightarrow>
   visited \<subseteq> set (drop (Suc j) rs) \<Longrightarrow>
   hasCycle_loop h Dependencies visited p [rs ! j] dA = Some False"
proof (induction j arbitrary: p visited dA)
  case 0
  let ?p1 = "case dA (rs ! 0) of None \<Rightarrow> p | Some k \<Rightarrow> take k p"
  have d: "distinct rs" using 0(1) by (simp add: isChain_def)
  have nin: "rs ! 0 \<notin> set p" "rs ! 0 \<notin> visited"
    using 0 nth_notin_drop[OF d 0(2)] by auto
  have deps: "dependencies (h ! (rs ! 0)) = []"
    using 0(1,2) by (simp add: isChain_def)
  have fin: "hasCycle_loop h Dependencies (insert (rs ! 0) visited) (?p1 @ [rs ! 0]) [] dA = Some False"
    by (subst hasCycle_loop.simps) simp
  show ?case
    by (subst hasCycle_loop.simps) (simp add: nin deps fin Let_def)
next
  case (Suc j)
  let ?p1 = "case dA (rs ! Suc j) of None \<Rightarrow> p | Some k \<Rightarrow> take k p"
  have d: "distinct rs" using Suc.prems(1) by (simp add: isChain_def)
  have p1: "set ?p1 \<subseteq> set (drop (Suc (Suc j)) rs)" using Suc.prems(3) by (rule take_path_subset)
  have nin: "rs ! Suc j \<notin> set p" "rs ! Suc j \<notin> visited"
    using Suc.prems nth_notin_drop[OF d Suc.prems(2)] by auto
  have deps: "dependencies (h ! (rs ! Suc j)) = [rs ! j]"
    using Suc.prems(1,2) by (simp add: isChain_def)
  have dr: "set (drop (Suc j) rs) = insert (rs ! Suc j) (set (drop (Suc (Suc j)) rs))"
    using Suc.prems(2) by (metis Cons_nth_drop_Suc list.simps(15))
  have rec: "hasCycle_loop h Dependencies (insert (rs ! Suc j) visited) (?p1 @ [rs ! Suc j]) [rs ! j]
        (dA(rs ! j \<mapsto> Suc (length ?p1))) = Some False"
  proof (rule Suc.IH)
    show "isChain h rs" by (rule Suc.prems(1))
    show "j < length rs" using Suc.prems(2) by simp
    show "set (?p1 @ [rs ! Suc j]) \<subseteq> set (drop (Suc j) rs)" using p1 dr by auto
    show "insert (rs ! Suc j) visited \<subseteq> set (drop (Suc j) rs)" using Suc.prems(4) dr by auto
  qed
  show ?case
    by (subst hasCycle_loop.simps) (simp add: nin deps rec Let_def)
qed

lemma hasCycle_chain: "isChain h rs \<Longrightarrow> k < length rs \<Longrightarrow> hasCycle h (rs ! k) d = Some False"
  by (cases d) (simp_all add: hasCycle_def chain_dependents_loop chain_dependencies_loop)

lemma hasCycle_isolated: "isIsolated h a \<Longrightarrow> hasCycle h a d = Some False"
  by (cases d) (simp_all add: hasCycle_def hasCycle_loop.simps isIsolated_def Let_def)

lemma hasCycle_mutual: "isMutualPair h a b \<Longrightarrow> hasCycle h a d = Some True"
  by (cases d) (simp_all add: hasCycle_def hasCycle_loop.simps isMutualPair_def Let_def)

text \<open>
  C8. \<open>hasCycle\<close> returns true for two nodes that depend on each other, false from
  every node of every linear chain, and false for a node without edges, for each of the
  three directions.
\<close>

theorem C8_hasCycle_pair_chain_isolated:
  "(\<forall>h a b. isMutualPair h a b \<longrightarrow> hasCycle h a d = Some True) \<and>
   (\<forall>h rs k. isChain h rs \<and> k < length rs \<longrightarrow> hasCycle h (rs ! k) d = Some False) \<and>
   (\<forall>h a. isIsolated h a \<longrightarrow> hasCycle h a d = Some False)"
  using hasCycle_mutual hasCycle_chain hasCycle_isolated by blast

theorem C8_hasCycle_pair_chain_isolated_witness:
  "isMutualPair mutualPair 0 1 \<and> hasCycle mutualPair 0 Both = Some True \<and>
   isChain chainABCX [0, 1, 2, 3] \<and> hasCycle chainABCX 2 Both = Some False \<and>
   hasCycle chainABCX 0 Dependents = Some False \<and>
   hasCycle chainABCX 3 Dependencies = Some False \<and>
   isIsolated isolatedNode 0 \<and> hasCycle isolatedNode 0 Both = Some False"
proof -
  have m: "isMutualPair mutualPair 0 1"
    by (simp add: isMutualPair_def mutualPair_def)
  have c: "isChain chainABCX [0, 1, 2, 3]"
    by (simp add: isChain_def chainABCX_def All_less_Suc)
  have i: "isIsolated isolatedNode 0"
    by (simp add: isIsolated_def isolatedNode_def BaseNode_def)
  have k: "[0, 1, 2, 3] ! 2 = (2::nat)" "[0, 1, 2, 3] ! 0 = (0::nat)" "[0, 1, 2, 3] ! 3 = (3::nat)"
    by simp_all
  have "hasCycle mutualPair 0 Both = Some True"
    using C8_hasCycle_pair_chain_isolated[of Both] m by blast
  moreover have "isChain chainABCX [0, 1, 2, 3] \<and> 2 < length [0, 1, 2, 3::nat] \<longrightarrow>
      hasCycle chainABCX ([0, 1, 2, 3] ! 2) Both = Some False"
    using C8_hasCycle_pair_chain_isolated[of Both] by blast
  moreover have "isChain chainABCX [0, 1, 2, 3] \<and> 0 < length [0, 1, 2, 3::nat] \<longrightarrow>
      hasCycle chainABCX ([0, 1, 2, 3] ! 0) Dependents = Some False"
    using C8_hasCycle_pair_chain_isolated[of Dependents] by blast
  moreover have "isChain chainABCX [0, 1, 2, 3] \<and> 3 < length [0, 1, 2, 3::nat] \<longrightarrow>
      hasCycle chainABCX ([0, 1, 2, 3] ! 3) Dependencies = Some False"
    using C8_hasCycle_pair_chain_isolated[of Dependencies] by blast
  moreover have "hasCycle isolatedNode 0 Both = Some False"
    using C8_hasCycle_pair_chain_isolated[of Both] i by blast
  ultimately show ?thesis using m c i k by simp
qed

section \<open>Breadth-first traversal\<close>

lemma enqueue_eq:
  "enqueue h p ns (visited, queue) =
     (visited \<union> (\<lambda>m. nid (h ! m)) ` set ns, queue @ map (\<lambda>m. m # p) (freshNodes h ns visited))"
  by (induction ns arbitrary: visited queue) auto

lemma freshNodes_subset: "set (freshNodes h ns visited) \<subseteq> set ns"
  by (induction ns arbitrary: visited) auto

lemma freshNodes_unvisited: "m \<in> set (freshNodes h ns visited) \<Longrightarrow> nid (h ! m) \<notin> visited"
  by (induction ns arbitrary: visited) (auto split: if_splits)

lemma freshNodes_distinct: "distinct (map (\<lambda>m. nid (h ! m)) (freshNodes h ns visited))"
proof (induction ns arbitrary: visited)
  case Nil
  then show ?case by simp
next
  case (Cons m ms)
  show ?case
    using Cons.IH by (auto dest: freshNodes_unvisited)
qed

lemma freshNodes_ids:
  "(\<lambda>m. nid (h ! m)) ` set (freshNodes h ns visited) = (\<lambda>m. nid (h ! m)) ` set ns - visited"
proof (induction ns arbitrary: visited)
  case Nil
  then show ?case by simp
next
  case (Cons m ms)
  show ?case
  proof (cases "nid (h ! m) \<in> visited")
    case True
    then show ?thesis using Cons.IH[of visited] by auto
  next
    case False
    then show ?thesis using Cons.IH[of "insert (nid (h ! m)) visited"] by auto
  qed
qed


lemma bfsRun_exists:
  assumes nx: "\<forall>n < length h. \<forall>m \<in> set (g h n). m < length h"
  shows "\<forall>p \<in> set queue. p \<noteq> [] \<and> hd p < length h \<Longrightarrow> \<exists>ps. bfsRun h g visited queue ps"
proof (induction "card ((\<lambda>n. nid (h ! n)) ` {..<length h} - visited) + length queue"
    arbitrary: visited queue rule: less_induct)
  case less
  show ?case
  proof (cases queue)
    case Nil
    then show ?thesis using bfsDone by blast
  next
    case (Cons p rest)
    with less.prems obtain n t where p: "p = n # t" and n: "n < length h"
      by (cases p) auto
    let ?I = "\<lambda>m. nid (h ! m)"
    let ?ids = "?I ` {..<length h}"
    let ?fresh = "freshNodes h (g h n) visited"
    let ?vis' = "visited \<union> ?I ` set (g h n)"
    let ?q' = "rest @ map (\<lambda>m. m # n # t) ?fresh"
    have enq: "enqueue h (n # t) (g h n) (visited, rest) = (?vis', ?q')"
      by (rule enqueue_eq)
    have fresh_lt: "\<forall>m \<in> set ?fresh. m < length h"
      using nx n freshNodes_subset[of h "g h n" visited] by blast
    have sub: "(?ids - ?vis') \<union> ?I ` set ?fresh \<subseteq> ?ids - visited"
      using fresh_lt freshNodes_unvisited[of _ h "g h n" visited] by auto
    have disj: "(?ids - ?vis') \<inter> ?I ` set ?fresh = {}"
      using freshNodes_subset[of h "g h n" visited] by auto
    have "card (?ids - ?vis') + card (?I ` set ?fresh) = card ((?ids - ?vis') \<union> ?I ` set ?fresh)"
      using disj by (simp add: card_Un_disjoint)
    also have "\<dots> \<le> card (?ids - visited)"
      using sub by (simp add: card_mono)
    finally have c1: "card (?ids - ?vis') + card (?I ` set ?fresh) \<le> card (?ids - visited)" .
    have "card (?I ` set ?fresh) = length ?fresh"
      using freshNodes_distinct[of h "g h n" visited]
      by (metis distinct_card length_map list.set_map)
    with c1 have "card (?ids - ?vis') + length ?q' < card (?ids - visited) + length queue"
      using Cons by simp
    moreover have "\<forall>p \<in> set ?q'. p \<noteq> [] \<and> hd p < length h"
      using less.prems Cons fresh_lt by auto
    ultimately obtain ps where "bfsRun h g ?vis' ?q' ps"
      using less.hyps[of ?vis' ?q'] by blast
    then have "bfsRun h g visited ((n # t) # rest) ((n # t) # ps)"
      using enq bfsStep by blast
    then show ?thesis using Cons p by blast
  qed
qed

lemma bfsRun_readOnly:
  "bfsRun h g visited queue ps \<Longrightarrow>
   traverse_loop (readOnlyCallback f) g visited queue (h, x) =
     Some (Inr (h, fold (\<lambda>p. f (hd p) p) ps x))"
proof (induction arbitrary: x rule: bfsRun.induct)
  case (bfsDone visited)
  show ?case by (subst traverse_loop.simps) simp
next
  case (bfsStep n t visited rest visited' queue' ps)
  show ?case
    by (subst traverse_loop.simps) (simp add: readOnlyCallback_def bfsStep.hyps(1) bfsStep.IH)
qed

lemma validPath_nonempty: "validPath nx start p \<Longrightarrow> p \<noteq> []"
  by (cases p) auto

lemma validPath_length: "validPath nx start p \<Longrightarrow> 0 < length p"
  by (cases p) auto

lemma bfsInv_valid:
  "bfsInv h nx start visited queue calls \<Longrightarrow> p \<in> set calls \<union> set queue \<Longrightarrow> validPath nx start p"
  unfolding bfsInv_def by simp

lemma bfsInv_start:
  "bfsInv h nx start visited queue calls \<Longrightarrow> [start] \<in> set calls \<union> set queue"
  unfolding bfsInv_def by simp

lemma bfsInv_visited:
  "bfsInv h nx start visited queue calls \<Longrightarrow>
   visited = (\<lambda>p. nid (h ! hd p)) ` (set calls \<union> set queue)"
  unfolding bfsInv_def by simp

lemma bfsInv_distinct:
  "bfsInv h nx start visited queue calls \<Longrightarrow> distinct (map (\<lambda>p. nid (h ! hd p)) (calls @ queue))"
  unfolding bfsInv_def by simp

lemma bfsInv_sorted:
  "bfsInv h nx start visited queue calls \<Longrightarrow> sorted (map length (calls @ queue))"
  unfolding bfsInv_def by simp

lemma bfsInv_bound:
  "bfsInv h nx start visited queue calls \<Longrightarrow> p \<in> set calls \<union> set queue \<Longrightarrow> queue \<noteq> [] \<Longrightarrow>
   length p \<le> Suc (length (hd queue))"
  unfolding bfsInv_def by simp

lemma bfsInv_closed:
  "bfsInv h nx start visited queue calls \<Longrightarrow> p \<in> set calls \<Longrightarrow> m \<in> set (nx (hd p)) \<Longrightarrow>
   nid (h ! m) \<in> visited"
  unfolding bfsInv_def by blast

lemma bfsInv_shortest:
  "bfsInv h nx start visited queue calls \<Longrightarrow> p \<in> set calls \<union> set queue \<Longrightarrow>
   validPath nx start q \<Longrightarrow> hd q = hd p \<Longrightarrow> length p \<le> length q"
  unfolding bfsInv_def by simp

lemma bfsInvI:
  assumes "\<And>p. p \<in> set calls \<union> set queue \<Longrightarrow> validPath nx start p"
    and "[start] \<in> set calls \<union> set queue"
    and "visited = (\<lambda>p. nid (h ! hd p)) ` (set calls \<union> set queue)"
    and "distinct (map (\<lambda>p. nid (h ! hd p)) (calls @ queue))"
    and "sorted (map length (calls @ queue))"
    and "\<And>p. p \<in> set calls \<union> set queue \<Longrightarrow> queue \<noteq> [] \<Longrightarrow> length p \<le> Suc (length (hd queue))"
    and "\<And>p m. p \<in> set calls \<Longrightarrow> m \<in> set (nx (hd p)) \<Longrightarrow> nid (h ! m) \<in> visited"
    and "\<And>p q. p \<in> set calls \<union> set queue \<Longrightarrow> validPath nx start q \<Longrightarrow> hd q = hd p \<Longrightarrow>
           length p \<le> length q"
  shows "bfsInv h nx start visited queue calls"
  unfolding bfsInv_def using assms by (simp add: ball_Un)

lemma bfsInv_init: "bfsInv h nx start {nid (h ! start)} [[start]] []"
proof (rule bfsInvI)
  fix p q assume "p \<in> set [] \<union> set [[start]]" "validPath nx start q"
  then show "length p \<le> length q" by (cases q) auto
qed auto

lemma sorted_queue_hd:
  assumes "sorted (map length (calls @ queue))" "r \<in> set queue"
  shows "length (hd queue) \<le> length r"
proof -
  from assms(1) have s: "sorted (map length queue)" by (simp add: sorted_append)
  from assms(2) obtain x xs where q: "queue = x # xs" by (cases queue) auto
  with s assms(2) show ?thesis by auto
qed

text \<open>A discovered node with a valid path shorter than the head of the queue was called.\<close>

lemma bfsInv_called:
  assumes inv: "bfsInv h nx start visited queue calls"
    and r: "r \<in> set calls \<union> set queue" and q: "validPath nx start q" and hd: "hd q = hd r"
    and lvl: "queue = [] \<or> length q < length (hd queue)"
  shows "r \<in> set calls"
proof (rule ccontr)
  assume "r \<notin> set calls"
  with r have rq: "r \<in> set queue" by simp
  then have ne: "queue \<noteq> []" by auto
  have "length (hd queue) \<le> length r"
    using bfsInv_sorted[OF inv] rq by (rule sorted_queue_hd)
  moreover have "length r \<le> length q" using bfsInv_shortest[OF inv r q hd] .
  ultimately show False using lvl ne by simp
qed

lemma bfs_levels:
  assumes inv: "bfsInv h nx start visited queue calls" and uniq: "uniqueIds h nx start"
  shows "validPath nx start q \<Longrightarrow> queue = [] \<or> length q < length (hd queue) \<Longrightarrow>
         \<exists>p \<in> set calls. hd p = hd q"
proof (induction "length q" arbitrary: q rule: less_induct)
  case less
  note q = less.prems(1) and lvl = less.prems(2)
  show ?case
  proof (cases q)
    case Nil
    with q show ?thesis by simp
  next
    case (Cons m q')
    show ?thesis
    proof (cases q')
      case Nil
      with Cons q have m: "m = start" by simp
      have "[start] \<in> set calls"
        using bfsInv_called[OF inv bfsInv_start[OF inv] q _ lvl] Cons m by simp
      then show ?thesis using Cons m by force
    next
      case (Cons n t)
      with \<open>q = m # q'\<close> q have vq': "validPath nx start q'" and mn: "m \<in> set (nx n)" by auto
      have "queue = [] \<or> length q' < length (hd queue)" using lvl \<open>q = m # q'\<close> by auto
      then obtain p' where p': "p' \<in> set calls" "hd p' = hd q'"
        using less.hyps[of q'] vq' \<open>q = m # q'\<close> by auto
      with Cons have "hd p' = n" by simp
      with p' mn have "nid (h ! m) \<in> visited" using bfsInv_closed[OF inv p'(1)] by simp
      then have "nid (h ! m) \<in> (\<lambda>p. nid (h ! hd p)) ` (set calls \<union> set queue)"
        using bfsInv_visited[OF inv] by simp
      then obtain r where r: "r \<in> set calls \<union> set queue" "nid (h ! hd r) = nid (h ! m)"
        by (metis (no_types, lifting) imageE)
      have vr: "validPath nx start r" using bfsInv_valid[OF inv r(1)] .
      have "hd r = hd q"
        using uniq vr q r(2) \<open>q = m # q'\<close> unfolding uniqueIds_def by (metis list.sel(1))
      then have "r \<in> set calls"
        using bfsInv_called[OF inv r(1) q _ lvl] by simp
      then show ?thesis using \<open>hd r = hd q\<close> by blast
    qed
  qed
qed

lemma sorted_const: "\<forall>x \<in> set xs. x = c \<Longrightarrow> sorted xs"
  by (induction xs) auto

lemma bfsInv_new_shortest:
  assumes inv: "bfsInv h nx start visited ((n # t) # rest) calls" and uniq: "uniqueIds h nx start"
    and m: "nid (h ! m) \<notin> visited" and q: "validPath nx start q" and hq: "hd q = m"
  shows "Suc (Suc (length t)) \<le> length q"
proof (rule ccontr)
  assume "\<not> Suc (Suc (length t)) \<le> length q"
  then have short: "length q \<le> Suc (length t)" by simp
  show False
  proof (cases q)
    case Nil
    with q show False by simp
  next
    case (Cons x q')
    with hq have x: "x = m" by simp
    show False
    proof (cases q')
      case Nil
      with Cons q x have "m = start" by simp
      moreover have "nid (h ! hd [start]) \<in> visited"
        using bfsInv_start[OF inv] unfolding bfsInv_visited[OF inv] by (rule imageI)
      ultimately show False using m by simp
    next
      case (Cons n' t')
      with \<open>q = x # q'\<close> q x have vq': "validPath nx start q'" and mn: "m \<in> set (nx n')" by auto
      have "length q' < length (hd ((n # t) # rest))" using short \<open>q = x # q'\<close> by simp
      then obtain p' where p': "p' \<in> set calls" "hd p' = hd q'"
        using bfs_levels[OF inv uniq vq'] by blast
      with Cons have "hd p' = n'" by simp
      then have "nid (h ! m) \<in> visited" using bfsInv_closed[OF inv p'(1)] mn by simp
      then show False using m by simp
    qed
  qed
qed

lemma bfsInv_step:
  assumes inv: "bfsInv h nx start visited ((n # t) # rest) calls" and uniq: "uniqueIds h nx start"
  shows "bfsInv h nx start (visited \<union> (\<lambda>m. nid (h ! m)) ` set (nx n))
           (rest @ map (\<lambda>m. m # n # t) (freshNodes h (nx n) visited)) (calls @ [n # t])"
proof (rule bfsInvI)
  let ?fresh = "freshNodes h (nx n) visited"
  let ?new = "map (\<lambda>m. m # n # t) ?fresh"
  let ?old = "set calls \<union> set ((n # t) # rest)"
  let ?all' = "set (calls @ [n # t]) \<union> set (rest @ ?new)"
  have all': "?all' = ?old \<union> set ?new" by auto
  have newD: "\<exists>m. p = m # n # t \<and> m \<in> set (nx n) \<and> nid (h ! m) \<notin> visited" if "p \<in> set ?new" for p
    using that freshNodes_subset[of h "nx n" visited] freshNodes_unvisited[of _ h "nx n" visited]
    by auto
  have vnt: "validPath nx start (n # t)" using bfsInv_valid[OF inv] by simp
  have len_old: "length p \<le> Suc (Suc (length t))" if "p \<in> ?old" for p
    using bfsInv_bound[OF inv that] by simp
  have len_all: "length p \<le> Suc (Suc (length t))" if "p \<in> ?all'" for p
    using that len_old newD unfolding all' by fastforce
  have hd_le: "Suc (length t) \<le> length r" if "r \<in> set (rest @ ?new)" for r
  proof (cases "r \<in> set rest")
    case True
    then have "r \<in> set ((n # t) # rest)" by simp
    then have "length (hd ((n # t) # rest)) \<le> length r"
      using bfsInv_sorted[OF inv] sorted_queue_hd by blast
    then show ?thesis by simp
  next
    case False
    with that have "r \<in> set ?new" by simp
    then show ?thesis using newD by fastforce
  qed

  show "validPath nx start p" if "p \<in> ?all'" for p
  proof (cases "p \<in> ?old")
    case True
    then show ?thesis using bfsInv_valid[OF inv] by blast
  next
    case False
    with that all' have "p \<in> set ?new" by blast
    then show ?thesis using newD vnt by fastforce
  qed

  show "[start] \<in> ?all'" using bfsInv_start[OF inv] unfolding all' by blast

  have ids_new: "(\<lambda>p. nid (h ! hd p)) ` set ?new = (\<lambda>m. nid (h ! m)) ` set (nx n) - visited"
    using freshNodes_ids[of h "nx n" visited] by (simp add: image_image)
  show "visited \<union> (\<lambda>m. nid (h ! m)) ` set (nx n) = (\<lambda>p. nid (h ! hd p)) ` ?all'"
    unfolding all' image_Un ids_new using bfsInv_visited[OF inv] by blast

  have dist_new: "distinct (map (\<lambda>p. nid (h ! hd p)) ?new)"
    using freshNodes_distinct[of h "nx n" visited] by (simp add: comp_def)
  have disj: "(\<lambda>p. nid (h ! hd p)) ` ?old \<inter> (\<lambda>p. nid (h ! hd p)) ` set ?new = {}"
    unfolding ids_new using bfsInv_visited[OF inv] by blast
  have so: "set (calls @ (n # t) # rest) = ?old" by simp
  have eq: "(calls @ [n # t]) @ rest @ ?new = (calls @ (n # t) # rest) @ ?new" by simp
  have disj': "set (map (\<lambda>p. nid (h ! hd p)) (calls @ (n # t) # rest)) \<inter>
      set (map (\<lambda>p. nid (h ! hd p)) ?new) = {}"
    using disj unfolding set_map so .
  have "distinct (map (\<lambda>p. nid (h ! hd p)) (calls @ (n # t) # rest) @
      map (\<lambda>p. nid (h ! hd p)) ?new)"
    by (rule iffD2[OF distinct_append]) (intro conjI bfsInv_distinct[OF inv] dist_new disj')
  then show "distinct (map (\<lambda>p. nid (h ! hd p)) ((calls @ [n # t]) @ rest @ ?new))"
    unfolding eq map_append .

  have s_new: "sorted (map length ?new)"
    by (rule sorted_const[where c = "Suc (Suc (length t))"]) auto
  have le: "\<forall>a \<in> set (map length (calls @ (n # t) # rest)). \<forall>b \<in> set (map length ?new). a \<le> b"
    using len_old by auto
  have "sorted (map length (calls @ (n # t) # rest) @ map length ?new)"
    by (rule iffD2[OF sorted_append]) (intro conjI bfsInv_sorted[OF inv] s_new le)
  then show "sorted (map length ((calls @ [n # t]) @ rest @ ?new))"
    unfolding eq map_append .

  show "length p \<le> Suc (length (hd (rest @ ?new)))"
    if "p \<in> ?all'" "rest @ ?new \<noteq> []" for p
  proof -
    have "hd (rest @ ?new) \<in> set (rest @ ?new)" using that(2) by (rule hd_in_set)
    then have "Suc (length t) \<le> length (hd (rest @ ?new))" by (rule hd_le)
    with len_all[OF that(1)] show ?thesis by simp
  qed

  show "nid (h ! m) \<in> visited \<union> (\<lambda>m. nid (h ! m)) ` set (nx n)"
    if "p \<in> set (calls @ [n # t])" "m \<in> set (nx (hd p))" for p m
  proof (cases "p \<in> set calls")
    case True
    then show ?thesis using bfsInv_closed[OF inv True that(2)] by simp
  next
    case False
    with that(1) have "p = n # t" by simp
    with that(2) show ?thesis by simp
  qed

  show "length p \<le> length q"
    if "p \<in> ?all'" "validPath nx start q" "hd q = hd p" for p q
  proof (cases "p \<in> ?old")
    case True
    then show ?thesis using bfsInv_shortest[OF inv True that(2,3)] by simp
  next
    case False
    with that(1) all' have "p \<in> set ?new" by blast
    then obtain m where m: "p = m # n # t" "nid (h ! m) \<notin> visited" using newD by blast
    with that(3) have "hd q = m" by simp
    then show ?thesis using bfsInv_new_shortest[OF inv uniq m(2) that(2)] m(1) by simp
  qed
qed

lemma bfsInv_run:
  assumes uniq: "uniqueIds h (g h) start"
  shows "bfsRun h g visited queue ps \<Longrightarrow> bfsInv h (g h) start visited queue calls \<Longrightarrow>
         \<exists>visited'. bfsInv h (g h) start visited' [] (calls @ ps)"
proof (induction arbitrary: calls rule: bfsRun.induct)
  case (bfsDone visited)
  then show ?case by auto
next
  case (bfsStep n t visited rest visited' queue' ps)
  from bfsStep.hyps(1) have v: "visited' = visited \<union> (\<lambda>m. nid (h ! m)) ` set (g h n)"
    and q: "queue' = rest @ map (\<lambda>m. m # n # t) (freshNodes h (g h n) visited)"
    by (simp_all add: enqueue_eq)
  have "bfsInv h (g h) start visited' queue' (calls @ [n # t])"
    unfolding v q using bfsStep.prems uniq by (rule bfsInv_step)
  then show ?case using bfsStep.IH[of "calls @ [n # t]"] by simp
qed

lemma enqueue_cong:
  "\<forall>m \<in> set ns. nid (h1 ! m) = nid (h2 ! m) \<Longrightarrow> enqueue h1 p ns vq = enqueue h2 p ns vq"
proof (induction ns arbitrary: vq)
  case Nil
  show ?case by (cases vq) simp
next
  case (Cons m ms)
  then show ?case by (cases vq) simp
qed

lemma take_nth_eq: "take (length h) h' = h \<Longrightarrow> n < length h \<Longrightarrow> h' ! n = h ! n"
  by (metis nth_take)

lemma traverse_loop_fold:
  assumes step: "\<And>n p s s'. J s \<Longrightarrow> n < length h \<Longrightarrow> callback n p s = Some (Inr s') \<Longrightarrow> J s'"
    and ext: "\<And>s. J s \<Longrightarrow> take (length h) (fst s) = h"
    and loc: "\<And>s n. J s \<Longrightarrow> n < length h \<Longrightarrow> g (fst s) n = g h n"
    and nx: "\<forall>n < length h. \<forall>m \<in> set (g h n). m < length h"
  shows "bfsRun h g visited queue ps \<Longrightarrow> \<forall>p \<in> set queue. hd p < length h \<Longrightarrow> J s \<Longrightarrow>
         traverse_loop callback g visited queue s = foldCallback callback ps s"
proof (induction arbitrary: s rule: bfsRun.induct)
  case (bfsDone visited)
  show ?case by (subst traverse_loop.simps) simp
next
  case (bfsStep n t visited rest visited' queue' ps)
  from bfsStep.prems(1) have n: "n < length h" by simp
  show ?case
  proof (cases "callback n (n # t) s")
    case None
    then show ?thesis by (subst traverse_loop.simps) simp
  next
    case (Some r)
    show ?thesis
    proof (cases r)
      case (Inl e)
      with Some show ?thesis by (subst traverse_loop.simps) simp
    next
      case (Inr s')
      with Some have cb: "callback n (n # t) s = Some (Inr s')" by simp
      have J': "J s'" using step[OF bfsStep.prems(2) n cb] .
      have e: "take (length h) (fst s') = h" using ext[OF J'] .
      have g: "g (fst s') n = g h n" using loc[OF J' n] .
      have "\<forall>m \<in> set (g h n). nid (fst s' ! m) = nid (h ! m)"
        using nx n take_nth_eq[OF e] by simp
      then have enq: "enqueue (fst s') (n # t) (g h n) (visited, rest) = (visited', queue')"
        using enqueue_cong[of "g h n" "fst s'" h "n # t" "(visited, rest)"] bfsStep.hyps(1) by simp
      have "queue' = rest @ map (\<lambda>m. m # n # t) (freshNodes h (g h n) visited)"
        using bfsStep.hyps(1) by (simp add: enqueue_eq)
      then have "\<forall>p \<in> set queue'. hd p < length h"
        using bfsStep.prems(1) nx n freshNodes_subset[of h "g h n" visited] by auto
      then have "traverse_loop callback g visited' queue' s' = foldCallback callback ps s'"
        using bfsStep.IH J' by blast
      then show ?thesis
        by (subst traverse_loop.simps) (simp add: cb g enq)
    qed
  qed
qed

lemma validPath_last: "validPath nx start p \<Longrightarrow> last p = start"
  by (induction nx start p rule: validPath.induct) auto

lemma validPath_hd_bound:
  assumes "\<forall>n < N. \<forall>m \<in> set (nx n). m < N" "start < N"
  shows "validPath nx start p \<Longrightarrow> hd p < N"
  using assms by (induction nx start p rule: validPath.induct) auto

lemma uniqueIds_distinct:
  assumes d: "distinct (map nid h)" and nx: "\<forall>n < length h. \<forall>m \<in> set (nx n). m < length h"
    and s: "start < length h"
  shows "uniqueIds h nx start"
  unfolding uniqueIds_def
proof (intro allI impI)
  fix p q
  assume a: "validPath nx start p \<and> validPath nx start q \<and> nid (h ! hd p) = nid (h ! hd q)"
  then have p: "hd p < length h" and q: "hd q < length h"
    using validPath_hd_bound[OF nx s] by blast+
  from a p q have "map nid h ! hd p = map nid h ! hd q" by simp
  then show "hd p = hd q" using nth_eq_iff_index_eq[OF d, of "hd p" "hd q"] p q by simp
qed

lemma bfs_total:
  assumes s: "start < length h"
    and nx: "\<forall>n < length h. \<forall>m \<in> set (g h n). m < length h"
    and uniq: "uniqueIds h (g h) start"
  shows "\<exists>ps visited'. bfsRun h g {nid (h ! start)} [[start]] ps \<and>
           bfsInv h (g h) start visited' [] ps"
proof -
  have "\<forall>p \<in> set [[start]]. p \<noteq> [] \<and> hd p < length h" using s by simp
  then obtain ps where run: "bfsRun h g {nid (h ! start)} [[start]] ps"
    using bfsRun_exists[of h g "[[start]]" "{nid (h ! start)}"] nx by blast
  then obtain visited' where "bfsInv h (g h) start visited' [] ([] @ ps)"
    using bfsInv_run[OF uniq run bfsInv_init] by blast
  with run show ?thesis by auto
qed

lemma bfsInv_final_nodes:
  assumes inv: "bfsInv h nx start visited [] ps" and uniq: "uniqueIds h nx start"
  shows "set (map hd ps) = {n. \<exists>p. validPath nx start p \<and> hd p = n}"
proof (intro set_eqI iffI)
  fix n assume "n \<in> set (map hd ps)"
  then obtain p where "p \<in> set ps" "hd p = n" by auto
  then show "n \<in> {n. \<exists>p. validPath nx start p \<and> hd p = n}"
    using bfsInv_valid[OF inv, of p] by auto
next
  fix n assume "n \<in> {n. \<exists>p. validPath nx start p \<and> hd p = n}"
  then obtain q where q: "validPath nx start q" "hd q = n" by auto
  then obtain p where p: "p \<in> set ps" "hd p = hd q"
    using bfs_levels[OF inv uniq q(1)] by auto
  from p(1) have "hd p \<in> hd ` set ps" by (rule imageI)
  with p(2) q(2) show "n \<in> set (map hd ps)" by simp
qed

lemma bfsInv_final_distinct:
  assumes inv: "bfsInv h nx start visited [] ps"
  shows "distinct (map hd ps)"
proof -
  have "distinct (map (\<lambda>n. nid (h ! n)) (map hd ps))"
    using bfsInv_distinct[OF inv] by (simp add: comp_def)
  then show ?thesis unfolding distinct_map by blast
qed

lemma closed_getDependents:
  "heapClosed h \<Longrightarrow> \<forall>n < length h. \<forall>m \<in> set (getDependents h n). m < length h"
  unfolding getDependents_def using closedD1 by blast

lemma closed_getDependencies:
  "heapClosed h \<Longrightarrow> \<forall>n < length h. \<forall>m \<in> set (getDependencies h n). m < length h"
  unfolding getDependencies_def using closedD2 by blast

text \<open>
  C7. On a finite graph (every next node is an allocated node) whose reachable nodes have
  pairwise distinct ids, \<open>traverse\<close> calls back exactly once on every node reachable
  from the start through \<open>getNextNodes\<close>, in breadth-first order (path lengths never
  decrease), and each traversal path is a path from the start (at the back) to the node
  (at the front) that no path from the start to that node is shorter than. The list of
  calls is the same for every callback that leaves the graph alone.
\<close>

theorem C7_traverse_breadth_first:
  assumes "start < length h"
    and "\<forall>n < length h. \<forall>m \<in> set (getNextNodes h n). m < length h"
    and "uniqueIds h (getNextNodes h) start"
  shows "\<exists>calls.
     (\<forall>f x. traverse start (readOnlyCallback f) getNextNodes (h, x) =
        Some (Inr (h, fold (\<lambda>(n, p). f n p) calls x))) \<and>
     distinct (map fst calls) \<and>
     set (map fst calls) = {n. \<exists>p. validPath (getNextNodes h) start p \<and> hd p = n} \<and>
     (\<forall>(n, p) \<in> set calls. hd p = n \<and> last p = start \<and> validPath (getNextNodes h) start p \<and>
        (\<forall>q. validPath (getNextNodes h) start q \<and> hd q = n \<longrightarrow> length p \<le> length q)) \<and>
     sorted (map (\<lambda>(n, p). length p) calls)"
proof -
  obtain ps visited' where run: "bfsRun h getNextNodes {nid (h ! start)} [[start]] ps"
    and inv: "bfsInv h (getNextNodes h) start visited' [] ps"
    using bfs_total[of start h getNextNodes] assms by blast
  let ?calls = "map (\<lambda>p. (hd p, p)) ps"
  have 1: "\<forall>f x. traverse start (readOnlyCallback f) getNextNodes (h, x) =
        Some (Inr (h, fold (\<lambda>(n, p). f n p) ?calls x))"
  proof (intro allI)
    fix f :: "ref \<Rightarrow> ref list \<Rightarrow> 'c \<Rightarrow> 'c" and x
    have "fold (\<lambda>(n, p). f n p) ?calls x = fold (\<lambda>p. f (hd p) p) ps x"
      by (simp add: fold_map comp_def)
    then show "traverse start (readOnlyCallback f) getNextNodes (h, x) =
        Some (Inr (h, fold (\<lambda>(n, p). f n p) ?calls x))"
      using bfsRun_readOnly[OF run, of f x] by (simp add: traverse_def)
  qed
  have 2: "distinct (map fst ?calls)"
    using bfsInv_final_distinct[OF inv] by (simp add: comp_def)
  have 3: "set (map fst ?calls) = {n. \<exists>p. validPath (getNextNodes h) start p \<and> hd p = n}"
    using bfsInv_final_nodes[OF inv assms(3)] by (simp add: comp_def)
  have 4: "\<forall>(n, p) \<in> set ?calls. hd p = n \<and> last p = start \<and> validPath (getNextNodes h) start p \<and>
        (\<forall>q. validPath (getNextNodes h) start q \<and> hd q = n \<longrightarrow> length p \<le> length q)"
  proof -
    have "hd p = hd p \<and> last p = start \<and> validPath (getNextNodes h) start p \<and>
        (\<forall>q. validPath (getNextNodes h) start q \<and> hd q = hd p \<longrightarrow> length p \<le> length q)"
      if "p \<in> set ps" for p
      using that bfsInv_valid[OF inv, of p] bfsInv_shortest[OF inv, of p] validPath_last[of "getNextNodes h" start p]
      by auto
    then show ?thesis by auto
  qed
  have 5: "sorted (map (\<lambda>(n, p). length p) ?calls)"
    using bfsInv_sorted[OF inv] by (simp add: comp_def)
  show ?thesis using 1 2 3 4 5 by blast
qed

theorem C7_traverse_breadth_first_witness:
  "0 < length diamond \<and> heapClosed diamond \<and> uniqueIds diamond (getDependents diamond) 0 \<and>
   traverse 0 (readOnlyCallback (\<lambda>n p x. x @ [(n, p)])) getDependents (diamond, []) =
     Some (Inr (diamond, [(0, [0]), (1, [1, 0]), (2, [2, 0]), (3, [3, 1, 0])])) \<and>
   (\<exists>calls.
     (\<forall>f x. traverse 0 (readOnlyCallback f) getDependents (diamond, x) =
        Some (Inr (diamond, fold (\<lambda>(n, p). f n p) calls x))) \<and>
     distinct (map fst calls) \<and>
     set (map fst calls) = {n. \<exists>p. validPath (getDependents diamond) 0 p \<and> hd p = n} \<and>
     (\<forall>(n, p) \<in> set calls. hd p = n \<and> last p = 0 \<and> validPath (getDependents diamond) 0 p \<and>
        (\<forall>q. validPath (getDependents diamond) 0 q \<and> hd q = n \<longrightarrow> length p \<le> length q)) \<and>
     sorted (map (\<lambda>(n, p). length p) calls))"
proof -
  have l: "0 < length diamond" by (simp add: diamond_def)
  have c: "heapClosed diamond" by (simp add: heapClosed_def diamond_def)
  have d: "distinct (map nid diamond)" by (simp add: diamond_def)
  have u: "uniqueIds diamond (getDependents diamond) 0"
    using uniqueIds_distinct[OF d closed_getDependents[OF c] l] .
  have e: "traverse 0 (readOnlyCallback (\<lambda>n p x. x @ [(n, p)])) getDependents (diamond, []) =
     Some (Inr (diamond, [(0, [0]), (1, [1, 0]), (2, [2, 0]), (3, [3, 1, 0])]))"
    by (simp add: traverse_eval readOnlyCallback_def diamond_def)
  show ?thesis
    using l c u e closed_getDependents[OF c]
      C7_traverse_breadth_first[where start = 0 and h = diamond and getNextNodes = getDependents]
    by blast
qed

section \<open>Cloning: the passes and the frame\<close>

inductive_cases bfsRun_NilE: "bfsRun h g visited [] ps"

inductive_cases bfsRun_ConsE: "bfsRun h g visited (p # rest) ps"

lemma bfsRun_deterministic:
  "bfsRun h g visited queue ps \<Longrightarrow> bfsRun h g visited queue ps' \<Longrightarrow> ps = ps'"
proof (induction arbitrary: ps' rule: bfsRun.induct)
  case (bfsDone visited)
  then show ?case by (rule bfsRun_NilE) simp
next
  case (bfsStep n t visited rest visited' queue' ps)
  from bfsStep.prems show ?case
  proof (rule bfsRun_ConsE)
    fix n' t' v' q' ps''
    assume a: "n # t = n' # t'" "ps' = (n' # t') # ps''"
      "enqueue h (n' # t') (g h n') (visited, rest) = (v', q')" "bfsRun h g v' q' ps''"
    with bfsStep.hyps(1) have "v' = visited'" "q' = queue'" by simp_all
    with a(4) have "ps = ps''" using bfsStep.IH by simp
    with a(1,2) show ?thesis by simp
  qed
qed

lemma bfsRun_valid:
  "bfsRun h g visited queue ps \<Longrightarrow> \<forall>p \<in> set queue. validPath (g h) start p \<Longrightarrow>
   \<forall>p \<in> set ps. validPath (g h) start p"
proof (induction rule: bfsRun.induct)
  case (bfsDone visited)
  then show ?case by simp
next
  case (bfsStep n t visited rest visited' queue' ps)
  have q: "queue' = rest @ map (\<lambda>m. m # n # t) (freshNodes h (g h n) visited)"
    using bfsStep.hyps(1) by (simp add: enqueue_eq)
  have "\<forall>p \<in> set queue'. validPath (g h) start p"
    unfolding q using bfsStep.prems freshNodes_subset[of h "g h n" visited] by auto
  then show ?case using bfsStep.IH bfsStep.prems by simp
qed

lemma bfsRun_distinct_ids:
  "bfsRun h g visited queue ps \<Longrightarrow>
   visited = (\<lambda>p. nid (h ! hd p)) ` (set calls \<union> set queue) \<Longrightarrow>
   distinct (map (\<lambda>p. nid (h ! hd p)) (calls @ queue)) \<Longrightarrow>
   distinct (map (\<lambda>p. nid (h ! hd p)) (calls @ ps))"
proof (induction arbitrary: calls rule: bfsRun.induct)
  case (bfsDone visited)
  then show ?case by simp
next
  case (bfsStep n t visited rest visited' queue' ps)
  let ?F = "\<lambda>p. nid (h ! hd p)"
  let ?fresh = "freshNodes h (g h n) visited"
  let ?new = "map (\<lambda>m. m # n # t) ?fresh"
  have v: "visited' = visited \<union> (\<lambda>m. nid (h ! m)) ` set (g h n)"
    and q: "queue' = rest @ ?new"
    using bfsStep.hyps(1) by (simp_all add: enqueue_eq)
  let ?old = "set calls \<union> set ((n # t) # rest)"
  have all': "set (calls @ [n # t]) \<union> set (rest @ ?new) = ?old \<union> set ?new" by auto
  have old: "visited = ?F ` ?old" using bfsStep.prems(1) .
  have ids_new: "?F ` set ?new = (\<lambda>m. nid (h ! m)) ` set (g h n) - visited"
    using freshNodes_ids[of h "g h n" visited] by (simp add: image_image)
  have 1: "visited' = ?F ` (set (calls @ [n # t]) \<union> set queue')"
    unfolding v q all' image_Un ids_new using old by blast
  have dist_new: "distinct (map ?F ?new)"
    using freshNodes_distinct[of h "g h n" visited] by (simp add: comp_def)
  have disj: "?F ` ?old \<inter> ?F ` set ?new = {}"
    unfolding ids_new using old by blast
  have so: "set (calls @ (n # t) # rest) = ?old" by simp
  have eq: "(calls @ [n # t]) @ rest @ ?new = (calls @ (n # t) # rest) @ ?new" by simp
  have disj': "set (map ?F (calls @ (n # t) # rest)) \<inter> set (map ?F ?new) = {}"
    using disj unfolding set_map so .
  have "distinct (map ?F (calls @ (n # t) # rest) @ map ?F ?new)"
    by (rule iffD2[OF distinct_append]) (intro conjI bfsStep.prems(2) dist_new disj')
  then have 2: "distinct (map ?F ((calls @ [n # t]) @ queue'))"
    unfolding q eq map_append .
  show ?case using bfsStep.IH[OF 1 2] by simp
qed

lemma bfsRun_start_distinct_ids:
  assumes "bfsRun h g {nid (h ! start)} [[start]] ps"
  shows "distinct (map (\<lambda>p. nid (h ! hd p)) ps)"
proof -
  have 1: "{nid (h ! start)} = (\<lambda>p. nid (h ! hd p)) ` (set [] \<union> set [[start]])" by simp
  have 2: "distinct (map (\<lambda>p. nid (h ! hd p)) ([] @ [[start]]))" by simp
  have "distinct (map (\<lambda>p. nid (h ! hd p)) ([] @ ps))"
    using assms 1 2 by (rule bfsRun_distinct_ids)
  then show ?thesis by simp
qed

lemma bfsRun_start_valid:
  assumes "bfsRun h g {nid (h ! start)} [[start]] ps"
  shows "\<forall>p \<in> set ps. validPath (g h) start p"
proof -
  have "\<forall>p \<in> set [[start]]. validPath (g h) start p" by simp
  with assms show ?thesis by (rule bfsRun_valid)
qed

lemma bfsRun_heads_bound:
  assumes nx: "\<forall>n < length h. \<forall>m \<in> set (g h n). m < length h"
  shows "bfsRun h g visited queue ps \<Longrightarrow> \<forall>p \<in> set queue. hd p < length h \<Longrightarrow>
         \<forall>p \<in> set ps. hd p < length h"
proof (induction rule: bfsRun.induct)
  case (bfsDone visited)
  then show ?case by simp
next
  case (bfsStep n t visited rest visited' queue' ps)
  have q: "queue' = rest @ map (\<lambda>m. m # n # t) (freshNodes h (g h n) visited)"
    using bfsStep.hyps(1) by (simp add: enqueue_eq)
  have n: "n < length h" using bfsStep.prems by simp
  have "\<forall>p \<in> set queue'. hd p < length h"
    unfolding q using bfsStep.prems nx n freshNodes_subset[of h "g h n" visited] by auto
  then show ?case using bfsStep.IH bfsStep.prems by simp
qed

lemma bfsRun_start:
  assumes nx: "\<forall>n < length h. \<forall>m \<in> set (g h n). m < length h" and s: "start < length h"
  shows "\<exists>ps. bfsRun h g {nid (h ! start)} [[start]] ps \<and> (\<forall>p \<in> set ps. hd p < length h)"
proof -
  have b: "\<forall>p \<in> set [[start]]. p \<noteq> [] \<and> hd p < length h" using s by simp
  then obtain ps where run: "bfsRun h g {nid (h ! start)} [[start]] ps"
    using bfsRun_exists[of h g "[[start]]" "{nid (h ! start)}"] nx by blast
  have "\<forall>p \<in> set ps. hd p < length h"
    using bfsRun_heads_bound[of h g "{nid (h ! start)}" "[[start]]" ps] nx run s by simp
  with run show ?thesis by blast
qed

lemma traverse_fold_same_heap:
  assumes nx: "\<forall>n < length h. \<forall>m \<in> set (g h n). m < length h" and s: "start < length h"
    and run: "bfsRun h g {nid (h ! start)} [[start]] ps"
    and cb: "\<And>n p x s'. callback n p (h, x) = Some (Inr s') \<Longrightarrow> fst s' = h"
  shows "traverse start callback g (h, x) = foldCallback callback ps (h, x)"
proof -
  have "traverse_loop callback g {nid (h ! start)} [[start]] (h, x) = foldCallback callback ps (h, x)"
  proof (rule traverse_loop_fold[where J = "\<lambda>s. fst s = h" and h = h])
    show "fst s' = h" if "fst s = h" "callback n p s = Some (Inr s')" for n p s s'
      using that cb[of n p "snd s" s'] by (cases s) simp
    show "take (length h) (fst s) = h" if "fst s = h" for s :: "'a heap \<times> 'b"
      using that by simp
    show "g (fst s) n = g h n" if "fst s = h" for s :: "'a heap \<times> 'b" and n
      using that by simp
    show "\<forall>n < length h. \<forall>m \<in> set (g h n). m < length h" by (rule nx)
    show "bfsRun h g {nid (h ! start)} [[start]] ps" by (rule run)
    show "\<forall>p \<in> set [[start]]. hd p < length h" using s by simp
    show "fst (h, x) = h" by simp
  qed
  then show ?thesis by (simp add: traverse_def)
qed

lemma fold_addIdCallback:
  "foldCallback addIdCallback qs (h, ids) =
     Some (Inr (h, ids \<union> (\<lambda>q. nid (h ! hd q)) ` set qs))"
  by (induction qs arbitrary: ids) (simp_all add: addIdCallback_def)

lemma ancestorIds_run:
  "bfsRun h getDependencies {nid (h ! n)} [[n]] qs \<Longrightarrow>
   ancestorIds h n = (\<lambda>q. nid (h ! hd q)) ` set qs"
  unfolding ancestorIds_def using bfsRun_deterministic by blast

lemma traverse_addId:
  assumes c: "heapClosed h" and n: "n < length h"
  shows "traverse n addIdCallback getDependencies (h, ids) = Some (Inr (h, ids \<union> ancestorIds h n))"
proof -
  obtain qs where run: "bfsRun h getDependencies {nid (h ! n)} [[n]] qs"
    using bfsRun_start[where g = getDependencies, OF closed_getDependencies[OF c] n] by blast
  have "traverse n addIdCallback getDependencies (h, ids) = foldCallback addIdCallback qs (h, ids)"
    by (rule traverse_fold_same_heap[where g = getDependencies, OF closed_getDependencies[OF c] n run])
      (auto simp: addIdCallback_def)
  then show ?thesis by (simp add: fold_addIdCallback ancestorIds_run[OF run])
qed

lemma fold_includeCallback:
  assumes c: "heapClosed h"
  shows "\<forall>p \<in> set ps. hd p < length h \<Longrightarrow>
    foldCallback (includeCallback predicate) ps (h, ids) =
      Some (Inr (h, ids \<union> includedIds h predicate (map hd ps)))"
proof (induction ps arbitrary: ids)
  case Nil
  show ?case by (simp add: includedIds_def)
next
  case (Cons p ps)
  have n: "hd p < length h" using Cons.prems by simp
  have step: "includeCallback predicate (hd p) p (h, ids) =
      Some (Inr (h, if predicate h (hd p) then ids \<union> ancestorIds h (hd p) else ids))"
    by (simp add: includeCallback_def traverse_addId[OF c n])
  have split: "includedIds h predicate (map hd (p # ps)) =
      (if predicate h (hd p) then ancestorIds h (hd p) else {}) \<union> includedIds h predicate (map hd ps)"
    unfolding includedIds_def by auto
  show ?case
    using Cons.IH[of "if predicate h (hd p) then ids \<union> ancestorIds h (hd p) else ids"] Cons.prems
    unfolding split by (simp add: step Un_assoc)
qed

lemma getRootNode_bound:
  assumes run: "getRootNode h n = Some r" and cl: "heapClosed h" and n: "n < length h"
  shows "r < length h \<and> dependencies (h ! r) = []"
proof -
  have "heapClosed h \<longrightarrow> n < length h \<longrightarrow> r < length h \<and> dependencies (h ! r) = []"
  proof (rule getRootNode.raw_induct[where
        P = "\<lambda>h n r. heapClosed h \<longrightarrow> n < length h \<longrightarrow> r < length h \<and> dependencies (h ! r) = []",
        OF _ run])
    fix f and h :: "'a heap" and n r
    assume IH: "\<And>h n y. f h n = Some y \<Longrightarrow>
        heapClosed h \<longrightarrow> n < length h \<longrightarrow> y < length h \<and> dependencies (h ! y) = []"
      and body: "(case dependencies (h ! n) of [] \<Rightarrow> Some n | d # x \<Rightarrow> f h d) = Some r"
    show "heapClosed h \<longrightarrow> n < length h \<longrightarrow> r < length h \<and> dependencies (h ! r) = []"
    proof (intro impI)
      assume cl: "heapClosed h" and n: "n < length h"
      show "r < length h \<and> dependencies (h ! r) = []"
      proof (cases "dependencies (h ! n)")
        case Nil
        with body have "r = n" by simp
        with Nil n show ?thesis by simp
      next
        case (Cons d ds)
        with body have rec: "f h d = Some r" by simp
        have "d < length h" using closedD2[OF cl n, of d] Cons by simp
        then show ?thesis using IH[OF rec] cl by simp
      qed
    qed
  qed
  then show ?thesis using cl n by simp
qed

lemma take_prefix_length:
  assumes "take (length h) H = h"
  shows "length h \<le> length H"
proof -
  have "length (take (length h) H) = length h" using assms by simp
  then show ?thesis by simp
qed

lemma foldCallback_invariant:
  assumes step: "\<And>n p s s'. J s \<Longrightarrow> n < N \<Longrightarrow> callback n p s = Some (Inr s') \<Longrightarrow> J s'"
  shows "\<forall>p \<in> set ps. hd p < N \<Longrightarrow> J s \<Longrightarrow> foldCallback callback ps s = Some (Inr s') \<Longrightarrow> J s'"
proof (induction ps arbitrary: s)
  case Nil
  then show ?case by simp
next
  case (Cons p ps)
  from Cons.prems(3) obtain s1 where s1: "callback (hd p) p s = Some (Inr s1)"
    and rest: "foldCallback callback ps s1 = Some (Inr s')"
    by (auto split: option.splits sum.splits)
  have "J s1" using step[OF Cons.prems(2) _ s1] Cons.prems(1) by simp
  then show ?case using Cons.IH[OF _ _ rest] Cons.prems(1) by simp
qed

lemma shouldInclude_append:
  "n < length h \<Longrightarrow> shouldIncludeNode io (h @ cs) n = shouldIncludeNode io h n"
  by (simp add: shouldIncludeNode_def nth_append split: option.splits)

lemma fold_cloneNode:
  "\<forall>p \<in> set ps. hd p < length h \<Longrightarrow>
   foldCallback (cloneNodeCallback io) ps (h @ cs, m) =
     Some (Inr (h @ cs @ clonesOf h (includedNodes h io (map hd ps)),
                cloneMap h io (map hd ps) (length h + length cs) m))"
proof (induction ps arbitrary: cs m)
  case Nil
  show ?case by (simp add: clonesOf_def includedNodes_def)
next
  case (Cons p ps)
  have n: "hd p < length h" using Cons.prems by simp
  show ?case
  proof (cases "shouldIncludeNode io h (hd p)")
    case False
    then have "cloneNodeCallback io (hd p) p (h @ cs, m) = Some (Inr (h @ cs, m))"
      by (simp add: cloneNodeCallback_def shouldInclude_append[OF n])
    then show ?thesis
      using Cons.IH[of cs m] Cons.prems False by (simp add: includedNodes_def)
  next
    case True
    let ?c = "cloneWithoutRelationships (h ! hd p)"
    have "cloneNodeCallback io (hd p) p (h @ cs, m) =
        Some (Inr (h @ (cs @ [?c]), m(nid (h ! hd p) \<mapsto> length h + length cs)))"
      using n True
      by (simp add: cloneNodeCallback_def shouldInclude_append[OF n] nth_append Let_def
          cloneWithoutRelationships_def)
    moreover have "foldCallback (cloneNodeCallback io) ps
        (h @ (cs @ [?c]), m(nid (h ! hd p) \<mapsto> length h + length cs)) =
      Some (Inr (h @ (cs @ [?c]) @ clonesOf h (includedNodes h io (map hd ps)),
                 cloneMap h io (map hd ps) (length h + length (cs @ [?c]))
                   (m(nid (h ! hd p) \<mapsto> length h + length cs))))"
      using Cons.prems by (intro Cons.IH) simp
    moreover have "h @ (cs @ [?c]) @ clonesOf h (includedNodes h io (map hd ps)) =
        h @ cs @ clonesOf h (includedNodes h io (map hd (p # ps)))"
      using True by (simp add: includedNodes_def clonesOf_def)
    moreover have "cloneMap h io (map hd ps) (length h + length (cs @ [?c]))
                   (m(nid (h ! hd p) \<mapsto> length h + length cs)) =
        cloneMap h io (map hd (p # ps)) (length h + length cs) m"
      using True by simp
    ultimately show ?thesis by (simp only: foldCallback.simps option.case sum.case)
  qed
qed

lemma traverse_cloneNode:
  assumes c: "heapClosed h" and r: "rootNode < length h"
    and run: "bfsRun h getDependents {nid (h ! rootNode)} [[rootNode]] ps"
  shows "traverse rootNode (cloneNodeCallback io) getDependents (h, m) =
     Some (Inr (h @ clonesOf h (includedNodes h io (map hd ps)),
                cloneMap h io (map hd ps) (length h) m))"
proof -
  have hb: "\<forall>p \<in> set ps. hd p < length h"
    using bfsRun_heads_bound[where g = getDependents, OF closed_getDependents[OF c] run] r by simp
  have "traverse_loop (cloneNodeCallback io) getDependents {nid (h ! rootNode)} [[rootNode]] (h, m) =
      foldCallback (cloneNodeCallback io) ps (h, m)"
  proof (rule traverse_loop_fold[where J = "\<lambda>s. take (length h) (fst s) = h" and h = h])
    show "take (length h) (fst s') = h"
      if "take (length h) (fst s) = h" "cloneNodeCallback io n p s = Some (Inr s')"
      for n p and s s' :: "'a heap \<times> (string \<rightharpoonup> ref)"
    proof -
      from that(1) have "length h \<le> length (fst s)"
        by (rule take_prefix_length)
      with that show ?thesis
        by (cases s) (auto simp: cloneNodeCallback_def Let_def split: if_splits)
    qed
    show "getDependents (fst s) n = getDependents h n"
      if "take (length h) (fst s) = h" "n < length h" for s :: "'a heap \<times> (string \<rightharpoonup> ref)" and n
      using take_nth_eq[OF that] by (simp add: getDependents_def)
    show "\<forall>n < length h. \<forall>m \<in> set (getDependents h n). m < length h"
      by (rule closed_getDependents[OF c])
    show "bfsRun h getDependents {nid (h ! rootNode)} [[rootNode]] ps" by (rule run)
    show "\<forall>p \<in> set [[rootNode]]. hd p < length h" using r by simp
  qed simp_all
  then show ?thesis
    using fold_cloneNode[OF hb, of io "[]" m] by (simp add: traverse_def)
qed

lemma ran_upd_subset: "ran (m(a \<mapsto> b)) \<subseteq> insert b (ran m)"
  by (auto simp: ran_def)

lemma cloneMap_ran:
  "ran (cloneMap h io ns k m) \<subseteq> ran m \<union> {k ..< k + length (includedNodes h io ns)}"
proof (induction ns arbitrary: k m)
  case Nil
  show ?case by simp
next
  case (Cons n ns)
  show ?case
  proof (cases "shouldIncludeNode io h n")
    case False
    then show ?thesis using Cons.IH[of k m] by (simp add: includedNodes_def)
  next
    case True
    let ?l = "length (includedNodes h io ns)"
    have "ran (cloneMap h io (n # ns) k m) = ran (cloneMap h io ns (Suc k) (m(nid (h ! n) \<mapsto> k)))"
      using True by simp
    also have "\<dots> \<subseteq> ran (m(nid (h ! n) \<mapsto> k)) \<union> {Suc k ..< Suc k + ?l}"
      by (rule Cons.IH)
    also have "\<dots> \<subseteq> insert k (ran m) \<union> {Suc k ..< Suc k + ?l}"
      using ran_upd_subset[of m "nid (h ! n)" k] by blast
    also have "\<dots> \<subseteq> ran m \<union> {k ..< k + length (includedNodes h io (n # ns))}"
      using True by (auto simp: includedNodes_def)
    finally show ?thesis .
  qed
qed

lemma cloneMap_dom:
  "dom (cloneMap h io ns k m) = dom m \<union> (\<lambda>n. nid (h ! n)) ` set (includedNodes h io ns)"
proof (induction ns arbitrary: k m)
  case Nil
  show ?case by (simp add: includedNodes_def)
next
  case (Cons n ns)
  show ?case
  proof (cases "shouldIncludeNode io h n")
    case False
    then show ?thesis using Cons.IH[of k m] by (simp add: includedNodes_def)
  next
    case True
    have "dom (cloneMap h io (n # ns) k m) = dom (cloneMap h io ns (Suc k) (m(nid (h ! n) \<mapsto> k)))"
      using True by simp
    also have "\<dots> = dom (m(nid (h ! n) \<mapsto> k)) \<union> (\<lambda>n. nid (h ! n)) ` set (includedNodes h io ns)"
      by (rule Cons.IH)
    also have "\<dots> = dom m \<union> (\<lambda>n. nid (h ! n)) ` set (includedNodes h io (n # ns))"
      using True by (simp add: includedNodes_def)
    finally show ?thesis .
  qed
qed

lemma traverse_loop_preserves:
  assumes cb: "\<And>n p s s'. J s \<Longrightarrow> callback n p s = Some (Inr s') \<Longrightarrow> J s'"
    and run: "traverse_loop callback g visited queue s = Some (Inr s')" and J: "J s"
  shows "J s'"
proof -
  have "callback = callback \<longrightarrow> J s \<longrightarrow> (\<forall>t. (Inr s' :: error + 'a heap \<times> 'b) = Inr t \<longrightarrow> J t)"
  proof (rule traverse_loop.raw_induct[where
        P = "\<lambda>c g visited queue s y. c = callback \<longrightarrow> J s \<longrightarrow> (\<forall>t. y = Inr t \<longrightarrow> J t)",
        OF _ run])
    fix f c g visited queue and s :: "'a heap \<times> 'b" and y
    assume IH: "\<And>c g visited queue s y. f c g visited queue s = Some y \<Longrightarrow>
        c = callback \<longrightarrow> J s \<longrightarrow> (\<forall>t. y = Inr t \<longrightarrow> J t)"
      and body: "(case queue of [] \<Rightarrow> Some (Inr s)
          | traversalPath # rest \<Rightarrow>
              (case traversalPath of [] \<Rightarrow> Some (Inl TypeError)
               | n # x \<Rightarrow>
                   (case c n traversalPath s of None \<Rightarrow> None
                    | Some (Inl e) \<Rightarrow> Some (Inl e)
                    | Some (Inr s') \<Rightarrow>
                        (case enqueue (fst s') traversalPath (g (fst s') n) (visited, rest) of
                           (visited', queue') \<Rightarrow> f c g visited' queue' s')))) = Some y"
    show "c = callback \<longrightarrow> J s \<longrightarrow> (\<forall>t. y = Inr t \<longrightarrow> J t)"
    proof (intro impI allI)
      fix t assume c: "c = callback" and Js: "J s" and y: "y = Inr t"
      show "J t"
      proof (cases queue)
        case Nil
        with body y have "t = s" by simp
        with Js show ?thesis by simp
      next
        case (Cons p rest)
        show ?thesis
        proof (cases p)
          case Nil
          with Cons body y show ?thesis by simp
        next
          case (Cons n x)
          with \<open>queue = p # rest\<close> body y obtain s1 where
            s1: "callback n p s = Some (Inr s1)" and
            rec: "(case enqueue (fst s1) p (g (fst s1) n) (visited, rest) of
                     (visited', queue') \<Rightarrow> f c g visited' queue' s1) = Some (Inr t)"
            using c by (auto split: option.splits sum.splits)
          have J1: "J s1" using cb[OF Js s1] .
          obtain v' q' where "enqueue (fst s1) p (g (fst s1) n) (visited, rest) = (v', q')"
            by (cases "enqueue (fst s1) p (g (fst s1) n) (visited, rest)")
          with rec have "f c g v' q' s1 = Some (Inr t)" by simp
          then show ?thesis using IH c J1 by blast
        qed
      qed
    qed
  qed
  then show ?thesis using J by simp
qed

lemma traverse_preserves:
  assumes cb: "\<And>n p s s'. J s \<Longrightarrow> callback n p s = Some (Inr s') \<Longrightarrow> J s'"
    and run: "traverse start callback g s = Some (Inr s')" and J: "J s"
  shows "J s'"
proof -
  from run have r: "traverse_loop callback g {nid (fst s ! start)} [[start]] s = Some (Inr s')"
    by (simp add: traverse_def)
  show ?thesis
    using traverse_loop_preserves[where J = J and callback = callback and s = s and s' = s',
        OF cb r J] .
qed

lemma addDependency_take:
  "N \<le> c \<Longrightarrow> N \<le> cd \<Longrightarrow> take N (addDependency c cd H) = take N H"
  by (simp add: addDependency_def Let_def take_update_cancel)

lemma addDependency_region:
  assumes r: "cloneRegionClosed N H" and c: "N \<le> c" "c < length H" and cd: "N \<le> cd" "cd < length H"
  shows "cloneRegionClosed N (addDependency c cd H)"
  unfolding cloneRegionClosed_def
proof (intro allI impI ballI)
  fix r e
  assume r': "N \<le> r \<and> r < length (addDependency c cd H)"
    and e: "e \<in> set (dependents (addDependency c cd H ! r)) \<union> set (dependencies (addDependency c cd H ! r))"
  then have rl: "r < length H" by simp
  have dts: "set (dependents (addDependency c cd H ! r)) \<subseteq> insert c (set (dependents (H ! r)))"
    using c(2) cd(2) rl by (auto simp: addDependency_dependents)
  have dcs: "set (dependencies (addDependency c cd H ! r)) \<subseteq> insert cd (set (dependencies (H ! r)))"
    using c(2) cd(2) rl by (auto simp: addDependency_dependencies)
  from e dts dcs have "e = c \<or> e = cd \<or> e \<in> set (dependents (H ! r)) \<union> set (dependencies (H ! r))"
    by blast
  moreover have "N \<le> x \<and> x < length H"
    if "x \<in> set (dependents (H ! r)) \<union> set (dependencies (H ! r))" for x
    using r r' rl that unfolding cloneRegionClosed_def by blast
  ultimately show "N \<le> e \<and> e < length (addDependency c cd H)"
    using c cd by auto
qed

lemma wireDependencies_frame:
  "wireDependencies m co ds H = Inr H' \<Longrightarrow> \<forall>r \<in> ran m. N \<le> r \<and> r < length H \<Longrightarrow>
   \<forall>c. co = Some c \<longrightarrow> N \<le> c \<and> c < length H \<Longrightarrow> cloneRegionClosed N H \<Longrightarrow>
   take N H' = take N H \<and> length H' = length H \<and> cloneRegionClosed N H'"
proof (induction ds arbitrary: H)
  case Nil
  then show ?case by simp
next
  case (Cons d ds)
  from Cons.prems(1) obtain cd c where cd: "m (nid (H ! d)) = Some cd" and c: "co = Some c"
    and rec: "wireDependencies m co ds (addDependency c cd H) = Inr H'"
    by (auto split: option.splits)
  have cdr: "N \<le> cd \<and> cd < length H" using Cons.prems(2) cd by (auto simp: ran_def)
  have cr: "N \<le> c \<and> c < length H" using Cons.prems(3) c by simp
  have "take N H' = take N (addDependency c cd H) \<and> length H' = length (addDependency c cd H) \<and>
      cloneRegionClosed N H'"
  proof (rule Cons.IH[OF rec])
    show "\<forall>r \<in> ran m. N \<le> r \<and> r < length (addDependency c cd H)"
      using Cons.prems(2) by simp
    show "\<forall>c'. co = Some c' \<longrightarrow> N \<le> c' \<and> c' < length (addDependency c cd H)"
      using Cons.prems(3) by simp
    show "cloneRegionClosed N (addDependency c cd H)"
      using addDependency_region[OF Cons.prems(4)] cdr cr by simp
  qed
  then show ?case using addDependency_take[of N c cd H] cdr cr by simp
qed

lemma computeIds_eq:
  assumes c: "heapClosed h" and r: "rt < length h"
    and run: "bfsRun h getDependents {nid (h ! rt)} [[rt]] ps"
  shows "computeIdsToInclude rt predicate h =
     Some (Inr (h, idsToIncludeOf h predicate (map hd ps)))"
proof (cases predicate)
  case None
  then show ?thesis by (simp add: computeIdsToInclude_def idsToIncludeOf_def)
next
  case (Some p)
  have hb: "\<forall>q \<in> set ps. hd q < length h"
    using bfsRun_heads_bound[where g = getDependents, OF closed_getDependents[OF c] run] r by simp
  have keep: "fst s' = h" if "includeCallback p n q (h, x) = Some (Inr s')" for n q x s'
  proof (cases "p h n")
    case False
    with that show ?thesis by (auto simp: includeCallback_def)
  next
    case True
    with that have t: "traverse n addIdCallback getDependencies (h, x) = Some (Inr s')"
      by (simp add: includeCallback_def)
    have "fst s' = h"
    proof (rule traverse_preserves[where J = "\<lambda>s. fst s = h", OF _ t])
      show "fst s' = h" if "fst s = h" "addIdCallback n p s = Some (Inr s')"
        for n p and s s' :: "'a heap \<times> string set"
        using that by (cases s) (auto simp: addIdCallback_def)
    qed simp
    then show ?thesis .
  qed
  have "traverse rt (includeCallback p) getDependents (h, {}) =
      foldCallback (includeCallback p) ps (h, {})"
    by (rule traverse_fold_same_heap[where g = getDependents, OF closed_getDependents[OF c] r run])
      (rule keep)
  then show ?thesis
    using Some fold_includeCallback[OF c hb, of p "{}"]
    by (simp add: computeIdsToInclude_def idsToIncludeOf_def andThen_def)
qed

lemma cloneEdges_preserves:
  assumes J: "take N (fst s) = h \<and> length (fst s) = M \<and> cloneRegionClosed N (fst s)"
    and m: "\<forall>r \<in> ran m. N \<le> r \<and> r < M"
    and cb: "cloneEdgesCallback io m n p s = Some (Inr s')"
  shows "take N (fst s') = h \<and> length (fst s') = M \<and> cloneRegionClosed N (fst s')"
proof (cases "shouldIncludeNode io (fst s) n")
  case False
  with cb have "s' = s" by (cases s) (simp add: cloneEdgesCallback_def)
  with J show ?thesis by simp
next
  case True
  obtain H u where s: "s = (H, u)" by (cases s)
  with True cb obtain H' where w: "wireDependencies m (m (nid (H ! n))) (dependencies (H ! n)) H = Inr H'"
    and s': "s' = (H', u)"
    by (auto simp: cloneEdgesCallback_def split: sum.splits)
  have "take N H' = take N H \<and> length H' = length H \<and> cloneRegionClosed N H'"
  proof (rule wireDependencies_frame[OF w])
    show "\<forall>r \<in> ran m. N \<le> r \<and> r < length H" using m J s by simp
    show "\<forall>c. m (nid (H ! n)) = Some c \<longrightarrow> N \<le> c \<and> c < length H"
      using m J s by (auto simp: ran_def)
    show "cloneRegionClosed N H" using J s by simp
  qed
  with J s s' show ?thesis by simp
qed

lemma clonesOf_region: "cloneRegionClosed (length h) (h @ clonesOf h ns)"
  unfolding cloneRegionClosed_def clonesOf_def
  by (auto simp: nth_append cloneWithoutRelationships_def)

lemma cloneGraph_eq:
  assumes c: "heapClosed h" and t: "this < length h" and rt: "getRootNode h this = Some rt"
    and run: "bfsRun h getDependents {nid (h ! rt)} [[rt]] ps"
  shows "cloneGraph this predicate h =
     andThen (foldCallback (cloneEdgesCallback (idsToIncludeOf h predicate (map hd ps))
                (cloneMap h (idsToIncludeOf h predicate (map hd ps)) (map hd ps) (length h) Map.empty))
              ps
              (h @ clonesOf h (includedNodes h (idsToIncludeOf h predicate (map hd ps)) (map hd ps)), ()))
       (\<lambda>(h3, u). Some (Inr (h3,
          cloneMap h (idsToIncludeOf h predicate (map hd ps)) (map hd ps) (length h) Map.empty)))"
proof -
  let ?io = "idsToIncludeOf h predicate (map hd ps)"
  let ?m = "cloneMap h ?io (map hd ps) (length h) Map.empty"
  let ?incl = "includedNodes h ?io (map hd ps)"
  let ?h2 = "h @ clonesOf h ?incl"
  let ?J = "\<lambda>s :: 'a heap \<times> unit. take (length h) (fst s) = h \<and> length (fst s) = length ?h2 \<and>
      cloneRegionClosed (length h) (fst s)"
  have r: "rt < length h" using getRootNode_bound[OF rt c t] by simp
  have mr: "\<forall>r \<in> ran ?m. length h \<le> r \<and> r < length ?h2"
    using cloneMap_ran[of h ?io "map hd ps" "length h" Map.empty] by (auto simp: clonesOf_def)
  have "traverse_loop (cloneEdgesCallback ?io ?m) getDependents {nid (h ! rt)} [[rt]] (?h2, ()) =
      foldCallback (cloneEdgesCallback ?io ?m) ps (?h2, ())"
  proof (rule traverse_loop_fold[where J = ?J and h = h])
    show "?J s'" if "?J s" "cloneEdgesCallback ?io ?m n p s = Some (Inr s')" for n p s s'
      using cloneEdges_preserves[OF that(1) mr that(2)] .
    show "take (length h) (fst s) = h" if "?J s" for s using that by simp
    show "getDependents (fst s) n = getDependents h n" if "?J s" "n < length h" for s n
      using take_nth_eq[of h "fst s" n] that by (simp add: getDependents_def)
    show "\<forall>n < length h. \<forall>m \<in> set (getDependents h n). m < length h"
      by (rule closed_getDependents[OF c])
    show "bfsRun h getDependents {nid (h ! rt)} [[rt]] ps" by (rule run)
    show "\<forall>p \<in> set [[rt]]. hd p < length h" using r by simp
    show "?J (?h2, ())" using clonesOf_region[of h ?incl] by simp
  qed
  then have p3: "traverse rt (cloneEdgesCallback ?io ?m) getDependents (?h2, ()) =
      foldCallback (cloneEdgesCallback ?io ?m) ps (?h2, ())"
    using r by (simp add: traverse_def nth_append)
  show ?thesis
    unfolding cloneGraph_def
    by (simp add: rt computeIds_eq[OF c r run] traverse_cloneNode[OF c r run] p3 andThen_def)
qed

lemma cloneGraph_frame:
  assumes c: "heapClosed h" and t: "this < length h"
    and g: "cloneGraph this predicate h = Some (Inr (h', m))"
  shows "take (length h) h' = h \<and> (\<forall>r \<in> ran m. length h \<le> r \<and> r < length h') \<and>
         cloneRegionClosed (length h) h'"
proof -
  from g obtain rt where rt: "getRootNode h this = Some rt"
    by (auto simp: cloneGraph_def split: option.splits)
  have r: "rt < length h" using getRootNode_bound[OF rt c t] by simp
  obtain ps where run: "bfsRun h getDependents {nid (h ! rt)} [[rt]] ps"
    and hb: "\<forall>p \<in> set ps. hd p < length h"
    using bfsRun_start[where g = getDependents, OF closed_getDependents[OF c] r] by blast
  let ?io = "idsToIncludeOf h predicate (map hd ps)"
  let ?m = "cloneMap h ?io (map hd ps) (length h) Map.empty"
  let ?incl = "includedNodes h ?io (map hd ps)"
  let ?h2 = "h @ clonesOf h ?incl"
  let ?J = "\<lambda>s :: 'a heap \<times> unit. take (length h) (fst s) = h \<and> length (fst s) = length ?h2 \<and>
      cloneRegionClosed (length h) (fst s)"
  have mr: "\<forall>r \<in> ran ?m. length h \<le> r \<and> r < length ?h2"
    using cloneMap_ran[of h ?io "map hd ps" "length h" Map.empty] by (auto simp: clonesOf_def)
  from g obtain u where f: "foldCallback (cloneEdgesCallback ?io ?m) ps (?h2, ()) = Some (Inr (h', u))"
    and m: "m = ?m"
    unfolding cloneGraph_eq[OF c t rt run]
    by (auto simp: andThen_def split: option.splits sum.splits)
  have "?J (h', u)"
  proof (rule foldCallback_invariant[where J = ?J and N = "length h", OF _ hb _ f])
    show "?J s'" if "?J s" "cloneEdgesCallback ?io ?m n p s = Some (Inr s')" for n p s s'
      using cloneEdges_preserves[OF that(1) mr that(2)] .
    show "?J (?h2, ())" using clonesOf_region[of h ?incl] by simp
  qed
  then show ?thesis using mr m by simp
qed

lemma cloneWithRelationships_frame:
  assumes c: "heapClosed h" and t: "this < length h"
    and g: "cloneWithRelationships this predicate h = Some (Inr (h', k))"
  shows "take (length h) h' = h \<and> length h \<le> k \<and> k < length h' \<and>
         cloneRegionClosed (length h) h'"
proof -
  from g obtain m where cg: "cloneGraph this predicate h = Some (Inr (h', m))"
    and k: "m (nid (h' ! this)) = Some k"
    by (auto simp: cloneWithRelationships_def andThen_def split: option.splits sum.splits)
  from k have "k \<in> ran m" by (auto simp: ran_def)
  then show ?thesis using cloneGraph_frame[OF c t cg] by blast
qed

lemma traverse_same_heap:
  assumes cb: "\<And>k p y t. callback k p (h, y) = Some (Inr t) \<Longrightarrow> fst t = h"
    and run: "traverse n callback g (h, x) = Some (Inr s')"
  shows "fst s' = h"
proof (rule traverse_preserves[where J = "\<lambda>s. fst s = h", OF _ run])
  show "fst s' = h" if "fst s = h" "callback n p s = Some (Inr s')" for n p s s'
    using that cb[of n p "snd s" s'] by (cases s) simp
qed simp

lemma getBlockingCpuData_frame:
  assumes "getBlockingCpuData graph fcpTs networkFilter cpuFilter h = Some (Inr (h', d))"
  shows "h' = h"
proof -
  from assms obtain h1 collected where
    t1: "traverse graph (collectCpuCallback fcpTs) getDependents (h, []) = Some (Inr (h1, collected))"
    by (auto simp: getBlockingCpuData_def andThen_def split: option.splits sum.splits)
  have "fst (h1, collected) = h"
    by (rule traverse_same_heap[OF _ t1]) (auto simp: collectCpuCallback_def split: if_splits)
  then have h1: "h1 = h" by simp
  from assms t1 h1 obtain possibly where
    t2: "getScriptUrls graph (\<lambda>n. endTime (node.more n) \<le> fcpTs \<and> networkFilter n) h =
           Some (Inr (h', possibly))"
    by (auto simp: getBlockingCpuData_def andThen_def Let_def split: option.splits sum.splits prod.splits)
  have "fst (h', possibly) = h"
    by (rule traverse_same_heap[OF _ t2[unfolded getScriptUrls_def]])
      (auto simp: scriptUrlCallback_def split: if_splits)
  then show ?thesis by simp
qed

lemma getFirstPaintBasedGraph_frame:
  assumes c: "heapClosed h" and t: "graph < length h"
    and g: "getFirstPaintBasedGraph graph fcpTs f cf h = Some (Inr (h', k))"
  shows "take (length h) h' = h \<and> length h \<le> k \<and> k < length h' \<and>
         cloneRegionClosed (length h) h'"
proof -
  from g obtain h1 d where b: "getBlockingCpuData graph fcpTs f cf h = Some (Inr (h1, d))"
    and cl: "cloneWithRelationships graph (Some (firstPaintPredicate fcpTs d)) h1 = Some (Inr (h', k))"
    by (auto simp: getFirstPaintBasedGraph_def andThen_def split: option.splits sum.splits)
  have "h1 = h" using getBlockingCpuData_frame[OF b] .
  with cl show ?thesis using cloneWithRelationships_frame[OF c t] by blast
qed

text \<open>
  C3. The graph-shaping operations leave every node of the input graph as it is.
  \<open>traverse\<close> writes nothing itself: whenever its callback leaves the heap alone, so
  does the traversal. \<open>cloneWithRelationships\<close> and \<open>getFirstPaintBasedGraph\<close>
  return a heap whose first part is the input heap, unchanged, and a clone allocated
  after it, and no edge of a newly allocated node leads to a node of the input heap: the
  clone shares no node with the original. \<open>getBlockingCpuData\<close> returns the heap it
  was given. (\<open>hasCycle\<close> writes only its local variables; its model is a function of
  the heap that returns no heap.)
\<close>

theorem C3_input_graph_unchanged:
  assumes "heapClosed h" and "n < length h" and "heapClosed hl" and "graph < length hl"
  shows
   "(\<forall>callback getNextNodes x s'.
       (\<forall>k p y t. callback k p (h, y) = Some (Inr t) \<longrightarrow> fst t = h) \<and>
       traverse n callback getNextNodes (h, x) = Some (Inr s') \<longrightarrow> fst s' = h) \<and>
    (\<forall>predicate h' c. cloneWithRelationships n predicate h = Some (Inr (h', c)) \<longrightarrow>
       take (length h) h' = h \<and> length h \<le> c \<and> c < length h' \<and>
       cloneRegionClosed (length h) h') \<and>
    (\<forall>fcpTs networkFilter cpuFilter h' d.
       getBlockingCpuData graph fcpTs networkFilter cpuFilter hl = Some (Inr (h', d)) \<longrightarrow> h' = hl) \<and>
    (\<forall>fcpTs blockingScriptFilter cpuNodeFilter h' c.
       getFirstPaintBasedGraph graph fcpTs blockingScriptFilter cpuNodeFilter hl = Some (Inr (h', c)) \<longrightarrow>
       take (length hl) h' = hl \<and> length hl \<le> c \<and> c < length h' \<and>
       cloneRegionClosed (length hl) h')"
proof (intro conjI allI impI)
  fix callback :: "('a, 'b) callback" and getNextNodes x s'
  assume a: "(\<forall>k p y t. callback k p (h, y) = Some (Inr t) \<longrightarrow> fst t = h) \<and>
       traverse n callback getNextNodes (h, x) = Some (Inr s')"
  then have cb: "\<And>k p y t. callback k p (h, y) = Some (Inr t) \<Longrightarrow> fst t = h" by blast
  from a have run: "traverse n callback getNextNodes (h, x) = Some (Inr s')" by blast
  show "fst s' = h" using cb run by (rule traverse_same_heap)
next
  fix predicate h' c
  assume "cloneWithRelationships n predicate h = Some (Inr (h', c))"
  then have r: "take (length h) h' = h \<and> length h \<le> c \<and> c < length h' \<and>
         cloneRegionClosed (length h) h'"
    using cloneWithRelationships_frame[OF assms(1,2)] by blast
  from r show "take (length h) h' = h" by blast
  from r show "length h \<le> c" by blast
  from r show "c < length h'" by blast
  from r show "cloneRegionClosed (length h) h'" by blast
next
  fix fcpTs networkFilter cpuFilter h' d
  assume "getBlockingCpuData graph fcpTs networkFilter cpuFilter hl = Some (Inr (h', d))"
  then show "h' = hl" by (rule getBlockingCpuData_frame)
next
  fix fcpTs blockingScriptFilter cpuNodeFilter h' c
  assume "getFirstPaintBasedGraph graph fcpTs blockingScriptFilter cpuNodeFilter hl = Some (Inr (h', c))"
  then have r: "take (length hl) h' = hl \<and> length hl \<le> c \<and> c < length h' \<and>
         cloneRegionClosed (length hl) h'"
    using getFirstPaintBasedGraph_frame[OF assms(3,4)] by blast
  from r show "take (length hl) h' = hl" by blast
  from r show "length hl \<le> c" by blast
  from r show "c < length h'" by blast
  from r show "cloneRegionClosed (length hl) h'" by blast
qed

lemma clone_chainABCX:
  "cloneWithRelationships 3 None chainABCX = Some (Inr (clonedChainABCX, 7))"
  by (simp add: traverse_eval clone_eval chainABCX_def clonedChainABCX_def)

lemma pessimistic_scenario:
  "getFirstPaintBasedGraph 0 150 (\<lambda>n. hasRenderBlockingPriority (node.more n)) None classifierScenario =
     Some (Inr (graphOf (getFirstPaintBasedGraph 0 150 (\<lambda>n. hasRenderBlockingPriority (node.more n))
        None classifierScenario), 3))"
  by (simp add: traverse_eval clone_eval classifier_eval classifierScenario_def graphOf_def
      getFirstPaintBasedGraph_def firstPaintPredicate_def)

theorem C3_input_graph_unchanged_witness:
  "heapClosed chainABCX \<and> 3 < length chainABCX \<and>
   heapClosed classifierScenario \<and> 0 < length classifierScenario \<and>
   cloneWithRelationships 3 None chainABCX = Some (Inr (clonedChainABCX, 7)) \<and>
   take (length chainABCX) clonedChainABCX = chainABCX \<and>
   length chainABCX \<le> 7 \<and> cloneRegionClosed (length chainABCX) clonedChainABCX \<and>
   take (length classifierScenario)
     (graphOf (getFirstPaintBasedGraph 0 150 (\<lambda>n. hasRenderBlockingPriority (node.more n))
        None classifierScenario)) = classifierScenario"
proof -
  have c1: "heapClosed chainABCX" by (simp add: heapClosed_def chainABCX_def)
  have l1: "3 < length chainABCX" by (simp add: chainABCX_def)
  have c2: "heapClosed classifierScenario" by (simp add: heapClosed_def classifierScenario_def)
  have l2: "0 < length classifierScenario" by (simp add: classifierScenario_def)
  note T = C3_input_graph_unchanged[OF c1 l1 c2 l2]
  note B = T[THEN conjunct2, THEN conjunct1, rule_format, OF clone_chainABCX]
  note D = T[THEN conjunct2, THEN conjunct2, THEN conjunct2, rule_format, OF pessimistic_scenario]
  show ?thesis using c1 l1 c2 l2 clone_chainABCX B D by simp
qed

section \<open>Identification of nodes by id\<close>

lemma map_nid_update:
  assumes "nid x = nid (H ! k)"
  shows "map nid (H[k := x]) = map nid H"
proof (cases "k < length H")
  case True
  have "map nid (H[k := x]) = (map nid H)[k := map nid H ! k]"
    using True assms by (simp add: map_update)
  then show ?thesis by simp
next
  case False
  then have "length H \<le> k" by (simp add: not_less)
  then have "H[k := x] = H" by (rule list_update_beyond)
  then show ?thesis by (rule arg_cong)
qed

lemma addDependency_nid: "map nid (addDependency c cd H) = map nid H"
proof (cases "cd \<in> set (dependencies (H ! c))")
  case True
  then show ?thesis by (simp add: addDependency_def)
next
  case False
  let ?h1 = "H[cd := (H ! cd)\<lparr>dependents := dependents (H ! cd) @ [c]\<rparr>]"
  have 1: "map nid ?h1 = map nid H" by (rule map_nid_update) simp
  have "map nid (?h1[c := (?h1 ! c)\<lparr>dependencies := dependencies (?h1 ! c) @ [cd]\<rparr>]) = map nid ?h1"
    by (rule map_nid_update) simp
  with 1 show ?thesis using False by (simp add: addDependency_def Let_def)
qed

lemma wireDependencies_nid:
  "wireDependencies m co ds H = Inr H' \<Longrightarrow> map nid H' = map nid H"
proof (induction ds arbitrary: H)
  case Nil
  then show ?case by simp
next
  case (Cons d ds)
  from Cons.prems obtain cd c where
    rec: "wireDependencies m co ds (addDependency c cd H) = Inr H'"
    by (auto split: option.splits)
  show ?case using Cons.IH[OF rec] by (simp add: addDependency_nid)
qed

lemma cloneEdges_nid:
  assumes "cloneEdgesCallback io m n p s = Some (Inr s')"
  shows "map nid (fst s') = map nid (fst s)"
proof (cases "shouldIncludeNode io (fst s) n")
  case False
  with assms have "s' = s" by (cases s) (simp add: cloneEdgesCallback_def)
  then show ?thesis by simp
next
  case True
  obtain H u where s: "s = (H, u)" by (cases s)
  with True assms obtain H' where
    w: "wireDependencies m (m (nid (H ! n))) (dependencies (H ! n)) H = Inr H'"
    and s': "s' = (H', u)"
    by (auto simp: cloneEdgesCallback_def split: sum.splits)
  show ?thesis using wireDependencies_nid[OF w] s s' by simp
qed

lemma cloneMap_other:
  "i \<notin> (\<lambda>n. nid (h ! n)) ` set (includedNodes h io ns) \<Longrightarrow> cloneMap h io ns k m i = m i"
proof (induction ns arbitrary: k m)
  case Nil
  show ?case by simp
next
  case (Cons n ns)
  show ?case
  proof (cases "shouldIncludeNode io h n")
    case False
    then show ?thesis using Cons.IH[of k m] Cons.prems by (simp add: includedNodes_def)
  next
    case True
    with Cons.prems have ne: "i \<noteq> nid (h ! n)"
      and rest: "i \<notin> (\<lambda>n. nid (h ! n)) ` set (includedNodes h io ns)"
      by (auto simp: includedNodes_def)
    have "cloneMap h io (n # ns) k m i = cloneMap h io ns (Suc k) (m(nid (h ! n) \<mapsto> k)) i"
      using True by simp
    also have "\<dots> = (m(nid (h ! n) \<mapsto> k)) i" using rest by (rule Cons.IH)
    also have "\<dots> = m i" using ne by simp
    finally show ?thesis .
  qed
qed

lemma cloneMap_lookup:
  "distinct (map (\<lambda>n. nid (h ! n)) (includedNodes h io ns)) \<Longrightarrow>
   j < length (includedNodes h io ns) \<Longrightarrow>
   cloneMap h io ns k m (nid (h ! (includedNodes h io ns ! j))) = Some (k + j)"
proof (induction ns arbitrary: k m j)
  case Nil
  then show ?case by (simp add: includedNodes_def)
next
  case (Cons n ns)
  show ?case
  proof (cases "shouldIncludeNode io h n")
    case False
    then have "includedNodes h io (n # ns) = includedNodes h io ns"
      by (simp add: includedNodes_def)
    then show ?thesis using Cons.IH[of j k m] Cons.prems False by simp
  next
    case True
    then have inc: "includedNodes h io (n # ns) = n # includedNodes h io ns"
      by (simp add: includedNodes_def)
    from Cons.prems(1) inc have d: "distinct (map (\<lambda>n. nid (h ! n)) (includedNodes h io ns))"
      and nin: "nid (h ! n) \<notin> (\<lambda>n. nid (h ! n)) ` set (includedNodes h io ns)"
      by simp_all
    show ?thesis
    proof (cases j)
      case 0
      have "cloneMap h io (n # ns) k m (nid (h ! n)) =
          cloneMap h io ns (Suc k) (m(nid (h ! n) \<mapsto> k)) (nid (h ! n))"
        using True by simp
      also have "\<dots> = (m(nid (h ! n) \<mapsto> k)) (nid (h ! n))" using nin by (rule cloneMap_other)
      finally show ?thesis using 0 inc by simp
    next
      case (Suc j')
      with Cons.prems(2) inc have j': "j' < length (includedNodes h io ns)" by simp
      have "cloneMap h io ns (Suc k) (m(nid (h ! n) \<mapsto> k))
          (nid (h ! (includedNodes h io ns ! j'))) = Some (Suc k + j')"
        using d j' by (rule Cons.IH)
      then show ?thesis using Suc inc True by simp
    qed
  qed
qed

lemma included_distinct_ids:
  assumes "bfsRun h g {nid (h ! start)} [[start]] ps"
  shows "distinct (map (\<lambda>n. nid (h ! n)) (includedNodes h io (map hd ps)))"
proof -
  have "distinct (map (\<lambda>n. nid (h ! n)) (map hd ps))"
    using bfsRun_start_distinct_ids[OF assms] by (simp add: comp_def)
  then show ?thesis unfolding includedNodes_def by (rule distinct_map_filter)
qed

lemma cloneGraph_ids:
  assumes c: "heapClosed h" and t: "this < length h"
    and g: "cloneGraph this predicate h = Some (Inr (h', m))"
  shows "distinct (map nid (drop (length h) h')) \<and>
         (\<forall>r. length h \<le> r \<and> r < length h' \<longrightarrow> m (nid (h' ! r)) = Some r)"
proof -
  from g obtain rt where rt: "getRootNode h this = Some rt"
    by (auto simp: cloneGraph_def split: option.splits)
  have r: "rt < length h" using getRootNode_bound[OF rt c t] by simp
  obtain ps where run: "bfsRun h getDependents {nid (h ! rt)} [[rt]] ps"
    and hb: "\<forall>p \<in> set ps. hd p < length h"
    using bfsRun_start[where g = getDependents, OF closed_getDependents[OF c] r] by blast
  let ?io = "idsToIncludeOf h predicate (map hd ps)"
  let ?m = "cloneMap h ?io (map hd ps) (length h) Map.empty"
  let ?incl = "includedNodes h ?io (map hd ps)"
  let ?h2 = "h @ clonesOf h ?incl"
  from g obtain u where f: "foldCallback (cloneEdgesCallback ?io ?m) ps (?h2, ()) = Some (Inr (h', u))"
    and m: "m = ?m"
    unfolding cloneGraph_eq[OF c t rt run]
    by (auto simp: andThen_def split: option.splits sum.splits)
  have "map nid (fst (h', u)) = map nid ?h2"
  proof (rule foldCallback_invariant[where J = "\<lambda>s. map nid (fst s) = map nid ?h2"
        and N = "length h", OF _ hb _ f])
    show "map nid (fst s') = map nid ?h2"
      if "map nid (fst s) = map nid ?h2" "cloneEdgesCallback ?io ?m n p s = Some (Inr s')"
      for n p s s'
      using cloneEdges_nid[OF that(2)] that(1) by simp
  qed simp
  then have ids0: "map nid h' = map nid ?h2" by simp
  have ids2: "map nid ?h2 = map nid h @ map (\<lambda>n. nid (h ! n)) ?incl"
    by (simp add: clonesOf_def cloneWithoutRelationships_def comp_def)
  have ids: "map nid h' = map nid h @ map (\<lambda>n. nid (h ! n)) ?incl"
    using ids0 ids2 by (rule trans)
  have "length (map nid h') = length (map nid h @ map (\<lambda>n. nid (h ! n)) ?incl)"
    using ids by (rule arg_cong)
  then have len: "length h' = length h + length ?incl" by simp
  have d: "distinct (map (\<lambda>n. nid (h ! n)) ?incl)"
    using run by (rule included_distinct_ids)
  have "drop (length h) (map nid h') =
      drop (length h) (map nid h @ map (\<lambda>n. nid (h ! n)) ?incl)"
    using ids by (rule arg_cong)
  then have dr: "map nid (drop (length h) h') = map (\<lambda>n. nid (h ! n)) ?incl"
    by (simp add: drop_map)
  have 1: "distinct (map nid (drop (length h) h'))"
    unfolding dr by (rule d)
  have 2: "m (nid (h' ! r)) = Some r" if "length h \<le> r" "r < length h'" for r
  proof -
    define j where "j = r - length h"
    have j: "r = length h + j" "j < length ?incl"
      using that len by (simp_all add: j_def)
    have "nid (h' ! r) = map nid h' ! r" using that(2) by simp
    also have "\<dots> = (map nid h @ map (\<lambda>n. nid (h ! n)) ?incl) ! r"
      using ids by (rule arg_cong)
    also have "\<dots> = nid (h ! (?incl ! j))" using j by (simp add: nth_append)
    finally have e: "nid (h' ! r) = nid (h ! (?incl ! j))" .
    have "m (nid (h' ! r)) = ?m (nid (h ! (?incl ! j)))" unfolding m e ..
    also have "\<dots> = Some (length h + j)"
      using d j(2) by (rule cloneMap_lookup)
    also have "\<dots> = Some r" using j(1) by simp
    finally show ?thesis .
  qed
  show ?thesis using 1 2 by blast
qed

lemma clone_duplicateIdHeap:
  "cloneGraph 0 None duplicateIdHeap = Some (Inr (clonedDuplicateIdHeap, [''r'' \<mapsto> 3, ''a'' \<mapsto> 4]))"
  by (simp add: traverse_eval clone_eval duplicateIdHeap_def clonedDuplicateIdHeap_def)
    (simp add: eval_nat_numeral)

lemma traverse_duplicateIdHeap:
  "traverse 0 (readOnlyCallback (\<lambda>n p x. x @ [n])) getDependents (duplicateIdHeap, []) =
     Some (Inr (duplicateIdHeap, [0, 1]))"
  by (simp add: traverse_eval readOnlyCallback_def duplicateIdHeap_def)

section \<open>Cloning: the edges that the third pass adds\<close>

lemma addDependency_cloneDeps:
  assumes "N \<le> c" "c < length H" "cd < length H"
  shows "cloneDeps N (addDependency c cd H) = insert (c, cd) (cloneDeps N H)"
proof -
  have "b \<in> set (dependencies (addDependency c cd H ! a)) \<longleftrightarrow>
      (a = c \<and> b = cd) \<or> b \<in> set (dependencies (H ! a))" if "a < length H" for a b
    using assms that by (auto simp: addDependency_dependencies)
  then show ?thesis using assms unfolding cloneDeps_def by auto
qed

lemma addDependency_cloneDependents:
  assumes "N \<le> cd" "c < length H" "cd < length H"
    and sym: "cloneDependents N H = (cloneDeps N H)\<inverse>" and c: "N \<le> c"
  shows "cloneDependents N (addDependency c cd H) = insert (cd, c) (cloneDependents N H)"
proof (cases "cd \<in> set (dependencies (H ! c))")
  case True
  then have "(c, cd) \<in> cloneDeps N H" using assms by (simp add: cloneDeps_def)
  then have "(cd, c) \<in> cloneDependents N H" using sym by simp
  moreover have "addDependency c cd H = H" using True by (simp add: addDependency_def)
  ultimately show ?thesis by auto
next
  case False
  have "a \<in> set (dependents (addDependency c cd H ! b)) \<longleftrightarrow>
      (b = cd \<and> a = c) \<or> a \<in> set (dependents (H ! b))" if "b < length H" for a b
    using assms(1,2,3) that False by (auto simp: addDependency_dependents)
  then show ?thesis using assms(1,2,3) unfolding cloneDependents_def by auto
qed

lemma addDependency_symmetric:
  assumes "N \<le> cd" "c < length H" "cd < length H" "N \<le> c"
    and sym: "cloneDependents N H = (cloneDeps N H)\<inverse>"
  shows "cloneDependents N (addDependency c cd H) = (cloneDeps N (addDependency c cd H))\<inverse>"
  using addDependency_cloneDeps[OF assms(4,2,3)] addDependency_cloneDependents[OF assms(1,2,3) sym assms(4)]
    sym by auto

lemma clonedEdges_insert:
  "clonedEdges m h (insert n S) =
     clonedEdges m h S \<union>
     {(c, cd). \<exists>d \<in> set (dependencies (h ! n)). m (nid (h ! n)) = Some c \<and> m (nid (h ! d)) = Some cd}"
  unfolding clonedEdges_def by auto

lemma wireDependencies_effect:
  assumes mr: "\<forall>r \<in> ran m. N \<le> r \<and> r < M" and c: "N \<le> c" "c < M" and N: "N = length h"
  shows "\<forall>d \<in> set ds. d < N \<and> m (nid (h ! d)) \<noteq> None \<Longrightarrow>
    take N H = h \<Longrightarrow> length H = M \<Longrightarrow> cloneDependents N H = (cloneDeps N H)\<inverse> \<Longrightarrow>
    \<exists>H'. wireDependencies m (Some c) ds H = Inr H' \<and> take N H' = h \<and> length H' = M \<and>
      cloneDependents N H' = (cloneDeps N H')\<inverse> \<and>
      cloneDeps N H' = cloneDeps N H \<union> {c} \<times> {cd. \<exists>d \<in> set ds. m (nid (h ! d)) = Some cd}"
proof (induction ds arbitrary: H)
  case Nil
  then show ?case by simp
next
  case (Cons d ds)
  from Cons.prems(1) obtain cd where cd: "m (nid (h ! d)) = Some cd" and d: "d < N" by auto
  have cdr: "N \<le> cd" "cd < M" using mr cd by (auto simp: ran_def)
  have Hd: "H ! d = h ! d" using Cons.prems(2) d N take_nth_eq[of h H d] by simp
  let ?H1 = "addDependency c cd H"
  have t1: "take N ?H1 = h" using addDependency_take[OF c(1) cdr(1), of H] Cons.prems(2) by simp
  have l1: "length ?H1 = M" using Cons.prems(3) by simp
  have s1: "cloneDependents N ?H1 = (cloneDeps N ?H1)\<inverse>"
    using addDependency_symmetric[of N cd c H] cdr c Cons.prems(3,4) by simp
  have e1: "cloneDeps N ?H1 = insert (c, cd) (cloneDeps N H)"
    using addDependency_cloneDeps[of N c H cd] cdr c Cons.prems(3) by simp
  have rest: "\<forall>d \<in> set ds. d < N \<and> m (nid (h ! d)) \<noteq> None" using Cons.prems(1) by simp
  obtain H' where H': "wireDependencies m (Some c) ds ?H1 = Inr H'" "take N H' = h" "length H' = M"
      "cloneDependents N H' = (cloneDeps N H')\<inverse>"
      "cloneDeps N H' = cloneDeps N ?H1 \<union> {c} \<times> {cd. \<exists>d \<in> set ds. m (nid (h ! d)) = Some cd}"
    using Cons.IH[OF rest t1 l1 s1] by blast
  have w: "wireDependencies m (Some c) (d # ds) H = Inr H'"
    using H'(1) cd Hd by simp
  have "cloneDeps N H' = cloneDeps N H \<union> {c} \<times> {cd. \<exists>d \<in> set (d # ds). m (nid (h ! d)) = Some cd}"
    unfolding H'(5) e1 using cd by auto
  with w H'(2,3,4) show ?case by blast
qed

lemma wireDependencies_covered:
  assumes mr: "\<forall>r \<in> ran m. N \<le> r" and N: "N = length h"
  shows "wireDependencies m co ds H = Inr H' \<Longrightarrow> \<forall>d \<in> set ds. d < N \<Longrightarrow> take N H = h \<Longrightarrow>
    \<forall>c. co = Some c \<longrightarrow> N \<le> c \<Longrightarrow> \<forall>d \<in> set ds. m (nid (h ! d)) \<noteq> None"
proof (induction ds arbitrary: H)
  case Nil
  then show ?case by simp
next
  case (Cons d ds)
  have d: "d < N" using Cons.prems(2) by simp
  have Hd: "H ! d = h ! d" using Cons.prems(3) d N take_nth_eq[of h H d] by simp
  from Cons.prems(1) obtain cd c where cd: "m (nid (H ! d)) = Some cd" and co: "co = Some c"
    and rec: "wireDependencies m co ds (addDependency c cd H) = Inr H'"
    by (auto split: option.splits)
  have "N \<le> cd" using mr cd by (auto simp: ran_def)
  moreover have "N \<le> c" using Cons.prems(4) co by simp
  ultimately have t1: "take N (addDependency c cd H) = h"
    using addDependency_take[of N c cd H] Cons.prems(3) by simp
  have "\<forall>d \<in> set ds. m (nid (h ! d)) \<noteq> None"
    using Cons.IH[OF rec _ t1 Cons.prems(4)] Cons.prems(2) by simp
  then show ?case using cd Hd by simp
qed

lemma shouldInclude_take:
  "take (length h) H = h \<Longrightarrow> n < length h \<Longrightarrow> shouldIncludeNode io H n = shouldIncludeNode io h n"
  using take_nth_eq[of h H n] by (simp add: shouldIncludeNode_def split: option.splits)

lemma includedNodes_Cons:
  "includedNodes h io (n # ns) =
     (if shouldIncludeNode io h n then n # includedNodes h io ns else includedNodes h io ns)"
  by (simp add: includedNodes_def)

lemma fold_cloneEdges_effect:
  assumes cl: "heapClosed h" and N: "N = length h" and mr: "\<forall>r \<in> ran m. N \<le> r \<and> r < M"
  shows "\<forall>p \<in> set ps. hd p < N \<Longrightarrow>
    \<forall>p \<in> set ps. shouldIncludeNode io h (hd p) \<longrightarrow> m (nid (h ! hd p)) \<noteq> None \<Longrightarrow>
    depsCovered m h (set (includedNodes h io (map hd ps))) \<Longrightarrow>
    take N H = h \<Longrightarrow> length H = M \<Longrightarrow> cloneDependents N H = (cloneDeps N H)\<inverse> \<Longrightarrow>
    cloneDeps N H = clonedEdges m h S \<Longrightarrow>
    \<exists>H'. foldCallback (cloneEdgesCallback io m) ps (H, ()) = Some (Inr (H', ())) \<and>
      take N H' = h \<and> length H' = M \<and> cloneDependents N H' = (cloneDeps N H')\<inverse> \<and>
      cloneDeps N H' = clonedEdges m h (S \<union> set (includedNodes h io (map hd ps)))"
proof (induction ps arbitrary: H S)
  case Nil
  then show ?case by (simp add: includedNodes_def)
next
  case (Cons p ps)
  let ?n = "hd p"
  have n: "?n < N" using Cons.prems(1) by simp
  have Hn: "H ! ?n = h ! ?n" using Cons.prems(4) n N take_nth_eq[of h H ?n] by simp
  have inc: "shouldIncludeNode io H ?n = shouldIncludeNode io h ?n"
    using shouldInclude_take[of h H ?n io] Cons.prems(4) n N by simp
  have b1: "\<forall>p \<in> set ps. hd p < N" using Cons.prems(1) by simp
  have b2: "\<forall>p \<in> set ps. shouldIncludeNode io h (hd p) \<longrightarrow> m (nid (h ! hd p)) \<noteq> None"
    using Cons.prems(2) by simp
  show ?case
  proof (cases "shouldIncludeNode io h ?n")
    case False
    have cb: "cloneEdgesCallback io m ?n p (H, ()) = Some (Inr (H, ()))"
      using False inc by (simp add: cloneEdgesCallback_def)
    have i: "includedNodes h io (map hd (p # ps)) = includedNodes h io (map hd ps)"
      using False by (simp add: includedNodes_Cons)
    have "depsCovered m h (set (includedNodes h io (map hd ps)))" using Cons.prems(3) i by simp
    then obtain H' where "foldCallback (cloneEdgesCallback io m) ps (H, ()) = Some (Inr (H', ()))"
      "take N H' = h" "length H' = M" "cloneDependents N H' = (cloneDeps N H')\<inverse>"
      "cloneDeps N H' = clonedEdges m h (S \<union> set (includedNodes h io (map hd ps)))"
      using Cons.IH[OF b1 b2 _ Cons.prems(4,5,6,7)] by blast
    then show ?thesis using cb i by simp
  next
    case True
    then obtain c where c: "m (nid (h ! ?n)) = Some c" using Cons.prems(2) by auto
    have cr: "N \<le> c" "c < M" using mr c by (auto simp: ran_def)
    have i: "includedNodes h io (map hd (p # ps)) = ?n # includedNodes h io (map hd ps)"
      using True by (simp add: includedNodes_Cons)
    have dc: "\<forall>d \<in> set (dependencies (h ! ?n)). d < N \<and> m (nid (h ! d)) \<noteq> None"
      using Cons.prems(3) i closedD2[OF cl, of ?n] n N unfolding depsCovered_def by simp
    obtain H1 where H1: "wireDependencies m (Some c) (dependencies (h ! ?n)) H = Inr H1"
      "take N H1 = h" "length H1 = M" "cloneDependents N H1 = (cloneDeps N H1)\<inverse>"
      "cloneDeps N H1 = cloneDeps N H \<union>
         {c} \<times> {cd. \<exists>d \<in> set (dependencies (h ! ?n)). m (nid (h ! d)) = Some cd}"
      using wireDependencies_effect[OF mr cr N dc Cons.prems(4,5,6)] by blast
    have cb: "cloneEdgesCallback io m ?n p (H, ()) = Some (Inr (H1, ()))"
      using True inc Hn c H1(1) by (simp add: cloneEdgesCallback_def)
    have e1: "cloneDeps N H1 = clonedEdges m h (insert ?n S)"
      unfolding H1(5) Cons.prems(7) clonedEdges_insert using c by auto
    have "depsCovered m h (set (includedNodes h io (map hd ps)))"
      using Cons.prems(3) i unfolding depsCovered_def by simp
    then obtain H' where "foldCallback (cloneEdgesCallback io m) ps (H1, ()) = Some (Inr (H', ()))"
      "take N H' = h" "length H' = M" "cloneDependents N H' = (cloneDeps N H')\<inverse>"
      "cloneDeps N H' = clonedEdges m h (insert ?n S \<union> set (includedNodes h io (map hd ps)))"
      using Cons.IH[OF b1 b2 _ H1(2,3,4) e1] by blast
    then show ?thesis using cb i by simp
  qed
qed

lemma wireDependencies_take:
  "wireDependencies m co ds H = Inr H' \<Longrightarrow> \<forall>r \<in> ran m. N \<le> r \<Longrightarrow>
   \<forall>c. co = Some c \<longrightarrow> N \<le> c \<Longrightarrow> take N H' = take N H"
proof (induction ds arbitrary: H)
  case Nil
  then show ?case by simp
next
  case (Cons d ds)
  from Cons.prems(1) obtain cd c where cd: "m (nid (H ! d)) = Some cd" and co: "co = Some c"
    and rec: "wireDependencies m co ds (addDependency c cd H) = Inr H'"
    by (auto split: option.splits)
  have "N \<le> cd" using Cons.prems(2) cd by (auto simp: ran_def)
  moreover have "N \<le> c" using Cons.prems(3) co by simp
  ultimately have "take N (addDependency c cd H) = take N H" by (rule addDependency_take[rotated])
  then show ?case using Cons.IH[OF rec Cons.prems(2,3)] by simp
qed

lemma fold_cloneEdges_covered:
  assumes cl: "heapClosed h" and N: "N = length h" and mr: "\<forall>r \<in> ran m. N \<le> r"
  shows "foldCallback (cloneEdgesCallback io m) ps (H, u) = Some (Inr s') \<Longrightarrow>
    \<forall>p \<in> set ps. hd p < N \<Longrightarrow> take N H = h \<Longrightarrow>
    depsCovered m h (set (includedNodes h io (map hd ps)))"
proof (induction ps arbitrary: H)
  case Nil
  show ?case by (simp add: includedNodes_def depsCovered_def)
next
  case (Cons p ps)
  let ?n = "hd p"
  have n: "?n < N" using Cons.prems(2) by simp
  have Hn: "H ! ?n = h ! ?n" using Cons.prems(3) n N take_nth_eq[of h H ?n] by simp
  have inc: "shouldIncludeNode io H ?n = shouldIncludeNode io h ?n"
    using shouldInclude_take[of h H ?n io] Cons.prems(3) n N by simp
  have b1: "\<forall>p \<in> set ps. hd p < N" using Cons.prems(2) by simp
  show ?case
  proof (cases "shouldIncludeNode io h ?n")
    case False
    have cb: "cloneEdgesCallback io m ?n p (H, u) = Some (Inr (H, u))"
      using False inc by (simp add: cloneEdgesCallback_def)
    with Cons.prems(1) have "foldCallback (cloneEdgesCallback io m) ps (H, u) = Some (Inr s')"
      by simp
    then show ?thesis
      using Cons.IH[OF _ b1 Cons.prems(3)] False by (simp add: includedNodes_Cons)
  next
    case True
    from Cons.prems(1) obtain s1 where
      cb: "cloneEdgesCallback io m ?n p (H, u) = Some (Inr s1)"
      and rest: "foldCallback (cloneEdgesCallback io m) ps s1 = Some (Inr s')"
      by (auto split: option.splits sum.splits)
    from cb True inc Hn obtain H1 where
      w: "wireDependencies m (m (nid (h ! ?n))) (dependencies (h ! ?n)) H = Inr H1"
      and s1: "s1 = (H1, u)"
      by (auto simp: cloneEdgesCallback_def split: sum.splits)
    have co: "\<forall>c. m (nid (h ! ?n)) = Some c \<longrightarrow> N \<le> c" using mr by (auto simp: ran_def)
    have dl: "\<forall>d \<in> set (dependencies (h ! ?n)). d < N"
      using closedD2[OF cl, of ?n] n N by simp
    have cov: "\<forall>d \<in> set (dependencies (h ! ?n)). m (nid (h ! d)) \<noteq> None"
      using wireDependencies_covered[OF mr N w dl Cons.prems(3) co] .
    have "take N H1 = h" using wireDependencies_take[OF w mr co] Cons.prems(3) by simp
    then have "depsCovered m h (set (includedNodes h io (map hd ps)))"
      using Cons.IH[OF _ b1] rest s1 by simp
    then show ?thesis using cov True unfolding depsCovered_def by (simp add: includedNodes_Cons)
  qed
qed

lemma wireDependencies_error:
  "wireDependencies m co ds H = Inl e \<Longrightarrow> e = TypeError"
  by (induction ds arbitrary: H) (auto split: option.splits)

lemma cloneEdgesCallback_result:
  "cloneEdgesCallback io m n p s \<noteq> None \<and> cloneEdgesCallback io m n p s \<noteq> Some (Inl MissingNode)"
proof (cases s)
  case (Pair H u)
  show ?thesis
  proof (cases "wireDependencies m (m (nid (H ! n))) (dependencies (H ! n)) H")
    case (Inl e)
    then show ?thesis using Pair wireDependencies_error[OF Inl]
      by (simp add: cloneEdgesCallback_def)
  next
    case (Inr H')
    then show ?thesis using Pair by (simp add: cloneEdgesCallback_def)
  qed
qed

lemma fold_cloneEdges_result:
  "foldCallback (cloneEdgesCallback io m) ps s \<noteq> None \<and>
   foldCallback (cloneEdgesCallback io m) ps s \<noteq> Some (Inl MissingNode)"
proof (induction ps arbitrary: s)
  case Nil
  show ?case by simp
next
  case (Cons p ps)
  show ?case
    using cloneEdgesCallback_result[of io m "hd p" p s] Cons.IH
    by (cases "cloneEdgesCallback io m (hd p) p s") (auto split: sum.splits error.splits)
qed

lemma cloneGraph_structure:
  assumes c: "heapClosed h" and t: "this < length h" and rt: "getRootNode h this = Some rt"
    and run: "bfsRun h getDependents {nid (h ! rt)} [[rt]] ps"
    and io: "io = idsToIncludeOf h predicate (map hd ps)"
    and m: "m = cloneMap h io (map hd ps) (length h) Map.empty"
    and incl: "incl = includedNodes h io (map hd ps)"
    and cov: "depsCovered m h (set incl)"
  shows "\<exists>h'. cloneGraph this predicate h = Some (Inr (h', m)) \<and> take (length h) h' = h \<and>
     length h' = length h + length incl \<and> map nid h' = map nid (h @ clonesOf h incl) \<and>
     cloneDependents (length h) h' = (cloneDeps (length h) h')\<inverse> \<and>
     cloneDeps (length h) h' = clonedEdges m h (set incl)"
proof -
  let ?N = "length h"
  let ?h2 = "h @ clonesOf h incl"
  have r: "rt < length h" using getRootNode_bound[OF rt c t] by simp
  have hb: "\<forall>p \<in> set ps. hd p < ?N"
    using bfsRun_heads_bound[where g = getDependents, OF closed_getDependents[OF c] run] r by simp
  have mr: "\<forall>r \<in> ran m. ?N \<le> r \<and> r < ?N + length incl"
    using cloneMap_ran[of h io "map hd ps" "length h" Map.empty] unfolding m incl by auto
  have md: "\<forall>p \<in> set ps. shouldIncludeNode io h (hd p) \<longrightarrow> m (nid (h ! hd p)) \<noteq> None"
  proof (intro ballI impI)
    fix p assume "p \<in> set ps" "shouldIncludeNode io h (hd p)"
    then have "hd p \<in> set (includedNodes h io (map hd ps))" by (simp add: includedNodes_def)
    then have "nid (h ! hd p) \<in> dom m"
      unfolding m cloneMap_dom by blast
    then show "m (nid (h ! hd p)) \<noteq> None" by blast
  qed
  have e0: "cloneDeps ?N ?h2 = {}"
    unfolding cloneDeps_def clonesOf_def by (auto simp: nth_append cloneWithoutRelationships_def)
  have e1: "cloneDependents ?N ?h2 = {}"
    unfolding cloneDependents_def clonesOf_def by (auto simp: nth_append cloneWithoutRelationships_def)
  have e2: "cloneDeps ?N ?h2 = clonedEdges m h {}" unfolding e0 clonedEdges_def by simp
  have e3: "cloneDependents ?N ?h2 = (cloneDeps ?N ?h2)\<inverse>" unfolding e0 e1 by simp
  obtain H' where H': "foldCallback (cloneEdgesCallback io m) ps (?h2, ()) = Some (Inr (H', ()))"
    "take ?N H' = h" "length H' = ?N + length incl" "cloneDependents ?N H' = (cloneDeps ?N H')\<inverse>"
    "cloneDeps ?N H' = clonedEdges m h ({} \<union> set (includedNodes h io (map hd ps)))"
    using fold_cloneEdges_effect[OF c refl mr hb md _ _ _ e3 e2] cov
    unfolding incl by (auto simp: clonesOf_def)
  have ids: "map nid (fst s') = map nid ?h2"
    if "foldCallback (cloneEdgesCallback io m) ps (?h2, ()) = Some (Inr s')" for s'
  proof (rule foldCallback_invariant[where J = "\<lambda>s. map nid (fst s) = map nid ?h2"
        and callback = "cloneEdgesCallback io m" and N = ?N and ps = ps and s = "(?h2, ())"])
    show "map nid (fst s') = map nid ?h2"
      if "map nid (fst s) = map nid ?h2" "cloneEdgesCallback io m n p s = Some (Inr s')"
      for n p s s'
      using cloneEdges_nid[OF that(2)] that(1) by simp
    show "\<forall>p \<in> set ps. hd p < ?N" by (rule hb)
    show "map nid (fst (?h2, ())) = map nid ?h2" by simp
    show "foldCallback (cloneEdgesCallback io m) ps (?h2, ()) = Some (Inr s')" by (rule that)
  qed
  have "cloneGraph this predicate h = Some (Inr (H', m))"
    using cloneGraph_eq[OF c t rt run, of predicate] H'(1) unfolding io m incl
    by (simp add: andThen_def)
  then show ?thesis using H' ids[OF H'(1)] unfolding incl by auto
qed

lemma cloneGraph_uncovered:
  assumes c: "heapClosed h" and t: "this < length h" and rt: "getRootNode h this = Some rt"
    and run: "bfsRun h getDependents {nid (h ! rt)} [[rt]] ps"
    and io: "io = idsToIncludeOf h predicate (map hd ps)"
    and m: "m = cloneMap h io (map hd ps) (length h) Map.empty"
    and incl: "incl = includedNodes h io (map hd ps)"
    and cov: "\<not> depsCovered m h (set incl)"
  shows "cloneGraph this predicate h = Some (Inl TypeError)"
proof -
  let ?h2 = "h @ clonesOf h incl"
  have r: "rt < length h" using getRootNode_bound[OF rt c t] by simp
  have hb: "\<forall>p \<in> set ps. hd p < length h"
    using bfsRun_heads_bound[where g = getDependents, OF closed_getDependents[OF c] run] r by simp
  have mr: "\<forall>r \<in> ran m. length h \<le> r"
    using cloneMap_ran[of h io "map hd ps" "length h" Map.empty] unfolding m by auto
  have t2: "take (length h) ?h2 = h" by simp
  have "foldCallback (cloneEdgesCallback io m) ps (?h2, ()) \<noteq> Some (Inr s')" for s'
    using fold_cloneEdges_covered[OF c refl mr _ hb t2, of io "()" s'] cov unfolding incl by blast
  then have "foldCallback (cloneEdgesCallback io m) ps (?h2, ()) = Some (Inl TypeError)"
    using fold_cloneEdges_result[of io m ps "(?h2, ())"]
  proof (cases "foldCallback (cloneEdgesCallback io m) ps (?h2, ())")
    case None
    then show ?thesis using fold_cloneEdges_result[of io m ps "(?h2, ())"] by simp
  next
    case (Some a)
    assume n: "\<And>s'. foldCallback (cloneEdgesCallback io m) ps (?h2, ()) \<noteq> Some (Inr s')"
    show ?thesis
    proof (cases a)
      case (Inl e)
      then show ?thesis using Some fold_cloneEdges_result[of io m ps "(?h2, ())"]
        by (cases e) simp_all
    next
      case (Inr s')
      then show ?thesis using Some n by simp
    qed
  qed
  then show ?thesis
    using cloneGraph_eq[OF c t rt run, of predicate] unfolding io m incl
    by (simp add: andThen_def)
qed

section \<open>Edge symmetry over the states that the code builds\<close>

lemma closed_append_new:
  assumes c: "heapClosed h" and n: "dependents n = []" "dependencies n = []"
  shows "heapClosed (h @ [n])"
proof (rule closedI)
  fix i r assume i: "i < length (h @ [n])" and r: "r \<in> set (dependents ((h @ [n]) ! i))"
  show "r < length (h @ [n])"
  proof (cases "i < length h")
    case True
    then have "r < length h" using r closedD1[OF c True, of r] by (simp add: nth_append)
    then show ?thesis by simp
  next
    case False
    then have "i = length h" using i by simp
    then show ?thesis using r n by simp
  qed
next
  fix i r assume i: "i < length (h @ [n])" and r: "r \<in> set (dependencies ((h @ [n]) ! i))"
  show "r < length (h @ [n])"
  proof (cases "i < length h")
    case True
    then have "r < length h" using r closedD2[OF c True, of r] by (simp add: nth_append)
    then show ?thesis by simp
  next
    case False
    then have "i = length h" using i by simp
    then show ?thesis using r n by simp
  qed
qed

lemma edgeCountsAgree_append_new:
  assumes c: "heapClosed h" and e: "edgeCountsAgree h"
    and n: "dependents n = []" "dependencies n = []"
  shows "edgeCountsAgree (h @ [n])"
  unfolding edgeCountsAgree_def
proof (intro allI impI)
  fix a b assume a: "a < length (h @ [n])" and b: "b < length (h @ [n])"
  show "count_list (dependents ((h @ [n]) ! b)) a = count_list (dependencies ((h @ [n]) ! a)) b"
  proof (cases "a < length h")
    case al: True
    show ?thesis
    proof (cases "b < length h")
      case True
      then show ?thesis using al e by (simp add: nth_append edgeCountsAgree_def)
    next
      case False
      then have bl: "b = length h" using b by simp
      have "b \<notin> set (dependencies (h ! a))" using closedD2[OF c al, of b] bl by auto
      then show ?thesis using al bl n by (simp add: nth_append count_list_zero_iff)
    qed
  next
    case False
    then have al: "a = length h" using a by simp
    show ?thesis
    proof (cases "b < length h")
      case True
      have "a \<notin> set (dependents (h ! b))" using closedD1[OF c True, of a] al by auto
      then show ?thesis using al True n by (simp add: nth_append count_list_zero_iff)
    next
      case False
      then have "b = length h" using b by simp
      then show ?thesis using al n by simp
    qed
  qed
qed

lemma setIsMainDocument_dependents:
  "dependents (setIsMainDocument this v h ! i) = dependents (h ! i)"
  by (cases "this < length h"; cases "i = this")
     (simp_all add: setIsMainDocument_def list_update_beyond)

lemma setIsMainDocument_dependencies:
  "dependencies (setIsMainDocument this v h ! i) = dependencies (h ! i)"
  by (cases "this < length h"; cases "i = this")
     (simp_all add: setIsMainDocument_def list_update_beyond)

lemma length_setIsMainDocument [simp]: "length (setIsMainDocument this v h) = length h"
  by (simp add: setIsMainDocument_def)

lemma closed_removeAllDependencies:
  assumes "heapClosed h" "edgeCountsAgree h" "this < length h"
  shows "heapClosed (removeAllDependencies this h) \<and> edgeCountsAgree (removeAllDependencies this h)"
proof -
  have "\<forall>m \<in> set (dependencies (h ! this)). m < length h"
    using assms(1,3) closedD2 by blast
  then show ?thesis
    using assms removeAll_fold_invariant[of h this "dependencies (h ! this)"]
    by (simp add: removeAllDependencies_def)
qed

lemma built_invariant: "built h \<Longrightarrow> heapClosed h \<and> edgeCountsAgree h"
proof (induction rule: built.induct)
  case builtEmpty
  show ?case by (simp add: heapClosed_def edgeCountsAgree_def)
next
  case (builtNew h n)
  then show ?case using closed_append_new[of h n] edgeCountsAgree_append_new[of h n] by simp
next
  case (builtSetIsMainDocument h this v)
  have c: "heapClosed h" and e: "edgeCountsAgree h" using builtSetIsMainDocument.IH by simp_all
  have "heapClosed (setIsMainDocument this v h)"
  proof (rule closedI)
    fix i r assume "i < length (setIsMainDocument this v h)"
      "r \<in> set (dependents (setIsMainDocument this v h ! i))"
    then show "r < length (setIsMainDocument this v h)"
      using closedD1[OF c, of i r] by (simp add: setIsMainDocument_dependents)
  next
    fix i r assume "i < length (setIsMainDocument this v h)"
      "r \<in> set (dependencies (setIsMainDocument this v h ! i))"
    then show "r < length (setIsMainDocument this v h)"
      using closedD2[OF c, of i r] by (simp add: setIsMainDocument_dependencies)
  qed
  moreover have "edgeCountsAgree (setIsMainDocument this v h)"
    using e unfolding edgeCountsAgree_def
    by (simp add: setIsMainDocument_dependents setIsMainDocument_dependencies)
  ultimately show ?case by simp
next
  case (builtAddDependency h this n)
  then show ?case by (simp add: closed_addDependency edgeCountsAgree_addDependency)
next
  case (builtAddDependent h this n)
  then show ?case
    by (simp add: addDependent_def closed_addDependency edgeCountsAgree_addDependency)
next
  case (builtRemoveDependency h this n)
  then show ?case by (simp add: closed_removeDependency edgeCountsAgree_removeDependency)
next
  case (builtRemoveDependent h this n)
  then show ?case
    by (simp add: removeDependent_def closed_removeDependency edgeCountsAgree_removeDependency)
next
  case (builtRemoveAllDependencies h this)
  then show ?case using closed_removeAllDependencies[of h this] by simp
qed

lemma duplicateEdgeHeap_not_built: "\<not> built duplicateEdgeHeap"
proof
  assume "built duplicateEdgeHeap"
  then have e: "edgeCountsAgree duplicateEdgeHeap" using built_invariant by blast
  have l: "0 < length duplicateEdgeHeap" "1 < length duplicateEdgeHeap"
    by (simp_all add: duplicateEdgeHeap_def)
  have "count_list (dependents (duplicateEdgeHeap ! 1)) 0 =
      count_list (dependencies (duplicateEdgeHeap ! 0)) 1"
    using e[unfolded edgeCountsAgree_def, rule_format, OF l] .
  then show False by (simp add: duplicateEdgeHeap_def)
qed

lemma built_chainABCX: "built chainABCX"
proof -
  let ?h0 = "[] @ [BaseNode ''A''] @ [BaseNode ''B''] @ [BaseNode ''C''] @ [BaseNode ''X'']"
  have 0: "built ([] :: node list)" by (rule builtEmpty)
  have 1: "built ([] @ [BaseNode ''A''])"
    by (rule builtNew[OF 0]) (simp_all add: BaseNode_def)
  have 2: "built (([] @ [BaseNode ''A'']) @ [BaseNode ''B''])"
    by (rule builtNew[OF 1]) (simp_all add: BaseNode_def)
  have 3: "built ((([] @ [BaseNode ''A'']) @ [BaseNode ''B'']) @ [BaseNode ''C''])"
    by (rule builtNew[OF 2]) (simp_all add: BaseNode_def)
  have 4: "built (((([] @ [BaseNode ''A'']) @ [BaseNode ''B'']) @ [BaseNode ''C'']) @ [BaseNode ''X''])"
    by (rule builtNew[OF 3]) (simp_all add: BaseNode_def)
  let ?h4 = "[BaseNode ''A'', BaseNode ''B'', BaseNode ''C'', BaseNode ''X'']"
  have b4: "built ?h4" using 4 by simp
  have 5: "built (addDependency 1 0 ?h4)" by (rule builtAddDependency[OF b4]) simp_all
  have 6: "built (addDependency 2 1 (addDependency 1 0 ?h4))"
    by (rule builtAddDependency[OF 5]) simp_all
  have 7: "built (addDependency 3 2 (addDependency 2 1 (addDependency 1 0 ?h4)))"
    by (rule builtAddDependency[OF 6]) simp_all
  have "addDependency 3 2 (addDependency 2 1 (addDependency 1 0 ?h4)) = chainABCX"
    by (simp add: addDependency_def BaseNode_def chainABCX_def Let_def)
  then show ?thesis using 7 by simp
qed

section \<open>Duplicate ids\<close>

lemma bfsRun_queue_called: "bfsRun h g visited queue ps \<Longrightarrow> set queue \<subseteq> set ps"
proof (induction rule: bfsRun.induct)
  case (bfsDone visited)
  show ?case by simp
next
  case (bfsStep n t visited rest visited' queue' ps)
  have q: "queue' = rest @ map (\<lambda>m. m # n # t) (freshNodes h (g h n) visited)"
    using bfsStep.hyps(1) by (simp add: enqueue_eq)
  have "set rest \<subseteq> set queue'" unfolding q by simp
  then show ?case using bfsStep.IH by auto
qed

lemma bfsRun_next_ids:
  "bfsRun h g visited queue ps \<Longrightarrow>
   \<forall>p \<in> set ps. \<forall>m \<in> set (g h (hd p)).
     nid (h ! m) \<in> visited \<union> (\<lambda>q. nid (h ! hd q)) ` set ps"
proof (induction rule: bfsRun.induct)
  case (bfsDone visited)
  show ?case by simp
next
  case (bfsStep n t visited rest visited' queue' ps)
  have q: "queue' = rest @ map (\<lambda>m. m # n # t) (freshNodes h (g h n) visited)"
    and v: "visited' = visited \<union> (\<lambda>m. nid (h ! m)) ` set (g h n)"
    using bfsStep.hyps(1) by (simp_all add: enqueue_eq)
  have fresh: "i \<in> visited \<union> (\<lambda>q. nid (h ! hd q)) ` set ps"
    if "i \<in> (\<lambda>m. nid (h ! m)) ` set (g h n)" for i
  proof (cases "i \<in> visited")
    case True
    then show ?thesis by simp
  next
    case False
    then have "i \<in> (\<lambda>m. nid (h ! m)) ` set (freshNodes h (g h n) visited)"
      using that unfolding freshNodes_ids by simp
    then obtain f where f: "f \<in> set (freshNodes h (g h n) visited)" "i = nid (h ! f)" by blast
    have "f # n # t \<in> set queue'" unfolding q using f(1) by simp
    then have "f # n # t \<in> set ps" using bfsRun_queue_called[OF bfsStep.hyps(2)] by blast
    then have "nid (h ! hd (f # n # t)) \<in> (\<lambda>q. nid (h ! hd q)) ` set ps" by (rule imageI)
    then show ?thesis using f(2) by simp
  qed
  show ?case
  proof (intro ballI)
    fix p m assume p: "p \<in> set ((n # t) # ps)" and m: "m \<in> set (g h (hd p))"
    have "nid (h ! m) \<in> visited \<union> (\<lambda>q. nid (h ! hd q)) ` set ps"
    proof (cases "p = n # t")
      case True
      then have "nid (h ! m) \<in> (\<lambda>m. nid (h ! m)) ` set (g h n)" using m by simp
      then show ?thesis by (rule fresh)
    next
      case False
      then have "p \<in> set ps" using p by simp
      then have "nid (h ! m) \<in> visited' \<union> (\<lambda>q. nid (h ! hd q)) ` set ps"
        using bfsStep.IH m by blast
      then show ?thesis unfolding v using fresh by blast
    qed
    then show "nid (h ! m) \<in> visited \<union> (\<lambda>q. nid (h ! hd q)) ` set ((n # t) # ps)" by auto
  qed
qed

lemma bfsRun_start_first:
  assumes "bfsRun h g {nid (h ! start)} [[start]] ps"
  shows "ps \<noteq> [] \<and> hd ps = [start]"
  using assms by (rule bfsRun_ConsE) simp

lemma bfsRun_start_next_ids:
  assumes run: "bfsRun h g {nid (h ! start)} [[start]] ps"
  shows "\<forall>p \<in> set ps. \<forall>m \<in> set (g h (hd p)). nid (h ! m) \<in> (\<lambda>q. nid (h ! hd q)) ` set ps"
proof -
  have "[start] \<in> set ps" using bfsRun_queue_called[OF run] by simp
  then have "nid (h ! hd [start]) \<in> (\<lambda>q. nid (h ! hd q)) ` set ps" by (rule imageI)
  then have "{nid (h ! start)} \<subseteq> (\<lambda>q. nid (h ! hd q)) ` set ps" by simp
  then show ?thesis using bfsRun_next_ids[OF run] by blast
qed

lemma fold_snoc_hd: "fold (\<lambda>p x. x @ [hd p]) ps acc = acc @ map hd ps"
  by (induction ps arbitrary: acc) simp_all

lemma traverse_nodes:
  assumes run: "bfsRun h g {nid (h ! start)} [[start]] ps"
  shows "traverse start (readOnlyCallback (\<lambda>n p x. x @ [n])) g (h, []) =
     Some (Inr (h, map hd ps))"
  using bfsRun_readOnly[OF run, of "\<lambda>n p x. x @ [n]" "[]"]
  by (simp add: traverse_def fold_snoc_hd)

lemma built_dupCrash: "built dupCrash"
proof -
  have 0: "built ([] :: node list)" by (rule builtEmpty)
  have 1: "built ([] @ [BaseNode ''r''])"
    by (rule builtNew[OF 0]) (simp_all add: BaseNode_def)
  have 2: "built (([] @ [BaseNode ''r'']) @ [BaseNode ''a''])"
    by (rule builtNew[OF 1]) (simp_all add: BaseNode_def)
  have 3: "built ((([] @ [BaseNode ''r'']) @ [BaseNode ''a'']) @ [BaseNode ''a''])"
    by (rule builtNew[OF 2]) (simp_all add: BaseNode_def)
  have 4: "built (((([] @ [BaseNode ''r'']) @ [BaseNode ''a'']) @ [BaseNode ''a'']) @ [BaseNode ''x''])"
    by (rule builtNew[OF 3]) (simp_all add: BaseNode_def)
  let ?h4 = "[BaseNode ''r'', BaseNode ''a'', BaseNode ''a'', BaseNode ''x'']"
  have b4: "built ?h4" using 4 by simp
  have 5: "built (addDependency 1 0 ?h4)" by (rule builtAddDependency[OF b4]) simp_all
  have 6: "built (addDependency 2 0 (addDependency 1 0 ?h4))"
    by (rule builtAddDependency[OF 5]) simp_all
  have 7: "built (addDependency 3 2 (addDependency 2 0 (addDependency 1 0 ?h4)))"
    by (rule builtAddDependency[OF 6]) simp_all
  have 8: "built (addDependency 1 3 (addDependency 3 2 (addDependency 2 0 (addDependency 1 0 ?h4))))"
    by (rule builtAddDependency[OF 7]) simp_all
  have "addDependency 1 3 (addDependency 3 2 (addDependency 2 0 (addDependency 1 0 ?h4))) = dupCrash"
    by (simp add: addDependency_def BaseNode_def dupCrash_def Let_def)
  then show ?thesis using 8 by simp
qed

text \<open>
  C10, as stated: when two distinct reachable nodes share an id, the clone map of
  \<open>cloneWithRelationships\<close> holds a single clone for that id and the duplicates are
  merged silently. They are not always: in the graph \<open>dupCrash\<close>, which the edge
  operations build, both nodes of id \<open>a\<close> are dependents of the root; the traversal
  skips the second, so \<open>x\<close>, which is reached through it only, is never cloned, and
  wiring the first node's dependency on \<open>x\<close> throws a TypeError.
\<close>

theorem C10_duplicates_not_merged_silently:
  "built dupCrash \<and> symmetricEdges dupCrash \<and>
   set (dependents (dupCrash ! 0)) = {1, 2} \<and> nid (dupCrash ! 1) = nid (dupCrash ! 2) \<and>
   traverse 0 (readOnlyCallback (\<lambda>n p x. x @ [n])) getDependents (dupCrash, []) =
     Some (Inr (dupCrash, [0, 1])) \<and>
   cloneWithRelationships 0 None dupCrash = Some (Inl TypeError)"
proof -
  have s: "symmetricEdges dupCrash"
    using built_invariant[OF built_dupCrash] edgeCountsAgree_symmetric by blast
  have d: "set (dependents (dupCrash ! 0)) = {1, 2}" "nid (dupCrash ! 1) = nid (dupCrash ! 2)"
    by (simp_all add: dupCrash_def)
  have t: "traverse 0 (readOnlyCallback (\<lambda>n p x. x @ [n])) getDependents (dupCrash, []) =
     Some (Inr (dupCrash, [0, 1]))"
    by (simp add: traverse_eval readOnlyCallback_def dupCrash_def)
  have c: "cloneWithRelationships 0 None dupCrash = Some (Inl TypeError)"
    by (simp add: traverse_eval clone_eval dupCrash_def)
  show ?thesis using built_dupCrash s d t c by simp
qed

text \<open>
  C10, amended. \<open>traverse\<close> and \<open>cloneWithRelationships\<close> identify nodes by id.
  \<open>traverse\<close> returns, and the nodes it calls back on are the start node first and
  then exactly one node for each id that a next node of a node called back on carries:
  they have pairwise distinct ids, so of two distinct nodes with the same id at most one
  is called back on. \<open>cloneWithRelationships\<close>, once \<open>getRootNode\<close> has returned
  the root, traverses from it; the included nodes are the nodes called back on whose id
  is in the inclusion set (all of them without a predicate). When every dependency of an
  included node carries the id of an included node, the three passes return the input
  nodes unchanged, followed by exactly one clone for each included node, in the order of
  the traversal and with the same id, and a clone map whose keys are these ids, each
  mapped to the one clone with that id. Otherwise the call throws a TypeError: a node that
  is reached only through a skipped duplicate has no clone to be wired to. (When
  \<open>getRootNode\<close> does not return, on a cycle of first dependencies, neither does
  \<open>cloneWithRelationships\<close>.)
\<close>

theorem C10_one_call_and_one_clone_per_id:
  assumes "heapClosed h" and "this < length h"
    and "\<forall>n < length h. \<forall>m \<in> set (getNextNodes h n). m < length h"
  shows
   "(\<exists>calls.
       (\<forall>f x. traverse this (readOnlyCallback f) getNextNodes (h, x) =
          Some (Inr (h, fold (\<lambda>(n, p). f n p) calls x))) \<and>
       calls \<noteq> [] \<and> fst (hd calls) = this \<and>
       (\<forall>a b. a \<in> fst ` set calls \<and> b \<in> fst ` set calls \<and> nid (h ! a) = nid (h ! b) \<longrightarrow> a = b) \<and>
       (\<forall>n \<in> fst ` set calls. \<forall>m \<in> set (getNextNodes h n).
          \<exists>k \<in> fst ` set calls. nid (h ! k) = nid (h ! m))) \<and>
    (\<forall>rt. getRootNode h this = Some rt \<longrightarrow>
       (\<exists>ns io.
          traverse rt (readOnlyCallback (\<lambda>n p x. x @ [n])) getDependents (h, []) =
            Some (Inr (h, ns)) \<and>
          computeIdsToInclude rt predicate h = Some (Inr (h, io)) \<and>
          distinct (map (\<lambda>n. nid (h ! n)) ns) \<and>
          (if \<forall>n \<in> set (includedNodes h io ns). \<forall>d \<in> set (dependencies (h ! n)).
                nid (h ! d) \<in> (\<lambda>n. nid (h ! n)) ` set (includedNodes h io ns)
           then \<exists>h' m. cloneGraph this predicate h = Some (Inr (h', m)) \<and>
                  take (length h) h' = h \<and>
                  map nid (drop (length h) h') = map (\<lambda>n. nid (h ! n)) (includedNodes h io ns) \<and>
                  dom m = (\<lambda>n. nid (h ! n)) ` set (includedNodes h io ns) \<and>
                  (\<forall>r. length h \<le> r \<and> r < length h' \<longrightarrow> m (nid (h' ! r)) = Some r)
           else cloneGraph this predicate h = Some (Inl TypeError) \<and>
                cloneWithRelationships this predicate h = Some (Inl TypeError)))) \<and>
    (getRootNode h this = None \<longrightarrow> cloneWithRelationships this predicate h = None)"
proof (intro conjI allI impI)
  assume "getRootNode h this = None"
  then show "cloneWithRelationships this predicate h = None"
    by (simp add: cloneWithRelationships_def cloneGraph_def andThen_def)
next
  obtain ps where run: "bfsRun h getNextNodes {nid (h ! this)} [[this]] ps"
    using bfsRun_start[where g = getNextNodes, OF assms(3) assms(2)] by blast
  let ?calls = "map (\<lambda>p. (hd p, p)) ps"
  have fc: "fst ` set ?calls = set (map hd ps)" by force
  have 1: "\<forall>f x. traverse this (readOnlyCallback f) getNextNodes (h, x) =
        Some (Inr (h, fold (\<lambda>(n, p). f n p) ?calls x))"
  proof (intro allI)
    fix f :: "ref \<Rightarrow> ref list \<Rightarrow> 'c \<Rightarrow> 'c" and x
    have "fold (\<lambda>(n, p). f n p) ?calls x = fold (\<lambda>p. f (hd p) p) ps x"
      by (simp add: fold_map comp_def)
    then show "traverse this (readOnlyCallback f) getNextNodes (h, x) =
        Some (Inr (h, fold (\<lambda>(n, p). f n p) ?calls x))"
      using bfsRun_readOnly[OF run, of f x] by (simp add: traverse_def)
  qed
  have st: "ps \<noteq> []" "hd ps = [this]" using bfsRun_start_first[OF run] by simp_all
  have 2: "?calls \<noteq> []" using st by simp
  have 3: "fst (hd ?calls) = this" using st by (simp add: hd_map)
  have d: "distinct (map (\<lambda>n. nid (h ! n)) (map hd ps))"
    using bfsRun_start_distinct_ids[OF run] by (simp add: comp_def)
  have 4: "\<forall>a b. a \<in> fst ` set ?calls \<and> b \<in> fst ` set ?calls \<and> nid (h ! a) = nid (h ! b) \<longrightarrow> a = b"
  proof (intro allI impI)
    fix a b
    assume ab: "a \<in> fst ` set ?calls \<and> b \<in> fst ` set ?calls \<and> nid (h ! a) = nid (h ! b)"
    then have "a \<in> set (map hd ps)" "b \<in> set (map hd ps)" unfolding fc by simp_all
    moreover have "inj_on (\<lambda>n. nid (h ! n)) (set (map hd ps))"
      using d by (simp only: distinct_map)
    ultimately show "a = b" using ab by (meson inj_onD)
  qed
  have 5: "\<forall>n \<in> fst ` set ?calls. \<forall>m \<in> set (getNextNodes h n).
      \<exists>k \<in> fst ` set ?calls. nid (h ! k) = nid (h ! m)"
  proof (intro ballI)
    fix n m assume "n \<in> fst ` set ?calls" and m: "m \<in> set (getNextNodes h n)"
    then obtain p where p: "p \<in> set ps" "n = hd p" unfolding fc by auto
    have "nid (h ! m) \<in> (\<lambda>q. nid (h ! hd q)) ` set ps"
      using bfsRun_start_next_ids[OF run] p m by blast
    then obtain q where "q \<in> set ps" "nid (h ! m) = nid (h ! hd q)" by blast
    then have "hd q \<in> set (map hd ps)" "nid (h ! hd q) = nid (h ! m)" by simp_all
    then show "\<exists>k \<in> fst ` set ?calls. nid (h ! k) = nid (h ! m)" unfolding fc by blast
  qed
  show "\<exists>calls.
       (\<forall>f x. traverse this (readOnlyCallback f) getNextNodes (h, x) =
          Some (Inr (h, fold (\<lambda>(n, p). f n p) calls x))) \<and>
       calls \<noteq> [] \<and> fst (hd calls) = this \<and>
       (\<forall>a b. a \<in> fst ` set calls \<and> b \<in> fst ` set calls \<and> nid (h ! a) = nid (h ! b) \<longrightarrow> a = b) \<and>
       (\<forall>n \<in> fst ` set calls. \<forall>m \<in> set (getNextNodes h n).
          \<exists>k \<in> fst ` set calls. nid (h ! k) = nid (h ! m))"
    by (intro exI[of _ ?calls] conjI) (rule 1 2 3 4 5)+
next
  fix rt assume rt: "getRootNode h this = Some rt"
  let ?N = "length h"
  have r: "rt < length h" using getRootNode_bound[OF rt assms(1,2)] by simp
  obtain ps where run: "bfsRun h getDependents {nid (h ! rt)} [[rt]] ps"
    using bfsRun_start[where g = getDependents, OF closed_getDependents[OF assms(1)] r] by blast
  define ns where "ns = map hd ps"
  define io where "io = idsToIncludeOf h predicate (map hd ps)"
  define m where "m = cloneMap h io (map hd ps) (length h) Map.empty"
  define incl where "incl = includedNodes h io (map hd ps)"
  have i: "includedNodes h io ns = incl" by (simp add: incl_def ns_def)
  have a: "traverse rt (readOnlyCallback (\<lambda>n p x. x @ [n])) getDependents (h, []) =
      Some (Inr (h, ns))"
    unfolding ns_def by (rule traverse_nodes[OF run])
  have b: "computeIdsToInclude rt predicate h = Some (Inr (h, io))"
    unfolding io_def by (rule computeIds_eq[OF assms(1) r run])
  have c: "distinct (map (\<lambda>n. nid (h ! n)) ns)"
    unfolding ns_def using bfsRun_start_distinct_ids[OF run] by (simp add: comp_def)
  have dm: "dom m = (\<lambda>n. nid (h ! n)) ` set incl"
    unfolding m_def incl_def cloneMap_dom by simp
  have cov: "depsCovered m h (set incl) =
      (\<forall>n \<in> set incl. \<forall>d \<in> set (dependencies (h ! n)). nid (h ! d) \<in> (\<lambda>n. nid (h ! n)) ` set incl)"
    unfolding depsCovered_def dm[symmetric] by blast
  have e: "if \<forall>n \<in> set incl. \<forall>d \<in> set (dependencies (h ! n)).
                nid (h ! d) \<in> (\<lambda>n. nid (h ! n)) ` set incl
           then \<exists>h' m. cloneGraph this predicate h = Some (Inr (h', m)) \<and>
                  take (length h) h' = h \<and>
                  map nid (drop (length h) h') = map (\<lambda>n. nid (h ! n)) incl \<and>
                  dom m = (\<lambda>n. nid (h ! n)) ` set incl \<and>
                  (\<forall>r. length h \<le> r \<and> r < length h' \<longrightarrow> m (nid (h' ! r)) = Some r)
           else cloneGraph this predicate h = Some (Inl TypeError) \<and>
                cloneWithRelationships this predicate h = Some (Inl TypeError)"
  proof (cases "depsCovered m h (set incl)")
    case True
    obtain h' where h': "cloneGraph this predicate h = Some (Inr (h', m))" "take ?N h' = h"
      "map nid h' = map nid (h @ clonesOf h incl)"
      using cloneGraph_structure[OF assms(1,2) rt run io_def m_def incl_def True] by blast
    have "map nid (drop ?N h') = drop ?N (map nid h')" by (simp add: drop_map)
    also have "\<dots> = map nid (clonesOf h incl)" unfolding h'(3) by simp
    also have "\<dots> = map (\<lambda>n. nid (h ! n)) incl"
      by (simp add: clonesOf_def cloneWithoutRelationships_def comp_def)
    finally have ids: "map nid (drop ?N h') = map (\<lambda>n. nid (h ! n)) incl" .
    have one: "\<forall>r. length h \<le> r \<and> r < length h' \<longrightarrow> m (nid (h' ! r)) = Some r"
      using cloneGraph_ids[OF assms(1,2) h'(1)] by blast
    have "\<exists>h' m. cloneGraph this predicate h = Some (Inr (h', m)) \<and>
                  take (length h) h' = h \<and>
                  map nid (drop (length h) h') = map (\<lambda>n. nid (h ! n)) incl \<and>
                  dom m = (\<lambda>n. nid (h ! n)) ` set incl \<and>
                  (\<forall>r. length h \<le> r \<and> r < length h' \<longrightarrow> m (nid (h' ! r)) = Some r)"
      by (intro exI[of _ h'] exI[of _ m] conjI) (rule h'(1) h'(2) ids dm one)+
    then show ?thesis using True cov by simp
  next
    case False
    have g: "cloneGraph this predicate h = Some (Inl TypeError)"
      by (rule cloneGraph_uncovered[OF assms(1,2) rt run io_def m_def incl_def False])
    then have "cloneWithRelationships this predicate h = Some (Inl TypeError)"
      by (simp add: cloneWithRelationships_def andThen_def)
    then show ?thesis using g False cov by simp
  qed
  show "\<exists>ns io.
          traverse rt (readOnlyCallback (\<lambda>n p x. x @ [n])) getDependents (h, []) =
            Some (Inr (h, ns)) \<and>
          computeIdsToInclude rt predicate h = Some (Inr (h, io)) \<and>
          distinct (map (\<lambda>n. nid (h ! n)) ns) \<and>
          (if \<forall>n \<in> set (includedNodes h io ns). \<forall>d \<in> set (dependencies (h ! n)).
                nid (h ! d) \<in> (\<lambda>n. nid (h ! n)) ` set (includedNodes h io ns)
           then \<exists>h' m. cloneGraph this predicate h = Some (Inr (h', m)) \<and>
                  take (length h) h' = h \<and>
                  map nid (drop (length h) h') = map (\<lambda>n. nid (h ! n)) (includedNodes h io ns) \<and>
                  dom m = (\<lambda>n. nid (h ! n)) ` set (includedNodes h io ns) \<and>
                  (\<forall>r. length h \<le> r \<and> r < length h' \<longrightarrow> m (nid (h' ! r)) = Some r)
           else cloneGraph this predicate h = Some (Inl TypeError) \<and>
                cloneWithRelationships this predicate h = Some (Inl TypeError))"
    unfolding i
    by (intro exI[of _ ns] exI[of _ io] conjI) (rule a b c e[folded i] e)+
qed

theorem C10_one_call_and_one_clone_per_id_witness:
  "heapClosed duplicateIdHeap \<and> 0 < length duplicateIdHeap \<and>
   nid (duplicateIdHeap ! 1) = nid (duplicateIdHeap ! 2) \<and>
   getRootNode duplicateIdHeap 0 = Some 0 \<and>
   traverse 0 (readOnlyCallback (\<lambda>n p x. x @ [n])) getDependents (duplicateIdHeap, []) =
     Some (Inr (duplicateIdHeap, [0, 1])) \<and>
   cloneGraph 0 None duplicateIdHeap =
     Some (Inr (clonedDuplicateIdHeap, [''r'' \<mapsto> 3, ''a'' \<mapsto> 4])) \<and>
   map nid (drop (length duplicateIdHeap) clonedDuplicateIdHeap) = [''r'', ''a''] \<and>
   take (length duplicateIdHeap) clonedDuplicateIdHeap = duplicateIdHeap"
proof -
  let ?h = duplicateIdHeap
  have c: "heapClosed ?h" by (simp add: heapClosed_def duplicateIdHeap_def)
  have l: "0 < length ?h" by (simp add: duplicateIdHeap_def)
  have e: "nid (?h ! 1) = nid (?h ! 2)" by (simp add: duplicateIdHeap_def)
  have rt: "getRootNode ?h 0 = Some 0"
    by (subst getRootNode.simps) (simp add: duplicateIdHeap_def)
  note T = C10_one_call_and_one_clone_per_id[where getNextNodes = getDependents
      and predicate = None, OF c l closed_getDependents[OF c], THEN conjunct2, THEN conjunct1,
      rule_format, OF rt]
  from T obtain ns io where
    1: "traverse 0 (readOnlyCallback (\<lambda>n p x. x @ [n])) getDependents (?h, []) = Some (Inr (?h, ns))"
    and 2: "computeIdsToInclude 0 None ?h = Some (Inr (?h, io))"
    and 3: "if \<forall>n \<in> set (includedNodes ?h io ns). \<forall>d \<in> set (dependencies (?h ! n)).
                nid (?h ! d) \<in> (\<lambda>n. nid (?h ! n)) ` set (includedNodes ?h io ns)
           then \<exists>h' m. cloneGraph 0 None ?h = Some (Inr (h', m)) \<and>
                  take (length ?h) h' = ?h \<and>
                  map nid (drop (length ?h) h') = map (\<lambda>n. nid (?h ! n)) (includedNodes ?h io ns) \<and>
                  dom m = (\<lambda>n. nid (?h ! n)) ` set (includedNodes ?h io ns) \<and>
                  (\<forall>r. length ?h \<le> r \<and> r < length h' \<longrightarrow> m (nid (h' ! r)) = Some r)
           else cloneGraph 0 None ?h = Some (Inl TypeError) \<and>
                cloneWithRelationships 0 None ?h = Some (Inl TypeError)"
    by (elim exE conjE)
  have ns: "ns = [0, 1]" using 1 traverse_duplicateIdHeap by simp
  have io: "io = None" using 2 by (simp add: computeIdsToInclude_def)
  have inc: "includedNodes ?h io ns = [0, 1]"
    unfolding ns io by (simp add: includedNodes_def shouldIncludeNode_def)
  have cond: "\<forall>n \<in> set (includedNodes ?h io ns). \<forall>d \<in> set (dependencies (?h ! n)).
      nid (?h ! d) \<in> (\<lambda>n. nid (?h ! n)) ` set (includedNodes ?h io ns)"
    unfolding inc by (simp add: duplicateIdHeap_def)
  from 3 cond have "\<exists>h' m. cloneGraph 0 None ?h = Some (Inr (h', m)) \<and>
                  take (length ?h) h' = ?h \<and>
                  map nid (drop (length ?h) h') = map (\<lambda>n. nid (?h ! n)) (includedNodes ?h io ns) \<and>
                  dom m = (\<lambda>n. nid (?h ! n)) ` set (includedNodes ?h io ns) \<and>
                  (\<forall>r. length ?h \<le> r \<and> r < length h' \<longrightarrow> m (nid (h' ! r)) = Some r)"
    by (simp only: if_True)
  then obtain h' m where g: "cloneGraph 0 None ?h = Some (Inr (h', m))"
    and tk: "take (length ?h) h' = ?h"
    and ids: "map nid (drop (length ?h) h') = map (\<lambda>n. nid (?h ! n)) (includedNodes ?h io ns)"
    by (elim exE conjE)
  have h': "h' = clonedDuplicateIdHeap" using g clone_duplicateIdHeap by simp
  have i2: "map nid (drop (length ?h) clonedDuplicateIdHeap) = [''r'', ''a'']"
    using ids unfolding h' inc by (simp add: duplicateIdHeap_def)
  show ?thesis
    using c l e rt traverse_duplicateIdHeap clone_duplicateIdHeap i2 tk[unfolded h'] by simp
qed

section \<open>Cloning a well-formed graph\<close>

lemma graphNodes_self: "n \<in> graphNodes h n"
  by (simp add: graphNodes_def)

lemma graphNodes_bound:
  assumes c: "heapClosed h" and n: "n < length h"
  shows "a \<in> graphNodes h n \<Longrightarrow> a < length h"
proof -
  assume "a \<in> graphNodes h n"
  then have "(n, a) \<in> (adjacent h)\<^sup>*" by (simp add: graphNodes_def)
  then show ?thesis
  proof (induction rule: rtrancl_induct)
    case base
    show ?case by (rule n)
  next
    case (step y z)
    then show ?case using closedD1[OF c, of y z] closedD2[OF c, of y z]
      by (auto simp: adjacent_def)
  qed
qed

lemma graphNodes_dependency:
  "a \<in> graphNodes h n \<Longrightarrow> a < length h \<Longrightarrow> b \<in> set (dependencies (h ! a)) \<Longrightarrow>
   b \<in> graphNodes h n"
  unfolding graphNodes_def
  by (simp, erule rtrancl_into_rtrancl) (simp add: adjacent_def)

lemma graphNodes_dependent:
  "a \<in> graphNodes h n \<Longrightarrow> a < length h \<Longrightarrow> b \<in> set (dependents (h ! a)) \<Longrightarrow>
   b \<in> graphNodes h n"
  unfolding graphNodes_def
  by (simp, erule rtrancl_into_rtrancl) (simp add: adjacent_def)

lemma graphNodes_depRel:
  "(a, b) \<in> (depRel h)\<^sup>* \<Longrightarrow> a \<in> graphNodes h n \<Longrightarrow> b \<in> graphNodes h n"
proof (induction rule: rtrancl_induct)
  case base
  then show ?case by simp
next
  case (step y z)
  then show ?case using graphNodes_dependency[of y h n z] by (simp add: depRel_def)
qed

lemma wfD_closed: "wellFormedGraph h n \<Longrightarrow> heapClosed h"
  by (simp add: wellFormedGraph_def)

lemma wfD_bound: "wellFormedGraph h n \<Longrightarrow> n < length h"
  by (simp add: wellFormedGraph_def)

lemma wfD_nodes: "wellFormedGraph h n \<Longrightarrow> a \<in> graphNodes h n \<Longrightarrow> a < length h"
  using graphNodes_bound[of h n a] by (simp add: wellFormedGraph_def)

lemma wfD_acyclic: "wellFormedGraph h n \<Longrightarrow> a \<in> graphNodes h n \<Longrightarrow> (a, a) \<notin> (depRel h)\<^sup>+"
  by (simp add: wellFormedGraph_def)

lemma wfD_symmetric:
  "wellFormedGraph h n \<Longrightarrow> a \<in> graphNodes h n \<Longrightarrow> b \<in> graphNodes h n \<Longrightarrow>
   (a \<in> set (dependents (h ! b))) = (b \<in> set (dependencies (h ! a)))"
  unfolding wellFormedGraph_def by blast

lemma wfD_inj: "wellFormedGraph h n \<Longrightarrow> inj_on (\<lambda>a. nid (h ! a)) (graphNodes h n)"
  by (simp add: wellFormedGraph_def)

lemma wfD_root:
  "wellFormedGraph h n \<Longrightarrow> \<exists>r \<in> graphNodes h n. \<forall>a \<in> graphNodes h n. (a, r) \<in> (depRel h)\<^sup>*"
  unfolding wellFormedGraph_def by blast

lemma wf_dependencies:
  assumes w: "wellFormedGraph h n"
  shows "wf {(b, a). a \<in> graphNodes h n \<and> (a, b) \<in> depRel h}"
proof (rule finite_acyclic_wf)
  let ?R = "{(b, a). a \<in> graphNodes h n \<and> (a, b) \<in> depRel h}"
  have "?R \<subseteq> {..< length h} \<times> {..< length h}"
    using wfD_nodes[OF w] closedD2[OF wfD_closed[OF w]] by (auto simp: depRel_def)
  then show "finite ?R" by (rule finite_subset) simp
  show "acyclic ?R"
  proof (rule acyclicI, intro allI notI)
    fix x assume x: "(x, x) \<in> ?R\<^sup>+"
    then have "x \<in> graphNodes h n" by (induction rule: trancl_induct) auto
    moreover have "?R \<subseteq> (depRel h)\<inverse>" by auto
    then have "?R\<^sup>+ \<subseteq> ((depRel h)\<inverse>)\<^sup>+" by (rule trancl_mono_subset)
    with x have "(x, x) \<in> (depRel h)\<^sup>+" by (auto simp: trancl_converse)
    ultimately show False using wfD_acyclic[OF w] by blast
  qed
qed

lemma getRootNode_total:
  assumes w: "wellFormedGraph h n"
  shows "a \<in> graphNodes h n \<Longrightarrow>
    \<exists>r. getRootNode h a = Some r \<and> (a, r) \<in> (depRel h)\<^sup>* \<and> dependencies (h ! r) = []"
proof (induction a rule: wf_induct_rule[OF wf_dependencies[OF w]])
  case (1 a)
  show ?case
  proof (cases "dependencies (h ! a)")
    case Nil
    then show ?thesis by (subst getRootNode.simps) simp
  next
    case (Cons d ds)
    have a: "a < length h" using wfD_nodes[OF w "1.prems"] .
    have ad: "(a, d) \<in> depRel h" using Cons a by (simp add: depRel_def)
    have d: "d \<in> graphNodes h n"
      using graphNodes_dependency[OF "1.prems" a, of d] Cons by simp
    obtain r where r: "getRootNode h d = Some r" "(d, r) \<in> (depRel h)\<^sup>*" "dependencies (h ! r) = []"
      using "1.IH"[of d] ad "1.prems" d by blast
    have "getRootNode h a = Some r" using r(1) Cons by (subst getRootNode.simps) simp
    moreover have "(a, r) \<in> (depRel h)\<^sup>*" using ad r(2) by (rule converse_rtrancl_into_rtrancl)
    ultimately show ?thesis using r(3) by blast
  qed
qed

lemma depRel_no_dependency:
  "(r, b) \<in> (depRel h)\<^sup>* \<Longrightarrow> dependencies (h ! r) = [] \<Longrightarrow> b = r"
  by (erule converse_rtranclE) (auto simp: depRel_def)

lemma getRootNode_root:
  assumes w: "wellFormedGraph h n" and a: "a \<in> graphNodes h n"
    and r: "getRootNode h a = Some r"
  shows "r \<in> graphNodes h n \<and> (\<forall>b \<in> graphNodes h n. (b, r) \<in> (depRel h)\<^sup>*) \<and>
         dependencies (h ! r) = []"
proof -
  obtain r' where r': "getRootNode h a = Some r'" "(a, r') \<in> (depRel h)\<^sup>*"
    "dependencies (h ! r') = []"
    using getRootNode_total[OF w a] by blast
  have rr: "r' = r" using r r'(1) by simp
  have g: "r \<in> graphNodes h n" using graphNodes_depRel[OF r'(2) a] rr by simp
  obtain r0 where r0: "r0 \<in> graphNodes h n" "\<forall>b \<in> graphNodes h n. (b, r0) \<in> (depRel h)\<^sup>*"
    using wfD_root[OF w] by blast
  have "(r, r0) \<in> (depRel h)\<^sup>*" using r0(2) g by blast
  then have "r0 = r" using depRel_no_dependency[of r r0 h] r'(3) rr by simp
  then show ?thesis using g r0(2) r'(3) rr by simp
qed

lemma dependents_path:
  assumes w: "wellFormedGraph h n"
  shows "(a, b) \<in> (depRel h)\<^sup>* \<Longrightarrow> a \<in> graphNodes h n \<Longrightarrow>
         \<exists>p. validPath (getDependents h) b p \<and> hd p = a"
proof (induction rule: converse_rtrancl_induct)
  case base
  have "validPath (getDependents h) b [b]" by simp
  then show ?case by (intro exI[of _ "[b]"]) simp
next
  case (step a y)
  have a: "a < length h" using wfD_nodes[OF w step.prems] .
  have ya: "y \<in> set (dependencies (h ! a))" using step.hyps(1) by (simp add: depRel_def)
  have y: "y \<in> graphNodes h n" using graphNodes_dependency[OF step.prems a ya] .
  obtain p where p: "validPath (getDependents h) b p" "hd p = y" using step.IH[OF y] by blast
  have "a \<in> set (dependents (h ! y))" using wfD_symmetric[OF w step.prems y] ya by simp
  then have "validPath (getDependents h) b (a # p)"
    using p by (cases p) (auto simp: getDependents_def)
  then show ?case by (intro exI[of _ "a # p"]) simp
qed

lemma validPath_dependents_nodes:
  assumes c: "heapClosed h" and n: "n < length h"
  shows "validPath (getDependents h) r p \<Longrightarrow> r \<in> graphNodes h n \<Longrightarrow> hd p \<in> graphNodes h n"
proof (induction "getDependents h" r p rule: validPath.induct)
  case (1 start)
  then show ?case by simp
next
  case (2 start a)
  then show ?case by simp
next
  case (3 start m a t)
  have a: "a \<in> graphNodes h n" using 3 by simp
  have "m \<in> set (dependents (h ! a))" using 3 by (simp add: getDependents_def)
  then show ?case using graphNodes_dependent[OF a graphNodes_bound[OF c n a]] by simp
qed

lemma validPath_dependencies_rtrancl:
  assumes c: "heapClosed h"
  shows "validPath (getDependencies h) s p \<Longrightarrow> s < length h \<Longrightarrow>
         (s, hd p) \<in> (depRel h)\<^sup>* \<and> hd p < length h"
proof (induction "getDependencies h" s p rule: validPath.induct)
  case (1 start)
  then show ?case by simp
next
  case (2 start a)
  then show ?case by simp
next
  case (3 start m a t)
  have a: "(start, a) \<in> (depRel h)\<^sup>*" "a < length h" using 3 by simp_all
  have m: "m \<in> set (dependencies (h ! a))" using 3 by (simp add: getDependencies_def)
  have "(a, m) \<in> depRel h" using a(2) m by (simp add: depRel_def)
  then show ?case using a closedD2[OF c a(2) m] by (auto intro: rtrancl_into_rtrancl)
qed

lemma dependencies_path:
  "(s, a) \<in> (depRel h)\<^sup>* \<Longrightarrow> \<exists>p. validPath (getDependencies h) s p \<and> hd p = a"
proof (induction rule: rtrancl_induct)
  case base
  have "validPath (getDependencies h) s [s]" by simp
  then show ?case by (intro exI[of _ "[s]"]) simp
next
  case (step y z)
  then obtain p where p: "validPath (getDependencies h) s p" "hd p = y" by blast
  have "z \<in> set (dependencies (h ! y))" using step.hyps(2) by (simp add: depRel_def)
  then have "validPath (getDependencies h) s (z # p)"
    using p by (cases p) (auto simp: getDependencies_def)
  then show ?case by (intro exI[of _ "z # p"]) simp
qed

lemma retained_subset: "retained h predicate n \<subseteq> graphNodes h n"
  unfolding retained_def using graphNodes_depRel[of _ _ h n]
  by (auto split: option.splits)

lemma retained_dependency:
  assumes w: "wellFormedGraph h n" and a: "a \<in> retained h predicate n"
    and d: "d \<in> set (dependencies (h ! a))"
  shows "d \<in> retained h predicate n"
proof -
  have g: "a \<in> graphNodes h n" using a retained_subset by blast
  have al: "a < length h" using wfD_nodes[OF w g] .
  have ad: "(a, d) \<in> depRel h" using al d by (simp add: depRel_def)
  show ?thesis
  proof (cases predicate)
    case None
    then show ?thesis using graphNodes_dependency[OF g al d] by (simp add: retained_def)
  next
    case (Some p)
    then obtain s where s: "s \<in> graphNodes h n" "p h s" "(s, a) \<in> (depRel h)\<^sup>*"
      using a by (auto simp: retained_def)
    have "(s, d) \<in> (depRel h)\<^sup>*" using s(3) ad by (rule rtrancl_into_rtrancl)
    then show ?thesis using Some s by (auto simp: retained_def)
  qed
qed

lemma uniqueIds_dependents:
  assumes w: "wellFormedGraph h n" and r: "r \<in> graphNodes h n"
  shows "uniqueIds h (getDependents h) r"
  unfolding uniqueIds_def
proof (intro allI impI)
  fix p q
  assume a: "validPath (getDependents h) r p \<and> validPath (getDependents h) r q \<and>
    nid (h ! hd p) = nid (h ! hd q)"
  have "hd p \<in> graphNodes h n" "hd q \<in> graphNodes h n"
    using validPath_dependents_nodes[OF wfD_closed[OF w] wfD_bound[OF w] _ r] a by blast+
  then show "hd p = hd q" using a inj_onD[OF wfD_inj[OF w]] by blast
qed

lemma uniqueIds_dependencies:
  assumes w: "wellFormedGraph h n" and s: "s \<in> graphNodes h n"
  shows "uniqueIds h (getDependencies h) s"
  unfolding uniqueIds_def
proof (intro allI impI)
  fix p q
  assume a: "validPath (getDependencies h) s p \<and> validPath (getDependencies h) s q \<and>
    nid (h ! hd p) = nid (h ! hd q)"
  have sl: "s < length h" using wfD_nodes[OF w s] .
  have "(s, hd p) \<in> (depRel h)\<^sup>*" "(s, hd q) \<in> (depRel h)\<^sup>*"
    using validPath_dependencies_rtrancl[OF wfD_closed[OF w] _ sl] a by blast+
  then have "hd p \<in> graphNodes h n" "hd q \<in> graphNodes h n"
    using graphNodes_depRel s by blast+
  then show "hd p = hd q" using a inj_onD[OF wfD_inj[OF w]] by blast
qed

lemma root_reaches:
  assumes w: "wellFormedGraph h n" and r: "r \<in> graphNodes h n"
    and all: "\<forall>b \<in> graphNodes h n. (b, r) \<in> (depRel h)\<^sup>*"
  shows "{a. \<exists>p. validPath (getDependents h) r p \<and> hd p = a} = graphNodes h n"
proof (intro set_eqI iffI)
  fix a assume "a \<in> {a. \<exists>p. validPath (getDependents h) r p \<and> hd p = a}"
  then show "a \<in> graphNodes h n"
    using validPath_dependents_nodes[OF wfD_closed[OF w] wfD_bound[OF w] _ r] by blast
next
  fix a assume a: "a \<in> graphNodes h n"
  then have "(a, r) \<in> (depRel h)\<^sup>*" using all by blast
  then show "a \<in> {a. \<exists>p. validPath (getDependents h) r p \<and> hd p = a}"
    using dependents_path[OF w _ a] by blast
qed

lemma bfs_graphNodes:
  assumes w: "wellFormedGraph h n" and a: "a \<in> graphNodes h n"
    and r: "getRootNode h a = Some r"
  shows "\<exists>ps. bfsRun h getDependents {nid (h ! r)} [[r]] ps \<and>
               set (map hd ps) = graphNodes h n \<and> distinct (map hd ps)"
proof -
  have rr: "r \<in> graphNodes h n" "\<forall>b \<in> graphNodes h n. (b, r) \<in> (depRel h)\<^sup>*"
    using getRootNode_root[OF w a r] by blast+
  have rl: "r < length h" using wfD_nodes[OF w rr(1)] .
  have u: "uniqueIds h (getDependents h) r" by (rule uniqueIds_dependents[OF w rr(1)])
  obtain ps visited' where run: "bfsRun h getDependents {nid (h ! r)} [[r]] ps"
    and inv: "bfsInv h (getDependents h) r visited' [] ps"
    using bfs_total[of r h getDependents, OF rl closed_getDependents[OF wfD_closed[OF w]] u]
    by blast
  have "set (map hd ps) = graphNodes h n"
    using bfsInv_final_nodes[OF inv u] root_reaches[OF w rr] by simp
  then show ?thesis using run bfsInv_final_distinct[OF inv] by blast
qed

lemma ancestorIds_graph:
  assumes w: "wellFormedGraph h n" and s: "s \<in> graphNodes h n"
  shows "ancestorIds h s = (\<lambda>a. nid (h ! a)) ` {a. (s, a) \<in> (depRel h)\<^sup>*}"
proof -
  have sl: "s < length h" using wfD_nodes[OF w s] .
  have u: "uniqueIds h (getDependencies h) s" by (rule uniqueIds_dependencies[OF w s])
  obtain qs visited' where run: "bfsRun h getDependencies {nid (h ! s)} [[s]] qs"
    and inv: "bfsInv h (getDependencies h) s visited' [] qs"
    using bfs_total[of s h getDependencies, OF sl closed_getDependencies[OF wfD_closed[OF w]] u]
    by blast
  have "set (map hd qs) = {a. \<exists>p. validPath (getDependencies h) s p \<and> hd p = a}"
    by (rule bfsInv_final_nodes[OF inv u])
  also have "\<dots> = {a. (s, a) \<in> (depRel h)\<^sup>*}"
    using validPath_dependencies_rtrancl[OF wfD_closed[OF w] _ sl] dependencies_path[of s _ h]
    by blast
  finally have "hd ` set qs = {a. (s, a) \<in> (depRel h)\<^sup>*}" by simp
  then have "(\<lambda>q. nid (h ! hd q)) ` set qs = (\<lambda>a. nid (h ! a)) ` {a. (s, a) \<in> (depRel h)\<^sup>*}"
    by (simp add: image_image[symmetric, of "\<lambda>a. nid (h ! a)" hd])
  then show ?thesis using ancestorIds_run[OF run] by simp
qed

lemma included_retained:
  assumes w: "wellFormedGraph h n" and ps: "set ns = graphNodes h n"
  shows "set (includedNodes h (idsToIncludeOf h predicate ns) ns) = retained h predicate n"
proof (cases predicate)
  case None
  then show ?thesis using ps
    by (simp add: includedNodes_def idsToIncludeOf_def shouldIncludeNode_def retained_def)
next
  case (Some p)
  have ids: "includedIds h p ns = (\<lambda>a. nid (h ! a)) ` retained h predicate n"
    unfolding includedIds_def retained_def Some using ps ancestorIds_graph[OF w]
    by (auto simp: image_iff)
  have "{a \<in> graphNodes h n. nid (h ! a) \<in> (\<lambda>a. nid (h ! a)) ` retained h predicate n} =
      retained h predicate n"
    using retained_subset[of h predicate n] inj_onD[OF wfD_inj[OF w]] by (auto simp: image_iff)
  then show ?thesis
    using ps ids Some by (simp add: includedNodes_def idsToIncludeOf_def shouldIncludeNode_def)
qed

lemma clone_wellFormed:
  assumes w: "wellFormedGraph h this"
  obtains h' m where "cloneGraph this predicate h = Some (Inr (h', m))"
    and "take (length h) h' = h"
    and "length h' = length h + card (retained h predicate this)"
    and "dom m = (\<lambda>a. nid (h ! a)) ` retained h predicate this"
    and "bij_betw (cloneOf m h) (retained h predicate this) {length h ..< length h'}"
    and "\<forall>a \<in> retained h predicate this. nid (h' ! cloneOf m h a) = nid (h ! a)"
    and "cloneDeps (length h) h' =
       {(cloneOf m h a, cloneOf m h d) | a d.
          a \<in> retained h predicate this \<and> d \<in> set (dependencies (h ! a))}"
    and "cloneDependents (length h) h' = (cloneDeps (length h) h')\<inverse>"
proof -
  let ?N = "length h"
  let ?R = "retained h predicate this"
  have c: "heapClosed h" by (rule wfD_closed[OF w])
  have t: "this < length h" by (rule wfD_bound[OF w])
  have tg: "this \<in> graphNodes h this" by (rule graphNodes_self)
  obtain r where r: "getRootNode h this = Some r" using getRootNode_total[OF w tg] by blast
  obtain ps where run: "bfsRun h getDependents {nid (h ! r)} [[r]] ps"
    and ns: "set (map hd ps) = graphNodes h this" and dn: "distinct (map hd ps)"
    using bfs_graphNodes[OF w tg r] by blast
  define io where "io = idsToIncludeOf h predicate (map hd ps)"
  define m where "m = cloneMap h io (map hd ps) (length h) Map.empty"
  define incl where "incl = includedNodes h io (map hd ps)"
  have si: "set incl = ?R" unfolding incl_def io_def by (rule included_retained[OF w ns])
  have di: "distinct incl" unfolding incl_def includedNodes_def using dn by (rule distinct_filter)
  have li: "length incl = card ?R" using distinct_card[OF di] si by simp
  have dm: "dom m = (\<lambda>a. nid (h ! a)) ` ?R"
    unfolding m_def cloneMap_dom using si by (simp add: incl_def)
  have cov: "depsCovered m h (set incl)"
    unfolding depsCovered_def
  proof (intro ballI)
    fix a d assume "a \<in> set incl" "d \<in> set (dependencies (h ! a))"
    then have "d \<in> ?R" using retained_dependency[OF w, of a predicate d] si by simp
    then have "nid (h ! d) \<in> dom m" unfolding dm by blast
    then show "m (nid (h ! d)) \<noteq> None" by blast
  qed
  obtain h' where h': "cloneGraph this predicate h = Some (Inr (h', m))" "take ?N h' = h"
    "length h' = ?N + length incl" "map nid h' = map nid (h @ clonesOf h incl)"
    "cloneDependents ?N h' = (cloneDeps ?N h')\<inverse>"
    "cloneDeps ?N h' = clonedEdges m h (set incl)"
    using cloneGraph_structure[OF c t r run io_def m_def incl_def cov] by blast
  have look: "m (nid (h ! (incl ! j))) = Some (?N + j)" if "j < length incl" for j
    using cloneMap_lookup[of h io "map hd ps" j ?N Map.empty]
      included_distinct_ids[OF run, of io] that unfolding m_def incl_def by simp
  have co: "cloneOf m h (incl ! j) = ?N + j" if "j < length incl" for j
    using look[OF that] by (simp add: cloneOf_def)
  have im: "cloneOf m h ` ?R = {?N ..< length h'}"
  proof (intro set_eqI iffI)
    fix x assume "x \<in> cloneOf m h ` ?R"
    then obtain a where "a \<in> set incl" "x = cloneOf m h a" using si by blast
    then obtain j where "j < length incl" "x = cloneOf m h (incl ! j)"
      by (auto simp: in_set_conv_nth)
    then show "x \<in> {?N ..< length h'}" using co h'(3) by simp
  next
    fix x assume x: "x \<in> {?N ..< length h'}"
    then have j: "x - ?N < length incl" using h'(3) by auto
    have "cloneOf m h (incl ! (x - ?N)) = x" using co[OF j] x by simp
    moreover have "incl ! (x - ?N) \<in> ?R" using j si nth_mem by blast
    ultimately show "x \<in> cloneOf m h ` ?R" by (metis imageI)
  qed
  have inj: "inj_on (cloneOf m h) ?R"
  proof (rule inj_onI)
    fix a b assume "a \<in> ?R" "b \<in> ?R" and e: "cloneOf m h a = cloneOf m h b"
    then obtain i j where i: "i < length incl" "a = incl ! i" and j: "j < length incl" "b = incl ! j"
      using si by (metis in_set_conv_nth)
    have "?N + i = ?N + j" using e co[OF i(1)] co[OF j(1)] i(2) j(2) by simp
    then show "a = b" using i j by simp
  qed
  have bij: "bij_betw (cloneOf m h) ?R {?N ..< length h'}"
    unfolding bij_betw_def using inj im by simp
  have ids: "\<forall>a \<in> ?R. nid (h' ! cloneOf m h a) = nid (h ! a)"
  proof
    fix a assume "a \<in> ?R"
    then obtain j where j: "j < length incl" "a = incl ! j" using si by (metis in_set_conv_nth)
    have l: "?N + j < length h'" using j(1) h'(3) by simp
    have "nid (h' ! (?N + j)) = map nid h' ! (?N + j)" using l by simp
    also have "\<dots> = map nid (h @ clonesOf h incl) ! (?N + j)" using h'(4) by simp
    also have "\<dots> = nid (h ! (incl ! j))"
      using j(1) by (simp add: nth_append clonesOf_def cloneWithoutRelationships_def)
    finally show "nid (h' ! cloneOf m h a) = nid (h ! a)" using co[OF j(1)] j(2) by simp
  qed
  have some: "m (nid (h ! a)) = Some (cloneOf m h a)" if "a \<in> ?R" for a
  proof -
    have "nid (h ! a) \<in> dom m" unfolding dm using that by blast
    then show ?thesis by (auto simp: cloneOf_def)
  qed
  have ed: "clonedEdges m h (set incl) =
      {(cloneOf m h a, cloneOf m h d) | a d. a \<in> ?R \<and> d \<in> set (dependencies (h ! a))}"
  proof (intro set_eqI iffI)
    fix x assume "x \<in> clonedEdges m h (set incl)"
    then obtain a d where a: "a \<in> ?R" "d \<in> set (dependencies (h ! a))"
      "m (nid (h ! a)) = Some (fst x)" "m (nid (h ! d)) = Some (snd x)"
      unfolding clonedEdges_def si by (cases x) auto
    have "d \<in> ?R" using retained_dependency[OF w a(1,2)] .
    then have "x = (cloneOf m h a, cloneOf m h d)"
      using some[OF a(1)] some[of d] a(3,4) by (cases x) simp
    then show "x \<in> {(cloneOf m h a, cloneOf m h d) | a d. a \<in> ?R \<and> d \<in> set (dependencies (h ! a))}"
      using a(1,2) by blast
  next
    fix x
    assume "x \<in> {(cloneOf m h a, cloneOf m h d) | a d. a \<in> ?R \<and> d \<in> set (dependencies (h ! a))}"
    then obtain a d where a: "a \<in> ?R" "d \<in> set (dependencies (h ! a))"
      "x = (cloneOf m h a, cloneOf m h d)" by blast
    have "d \<in> ?R" using retained_dependency[OF w a(1,2)] .
    then show "x \<in> clonedEdges m h (set incl)"
      unfolding clonedEdges_def si using a some[OF a(1)] some[of d] by auto
  qed
  show ?thesis
    by (rule that[OF h'(1,2) h'(3)[unfolded li] dm bij ids h'(6)[unfolded ed] h'(5)])
qed

lemma cloneDeps_adjacent: "cloneDeps N H \<subseteq> adjacent H"
  by (auto simp: cloneDeps_def adjacent_def)

lemma cloneDependents_adjacent: "cloneDependents N H \<subseteq> adjacent H"
  by (auto simp: cloneDependents_def adjacent_def)

lemma clone_component:
  assumes w: "wellFormedGraph h this"
    and bij: "bij_betw (cloneOf m h) (retained h predicate this) {length h ..< length h'}"
    and ed: "cloneDeps (length h) h' =
       {(cloneOf m h a, cloneOf m h d) | a d.
          a \<in> retained h predicate this \<and> d \<in> set (dependencies (h ! a))}"
    and sym: "cloneDependents (length h) h' = (cloneDeps (length h) h')\<inverse>"
    and t: "this \<in> retained h predicate this"
  shows "graphNodes h' (cloneOf m h this) = {length h ..< length h'}"
proof (intro set_eqI iffI)
  let ?N = "length h"
  let ?R = "retained h predicate this"
  let ?f = "cloneOf m h"
  have reg: "?f a \<in> {?N ..< length h'}" if "a \<in> ?R" for a
    using bij that unfolding bij_betw_def by blast
  {
    fix x assume "x \<in> graphNodes h' (?f this)"
    then have "(?f this, x) \<in> (adjacent h')\<^sup>*" by (simp add: graphNodes_def)
    then show "x \<in> {?N ..< length h'}"
    proof (induction rule: rtrancl_induct)
      case base
      show ?case by (rule reg[OF t])
    next
      case (step y z)
      have y: "?N \<le> y" "y < length h'" using step.IH by simp_all
      from step.hyps(2) have "z \<in> set (dependencies (h' ! y)) \<or> z \<in> set (dependents (h' ! y))"
        by (auto simp: adjacent_def)
      then show ?case
      proof
        assume "z \<in> set (dependencies (h' ! y))"
        then have "(y, z) \<in> cloneDeps ?N h'" using y by (simp add: cloneDeps_def)
        then obtain a d where "a \<in> ?R" "d \<in> set (dependencies (h ! a))" "z = ?f d"
          unfolding ed by blast
        then show ?thesis using reg[OF retained_dependency[OF w, of a predicate d]] by simp
      next
        assume "z \<in> set (dependents (h' ! y))"
        then have "(y, z) \<in> cloneDependents ?N h'" using y by (simp add: cloneDependents_def)
        then have "(z, y) \<in> cloneDeps ?N h'" unfolding sym by simp
        then obtain a where "a \<in> ?R" "z = ?f a" unfolding ed by blast
        then show ?thesis using reg by simp
      qed
    qed
  }
  {
    fix x assume "x \<in> {?N ..< length h'}"
    then obtain a where a: "a \<in> ?R" "x = ?f a" using bij unfolding bij_betw_def by blast
    have path: "(?f a, ?f b) \<in> (adjacent h')\<^sup>* \<and> (?f b, ?f a) \<in> (adjacent h')\<^sup>* \<and> b \<in> ?R"
      if "(a, b) \<in> (depRel h)\<^sup>*" "a \<in> ?R" for a b
      using that
    proof (induction rule: rtrancl_induct)
      case base
      then show ?case by simp
    next
      case (step y z)
      have y: "y \<in> ?R" using step by simp
      have yz: "z \<in> set (dependencies (h ! y))" using step.hyps(2) by (simp add: depRel_def)
      have e: "(?f y, ?f z) \<in> cloneDeps ?N h'" unfolding ed using y yz by blast
      then have e': "(?f z, ?f y) \<in> cloneDependents ?N h'" unfolding sym by simp
      have 1: "(?f y, ?f z) \<in> adjacent h'" using e cloneDeps_adjacent by blast
      have 2: "(?f z, ?f y) \<in> adjacent h'" using e' cloneDependents_adjacent by blast
      have "(?f a, ?f z) \<in> (adjacent h')\<^sup>*"
        using step.IH[OF step.prems] 1 by (auto intro: rtrancl_into_rtrancl)
      moreover have "(?f z, ?f a) \<in> (adjacent h')\<^sup>*"
        using step.IH[OF step.prems] 2 by (auto intro: converse_rtrancl_into_rtrancl)
      ultimately show ?case using retained_dependency[OF w y yz] by simp
    qed
    obtain r where r: "r \<in> graphNodes h this" "\<forall>b \<in> graphNodes h this. (b, r) \<in> (depRel h)\<^sup>*"
      using wfD_root[OF w] by blast
    have "(this, r) \<in> (depRel h)\<^sup>*" "(a, r) \<in> (depRel h)\<^sup>*"
      using r(2) t a(1) retained_subset[of h predicate this] by blast+
    then have "(?f this, ?f r) \<in> (adjacent h')\<^sup>*" "(?f r, ?f a) \<in> (adjacent h')\<^sup>*"
      using path[OF _ t] path[OF _ a(1)] by blast+
    then have "(?f this, ?f a) \<in> (adjacent h')\<^sup>*" by (rule rtrancl_trans)
    then show "x \<in> graphNodes h' (?f this)" using a(2) by (simp add: graphNodes_def)
  }
qed

lemma image_pairs: "{(f a, f d) | a d. P a d} = map_prod f f ` {(a, d). P a d}"
  by force

lemma card_pairs:
  assumes inj: "inj_on f R" and sub: "E \<subseteq> R \<times> R"
  shows "card (map_prod f f ` E) = card E"
proof -
  have "inj_on (map_prod f f) (R \<times> R)" using map_prod_inj_on[OF inj inj] .
  then have "inj_on (map_prod f f) E" using sub by (rule inj_on_subset)
  then show ?thesis by (rule card_image)
qed

lemma clone_graph:
  assumes w: "wellFormedGraph h this" and t: "this \<in> retained h predicate this"
  obtains h' c where "cloneWithRelationships this predicate h = Some (Inr (h', c))"
    and "take (length h) h' = h"
    and "graphNodes h' c = {length h ..< length h'}"
    and "nid (h' ! c) = nid (h ! this)"
    and "card (graphNodes h' c) = card (retained h predicate this)"
    and "graphIds h' c = (\<lambda>a. nid (h ! a)) ` retained h predicate this"
    and "card (graphEdges h' c) =
       card {(a, d). a \<in> retained h predicate this \<and> d \<in> set (dependencies (h ! a))}"
proof -
  let ?N = "length h"
  let ?R = "retained h predicate this"
  obtain h' m where g: "cloneGraph this predicate h = Some (Inr (h', m))"
    and tk: "take ?N h' = h"
    and len: "length h' = ?N + card ?R"
    and dm: "dom m = (\<lambda>a. nid (h ! a)) ` ?R"
    and bij: "bij_betw (cloneOf m h) ?R {?N ..< length h'}"
    and ids: "\<forall>a \<in> ?R. nid (h' ! cloneOf m h a) = nid (h ! a)"
    and ed: "cloneDeps ?N h' =
       {(cloneOf m h a, cloneOf m h d) | a d. a \<in> ?R \<and> d \<in> set (dependencies (h ! a))}"
    and sym: "cloneDependents ?N h' = (cloneDeps ?N h')\<inverse>"
    by (rule clone_wellFormed[OF w, of predicate])
  let ?f = "cloneOf m h"
  let ?c = "?f this"
  have tl: "this < ?N" by (rule wfD_bound[OF w])
  have h't: "h' ! this = h ! this" using take_nth_eq[of h h' this] tk tl by simp
  have "nid (h ! this) \<in> dom m" unfolding dm using t by (rule imageI)
  then obtain c0 where "m (nid (h ! this)) = Some c0" by blast
  then have mt: "m (nid (h' ! this)) = Some ?c" unfolding h't by (simp add: cloneOf_def)
  have res: "cloneWithRelationships this predicate h = Some (Inr (h', ?c))"
    unfolding cloneWithRelationships_def g using mt by (simp add: andThen_def)
  have comp: "graphNodes h' ?c = {?N ..< length h'}"
    by (rule clone_component[OF w bij ed sym t])
  have im: "?f ` ?R = graphNodes h' ?c" using bij unfolding comp bij_betw_def by simp
  have inj: "inj_on ?f ?R" using bij unfolding bij_betw_def by simp
  have cn: "card (graphNodes h' ?c) = card ?R" unfolding im[symmetric] by (rule card_image[OF inj])
  have "(\<lambda>a. nid (h' ! a)) ` (?f ` ?R) = (\<lambda>a. nid (h' ! ?f a)) ` ?R" by (simp add: image_image)
  also have "\<dots> = (\<lambda>a. nid (h ! a)) ` ?R" by (rule image_cong) (simp_all add: ids)
  finally have gi: "graphIds h' ?c = (\<lambda>a. nid (h ! a)) ` ?R"
    unfolding graphIds_def im[symmetric] .
  let ?E = "{(a, d). a \<in> ?R \<and> d \<in> set (dependencies (h ! a))}"
  have ge: "graphEdges h' ?c = cloneDeps ?N h'"
    unfolding graphEdges_def comp cloneDeps_def by simp
  have e1: "cloneDeps ?N h' = map_prod ?f ?f ` ?E" unfolding ed by (rule image_pairs)
  have "?E \<subseteq> ?R \<times> ?R" using retained_dependency[OF w] by blast
  then have ce: "card (graphEdges h' ?c) = card ?E"
    unfolding ge e1 by (rule card_pairs[OF inj])
  have idc: "nid (h' ! ?c) = nid (h ! this)" using ids t by blast
  show ?thesis by (rule that[OF res tk comp idc cn gi ce])
qed

lemma wellFormedGraphI:
  assumes c: "heapClosed h" and n: "n < length h"
    and ord: "\<forall>a < length h. \<forall>b \<in> set (dependencies (h ! a)). b < a"
    and rt: "\<forall>a < length h. 0 < a \<longrightarrow> dependencies (h ! a) \<noteq> []"
    and sym: "symmetricEdges h"
    and ids: "distinct (map nid h)"
  shows "wellFormedGraph h n"
proof -
  have bound: "a < length h" if "a \<in> graphNodes h n" for a
    using graphNodes_bound[OF c n that] .
  have reach: "a < length h \<Longrightarrow> (a, 0) \<in> (depRel h)\<^sup>*" for a
  proof (induction a rule: less_induct)
    case (less a)
    show ?case
    proof (cases "a = 0")
      case True
      then show ?thesis by simp
    next
      case False
      then obtain b bs where b: "dependencies (h ! a) = b # bs"
        using rt less.prems by (cases "dependencies (h ! a)") auto
      have ba: "b < a" using ord less.prems b by simp
      have "(a, b) \<in> depRel h" using less.prems b by (simp add: depRel_def)
      moreover have "(b, 0) \<in> (depRel h)\<^sup>*" using less.IH[OF ba] ba less.prems by simp
      ultimately show ?thesis by (rule converse_rtrancl_into_rtrancl)
    qed
  qed
  have z: "0 \<in> graphNodes h n"
    using graphNodes_depRel[OF reach[OF n] graphNodes_self] .
  have 1: "\<exists>r \<in> graphNodes h n. \<forall>a \<in> graphNodes h n. (a, r) \<in> (depRel h)\<^sup>*"
    using z reach bound by blast
  have dec: "(a, b) \<in> (depRel h)\<^sup>+ \<Longrightarrow> b < a" for a b
  proof (induction rule: trancl_induct)
    case (base y)
    then show ?case using ord by (auto simp: depRel_def)
  next
    case (step y z)
    have "z < y" using step.hyps(2) ord by (auto simp: depRel_def)
    then show ?case using step.IH by simp
  qed
  have 2: "\<forall>a \<in> graphNodes h n. (a, a) \<notin> (depRel h)\<^sup>+" using dec by blast
  have 3: "\<forall>a \<in> graphNodes h n. \<forall>b \<in> graphNodes h n.
      (a \<in> set (dependents (h ! b))) = (b \<in> set (dependencies (h ! a)))"
    using sym bound unfolding symmetricEdges_def by blast
  have 4: "inj_on (\<lambda>a. nid (h ! a)) (graphNodes h n)"
  proof (rule inj_onI)
    fix a b assume a: "a \<in> graphNodes h n" and b: "b \<in> graphNodes h n"
      and e: "nid (h ! a) = nid (h ! b)"
    have "map nid h ! a = map nid h ! b" using e bound[OF a] bound[OF b] by simp
    then show "a = b" using nth_eq_iff_index_eq[OF ids, of a b] bound[OF a] bound[OF b] by simp
  qed
  show ?thesis unfolding wellFormedGraph_def using c n 1 2 3 4 by blast
qed

lemma retained_all:
  assumes "\<forall>p. predicate = Some p \<longrightarrow> (\<forall>a. p h a)"
  shows "retained h predicate n = graphNodes h n"
proof (cases predicate)
  case None
  then show ?thesis by (simp add: retained_def)
next
  case (Some p)
  have "{a. \<exists>s \<in> graphNodes h n. p h s \<and> (s, a) \<in> (depRel h)\<^sup>*} = graphNodes h n"
    using assms Some graphNodes_depRel[of _ _ h n] by auto
  then show ?thesis using Some by (simp add: retained_def)
qed

lemma cloneGraph_no_missing:
  assumes c: "heapClosed h" and t: "this < length h"
  shows "cloneGraph this predicate h \<noteq> Some (Inl MissingNode)"
proof (cases "getRootNode h this")
  case None
  then show ?thesis by (simp add: cloneGraph_def)
next
  case (Some rt)
  have r: "rt < length h" using getRootNode_bound[OF Some c t] by simp
  obtain ps where run: "bfsRun h getDependents {nid (h ! rt)} [[rt]] ps"
    using bfsRun_start[where g = getDependents, OF closed_getDependents[OF c] r] by blast
  let ?io = "idsToIncludeOf h predicate (map hd ps)"
  let ?m = "cloneMap h ?io (map hd ps) (length h) Map.empty"
  let ?h2 = "h @ clonesOf h (includedNodes h ?io (map hd ps))"
  have "foldCallback (cloneEdgesCallback ?io ?m) ps (?h2, ()) \<noteq> Some (Inl MissingNode)"
    using fold_cloneEdges_result by blast
  then show ?thesis
    unfolding cloneGraph_eq[OF c t Some run]
    by (auto simp: andThen_def split: option.splits sum.splits)
qed

lemma missing_node_iff:
  assumes c: "heapClosed h" and t: "this < length h"
  shows "(cloneWithRelationships this predicate h = Some (Inl MissingNode)) =
         (\<exists>h' m. cloneGraph this predicate h = Some (Inr (h', m)) \<and> m (nid (h ! this)) = None)"
proof
  assume e: "cloneWithRelationships this predicate h = Some (Inl MissingNode)"
  then obtain h' m where g: "cloneGraph this predicate h = Some (Inr (h', m))"
    and n: "m (nid (h' ! this)) = None"
    using cloneGraph_no_missing[OF c t, of predicate]
    by (auto simp: cloneWithRelationships_def andThen_def split: option.splits sum.splits)
  have "h' ! this = h ! this"
    using cloneGraph_frame[OF c t g] take_nth_eq[of h h' this] t by simp
  then show "\<exists>h' m. cloneGraph this predicate h = Some (Inr (h', m)) \<and> m (nid (h ! this)) = None"
    using g n by auto
next
  assume "\<exists>h' m. cloneGraph this predicate h = Some (Inr (h', m)) \<and> m (nid (h ! this)) = None"
  then obtain h' m where g: "cloneGraph this predicate h = Some (Inr (h', m))"
    and n: "m (nid (h ! this)) = None" by blast
  have "h' ! this = h ! this"
    using cloneGraph_frame[OF c t g] take_nth_eq[of h h' this] t by simp
  then show "cloneWithRelationships this predicate h = Some (Inl MissingNode)"
    using g n by (simp add: cloneWithRelationships_def andThen_def)
qed

lemma clone_missing:
  assumes w: "wellFormedGraph h this" and t: "this \<notin> retained h predicate this"
  shows "cloneWithRelationships this predicate h = Some (Inl MissingNode)"
proof -
  obtain h' m where g: "cloneGraph this predicate h = Some (Inr (h', m))"
    and dm: "dom m = (\<lambda>a. nid (h ! a)) ` retained h predicate this"
    using clone_wellFormed[OF w, of predicate] by metis
  have "nid (h ! this) \<notin> (\<lambda>a. nid (h ! a)) ` retained h predicate this"
  proof
    assume "nid (h ! this) \<in> (\<lambda>a. nid (h ! a)) ` retained h predicate this"
    then obtain a where a: "a \<in> retained h predicate this" "nid (h ! this) = nid (h ! a)" by blast
    have "a \<in> graphNodes h this" using a(1) retained_subset by blast
    then have "this = a" using inj_onD[OF wfD_inj[OF w] a(2) graphNodes_self] by simp
    then show False using a(1) t by simp
  qed
  then have "m (nid (h ! this)) = None" using dm by blast
  then show ?thesis
    using missing_node_iff[OF wfD_closed[OF w] wfD_bound[OF w], of predicate] g by blast
qed

lemma inclusion_set:
  assumes w: "wellFormedGraph h this"
  shows "\<exists>rt. getRootNode h this = Some rt \<and>
     computeIdsToInclude rt (Some p) h =
       Some (Inr (h, Some ((\<lambda>a. nid (h ! a)) ` retained h (Some p) this)))"
proof -
  have tg: "this \<in> graphNodes h this" by (rule graphNodes_self)
  obtain r where r: "getRootNode h this = Some r" using getRootNode_total[OF w tg] by blast
  obtain ps where run: "bfsRun h getDependents {nid (h ! r)} [[r]] ps"
    and ns: "set (map hd ps) = graphNodes h this"
    using bfs_graphNodes[OF w tg r] by blast
  have rl: "r < length h" using getRootNode_bound[OF r wfD_closed[OF w] wfD_bound[OF w]] by simp
  have "includedIds h p (map hd ps) = (\<lambda>a. nid (h ! a)) ` retained h (Some p) this"
    unfolding includedIds_def retained_def using ns ancestorIds_graph[OF w]
    by (auto simp: image_iff)
  then show ?thesis
    using r computeIds_eq[OF wfD_closed[OF w] rl run, of "Some p"]
    by (simp add: idsToIncludeOf_def)
qed

lemma graphNodes_whole:
  assumes c: "heapClosed h" and n: "n < length h"
    and ord: "\<forall>a < length h. \<forall>b \<in> set (dependencies (h ! a)). b < a"
    and rt: "\<forall>a < length h. 0 < a \<longrightarrow> dependencies (h ! a) \<noteq> []"
    and sym: "symmetricEdges h"
    and ids: "distinct (map nid h)"
  shows "graphNodes h n = {..< length h}"
proof (intro set_eqI iffI)
  fix a assume "a \<in> graphNodes h n"
  then show "a \<in> {..< length h}" using graphNodes_bound[OF c n] by simp
next
  fix a assume "a \<in> {..< length h}"
  then have a: "a < length h" by simp
  have w: "wellFormedGraph h a" by (rule wellFormedGraphI[OF c a ord rt sym ids])
  have w': "wellFormedGraph h n" by (rule wellFormedGraphI[OF c n ord rt sym ids])
  obtain r where r: "getRootNode h a = Some r" "(a, r) \<in> (depRel h)\<^sup>*" "dependencies (h ! r) = []"
    using getRootNode_total[OF w graphNodes_self] by blast
  have "r < length h" using getRootNode_bound[OF r(1) c a] by simp
  then have r0: "r = 0" using rt r(3) by (cases "r = 0") auto
  obtain r' where r': "getRootNode h n = Some r'" "(n, r') \<in> (depRel h)\<^sup>*"
    "dependencies (h ! r') = []"
    using getRootNode_total[OF w' graphNodes_self] by blast
  have "r' < length h" using getRootNode_bound[OF r'(1) c n] by simp
  then have r'0: "r' = 0" using rt r'(3) by (cases "r' = 0") auto
  have z: "0 \<in> graphNodes h n" using graphNodes_depRel[OF r'(2) graphNodes_self] r'0 by simp
  obtain p where p: "validPath (getDependents h) 0 p" "hd p = a"
    using dependents_path[OF w r(2) graphNodes_self] r0 by blast
  show "a \<in> graphNodes h n" using validPath_dependents_nodes[OF c n p(1) z] p(2) by simp
qed

lemma wellFormed_chainABCX: "wellFormedGraph chainABCX 3"
  by (rule wellFormedGraphI)
     (simp_all add: heapClosed_def symmetricEdges_def chainABCX_def All_less_Suc
        eval_nat_numeral)

lemma graphNodes_chainABCX: "graphNodes chainABCX 3 = {0, 1, 2, 3}"
proof -
  have "graphNodes chainABCX 3 = {..< length chainABCX}"
    by (rule graphNodes_whole)
       (simp_all add: heapClosed_def symmetricEdges_def chainABCX_def All_less_Suc
          eval_nat_numeral)
  also have "\<dots> = {0, 1, 2, 3}" by (auto simp: chainABCX_def)
  finally show ?thesis .
qed

lemma clone_returns:
  assumes w: "wellFormedGraph h this" and t: "this \<in> retained h predicate this"
  shows "\<exists>h' c. cloneWithRelationships this predicate h = Some (Inr (h', c)) \<and>
     graphNodes h' c = {length h ..< length h'} \<and>
     card (graphNodes h' c) = card (retained h predicate this) \<and>
     graphIds h' c = (\<lambda>a. nid (h ! a)) ` retained h predicate this"
proof -
  obtain h' c where r: "cloneWithRelationships this predicate h = Some (Inr (h', c))"
    "take (length h) h' = h" "graphNodes h' c = {length h ..< length h'}"
    "nid (h' ! c) = nid (h ! this)"
    "card (graphNodes h' c) = card (retained h predicate this)"
    "graphIds h' c = (\<lambda>a. nid (h ! a)) ` retained h predicate this"
    "card (graphEdges h' c) =
       card {(a, d). a \<in> retained h predicate this \<and> d \<in> set (dependencies (h ! a))}"
    by (rule clone_graph[OF w t])
  show ?thesis
    by (intro exI[of _ h'] exI[of _ c] conjI) (rule r(1) r(3) r(5) r(6))+
qed

text \<open>
  C6. \<open>cloneWithRelationships\<close> throws the missing-node error exactly when the three
  passes have run to their end and the id of the calling node is not a key of
  \<open>idToNodeMap\<close>; the result is then the error and no graph. On a well-formed graph
  the call without a predicate returns a clone, so the error is out of reach; with a
  predicate, the inclusion set that the first pass computes is the set of the ids of the
  nodes that a selected node of the graph depends on (itself included), the call throws
  the missing-node error exactly when the id of the calling node is not in that set, and
  returns a clone otherwise.
\<close>

theorem C6_missing_node_error:
  assumes "heapClosed h" and "this < length h"
  shows "((cloneWithRelationships this predicate h = Some (Inl MissingNode)) =
            (\<exists>h' m. cloneGraph this predicate h = Some (Inr (h', m)) \<and>
                     m (nid (h ! this)) = None)) \<and>
         (wellFormedGraph h this \<longrightarrow>
            (\<exists>h' c. cloneWithRelationships this None h = Some (Inr (h', c))) \<and>
            (\<forall>p. \<exists>rt ids. getRootNode h this = Some rt \<and>
               computeIdsToInclude rt (Some p) h = Some (Inr (h, Some ids)) \<and>
               ids = (\<lambda>a. nid (h ! a)) ` retained h (Some p) this \<and>
               (nid (h ! this) \<in> ids) = (this \<in> retained h (Some p) this) \<and>
               ((cloneWithRelationships this (Some p) h = Some (Inl MissingNode)) =
                  (nid (h ! this) \<notin> ids)) \<and>
               (nid (h ! this) \<in> ids \<longrightarrow>
                  (\<exists>h' c. cloneWithRelationships this (Some p) h = Some (Inr (h', c))))))"
proof (intro conjI impI allI)
  show "(cloneWithRelationships this predicate h = Some (Inl MissingNode)) =
      (\<exists>h' m. cloneGraph this predicate h = Some (Inr (h', m)) \<and> m (nid (h ! this)) = None)"
    by (rule missing_node_iff[OF assms])
next
  assume w: "wellFormedGraph h this"
  have "this \<in> retained h None this" by (simp add: retained_def graphNodes_self)
  then show "\<exists>h' c. cloneWithRelationships this None h = Some (Inr (h', c))"
    using clone_returns[OF w, of None] by blast
next
  fix p
  assume w: "wellFormedGraph h this"
  let ?R = "retained h (Some p) this"
  let ?ids = "(\<lambda>a. nid (h ! a)) ` ?R"
  obtain rt where rt: "getRootNode h this = Some rt"
    "computeIdsToInclude rt (Some p) h = Some (Inr (h, Some ?ids))"
    using inclusion_set[OF w, of p] by blast
  have mem: "(nid (h ! this) \<in> ?ids) = (this \<in> ?R)"
  proof
    assume "nid (h ! this) \<in> ?ids"
    then obtain a where a: "a \<in> ?R" "nid (h ! this) = nid (h ! a)" by blast
    have "a \<in> graphNodes h this" using a(1) retained_subset by blast
    then have "this = a" using inj_onD[OF wfD_inj[OF w] a(2) graphNodes_self] by simp
    then show "this \<in> ?R" using a(1) by simp
  next
    assume "this \<in> ?R"
    then show "nid (h ! this) \<in> ?ids" by (rule imageI)
  qed
  have ok: "\<exists>h' c. cloneWithRelationships this (Some p) h = Some (Inr (h', c))" if "this \<in> ?R"
    using clone_returns[OF w that] by blast
  have err: "(cloneWithRelationships this (Some p) h = Some (Inl MissingNode)) =
      (nid (h ! this) \<notin> ?ids)"
  proof (cases "this \<in> ?R")
    case True
    then show ?thesis using ok[OF True] mem by auto
  next
    case False
    then show ?thesis using clone_missing[OF w False] mem by simp
  qed
  show "\<exists>rt ids. getRootNode h this = Some rt \<and>
      computeIdsToInclude rt (Some p) h = Some (Inr (h, Some ids)) \<and>
      ids = ?ids \<and> (nid (h ! this) \<in> ids) = (this \<in> ?R) \<and>
      ((cloneWithRelationships this (Some p) h = Some (Inl MissingNode)) =
         (nid (h ! this) \<notin> ids)) \<and>
      (nid (h ! this) \<in> ids \<longrightarrow>
         (\<exists>h' c. cloneWithRelationships this (Some p) h = Some (Inr (h', c))))"
    using rt mem err ok by blast
qed

lemma missing_chainABCX:
  "cloneWithRelationships 3 (Some (\<lambda>h n. nid (h ! n) = ''A'')) chainABCX = Some (Inl MissingNode)"
  by (simp add: traverse_eval clone_eval chainABCX_def)

theorem C6_missing_node_error_witness:
  "heapClosed chainABCX \<and> 3 < length chainABCX \<and> wellFormedGraph chainABCX 3 \<and>
   cloneWithRelationships 3 (Some (\<lambda>h n. nid (h ! n) = ''A'')) chainABCX = Some (Inl MissingNode) \<and>
   3 \<notin> retained chainABCX (Some (\<lambda>h n. nid (h ! n) = ''A'')) 3 \<and>
   cloneWithRelationships 3 None chainABCX = Some (Inr (clonedChainABCX, 7))"
proof -
  have c: "heapClosed chainABCX" by (simp add: heapClosed_def chainABCX_def)
  have l: "3 < length chainABCX" by (simp add: chainABCX_def)
  note T = C6_missing_node_error[OF c l, of None, THEN conjunct2, rule_format,
      OF wellFormed_chainABCX, THEN conjunct2, rule_format,
      of "\<lambda>h n. nid (h ! n) = ''A''"]
  have "3 \<notin> retained chainABCX (Some (\<lambda>h n. nid (h ! n) = ''A'')) 3"
    using T missing_chainABCX by auto
  then show ?thesis using c l wellFormed_chainABCX missing_chainABCX clone_chainABCX by simp
qed

lemma built_twoRoots: "built twoRoots"
proof -
  have 0: "built ([] :: node list)" by (rule builtEmpty)
  have 1: "built ([] @ [BaseNode ''r1''])"
    by (rule builtNew[OF 0]) (simp_all add: BaseNode_def)
  have 2: "built (([] @ [BaseNode ''r1'']) @ [BaseNode ''r2''])"
    by (rule builtNew[OF 1]) (simp_all add: BaseNode_def)
  have 3: "built ((([] @ [BaseNode ''r1'']) @ [BaseNode ''r2'']) @ [BaseNode ''c''])"
    by (rule builtNew[OF 2]) (simp_all add: BaseNode_def)
  have 4: "built (((([] @ [BaseNode ''r1'']) @ [BaseNode ''r2'']) @ [BaseNode ''c'']) @ [BaseNode ''x''])"
    by (rule builtNew[OF 3]) (simp_all add: BaseNode_def)
  let ?h4 = "[BaseNode ''r1'', BaseNode ''r2'', BaseNode ''c'', BaseNode ''x'']"
  have b4: "built ?h4" using 4 by simp
  have 5: "built (addDependency 2 0 ?h4)" by (rule builtAddDependency[OF b4]) simp_all
  have 6: "built (addDependency 2 1 (addDependency 2 0 ?h4))"
    by (rule builtAddDependency[OF 5]) simp_all
  have 7: "built (addDependency 3 1 (addDependency 2 1 (addDependency 2 0 ?h4)))"
    by (rule builtAddDependency[OF 6]) simp_all
  have "addDependency 3 1 (addDependency 2 1 (addDependency 2 0 ?h4)) = twoRoots"
    by (simp add: addDependency_def BaseNode_def twoRoots_def Let_def)
  then show ?thesis using 7 by simp
qed

text \<open>
  C5, as stated: for every graph and predicate, every node reachable backward along
  dependency edges from a node that satisfies the predicate is retained in the clone. Not
  for every graph. In \<open>twoRoots\<close> the traversal from the root \<open>r1\<close> that
  \<open>getRootNode\<close> finds visits \<open>r1\<close> and \<open>c\<close> only. With a predicate that
  selects \<open>r1\<close> and \<open>x\<close>, the call on \<open>r1\<close> returns a clone that holds
  \<open>r1\<close> alone: \<open>x\<close> satisfies the predicate and depends on \<open>r2\<close>, and
  neither is retained. With a predicate that selects \<open>c\<close>, the call on \<open>c\<close>
  returns no clone: \<open>r2\<close>, a dependency of \<open>c\<close>, has no clone, and wiring the
  dependency on it throws a TypeError.
\<close>

theorem C5_not_retained_with_two_roots:
  "built twoRoots \<and> symmetricEdges twoRoots \<and> distinct (map nid twoRoots) \<and>
   filter (\<lambda>n. nid (twoRoots ! n) \<in> {''r1'', ''x''}) [0, 1, 2, 3] = [0, 3] \<and>
   dependencies (twoRoots ! 3) = [1] \<and>
   traverse 0 (readOnlyCallback (\<lambda>n p x. x @ [n])) getDependents (twoRoots, []) =
     Some (Inr (twoRoots, [0, 2])) \<and>
   cloneWithRelationships 0 (Some (\<lambda>h n. nid (h ! n) \<in> {''r1'', ''x''})) twoRoots =
     Some (Inr (clonedTwoRoots, 4)) \<and>
   map nid (drop (length twoRoots) clonedTwoRoots) = [''r1''] \<and>
   getRootNode twoRoots 2 = Some 0 \<and>
   cloneWithRelationships 2 (Some (\<lambda>h n. nid (h ! n) = ''c'')) twoRoots = Some (Inl TypeError)"
proof -
  have s: "symmetricEdges twoRoots"
    using built_invariant[OF built_twoRoots] edgeCountsAgree_symmetric by blast
  have d: "distinct (map nid twoRoots)"
    "filter (\<lambda>n. nid (twoRoots ! n) \<in> {''r1'', ''x''}) [0, 1, 2, 3] = [0, 3]"
    "dependencies (twoRoots ! 3) = [1]"
    "map nid (drop (length twoRoots) clonedTwoRoots) = [''r1'']"
    by (simp_all add: twoRoots_def clonedTwoRoots_def)
  have r: "getRootNode twoRoots 2 = Some 0"
    by (simp add: getRootNode.simps twoRoots_def)
  have t: "traverse 0 (readOnlyCallback (\<lambda>n p x. x @ [n])) getDependents (twoRoots, []) =
     Some (Inr (twoRoots, [0, 2]))"
    by (simp add: traverse_eval readOnlyCallback_def twoRoots_def)
  have k: "cloneWithRelationships 0 (Some (\<lambda>h n. nid (h ! n) \<in> {''r1'', ''x''})) twoRoots =
     Some (Inr (clonedTwoRoots, 4))"
    by (simp add: traverse_eval clone_eval twoRoots_def clonedTwoRoots_def)
  have c: "cloneWithRelationships 2 (Some (\<lambda>h n. nid (h ! n) = ''c'')) twoRoots =
      Some (Inl TypeError)"
    by (simp add: traverse_eval clone_eval twoRoots_def)
  show ?thesis using built_twoRoots s d r t k c by simp
qed

text \<open>
  C5, amended. On a well-formed graph (one root that every node eventually depends on, no
  dependency cycle, symmetric edges, pairwise distinct ids), for every predicate: the
  retained nodes are the nodes that some node of the graph satisfying the predicate
  depends on, directly or through other nodes, that node included. When the calling node
  is one of them, \<open>cloneWithRelationships\<close> returns a graph with exactly one node for
  each retained node and with the ids of the retained nodes: every node reachable
  backward along dependency edges from a node that satisfies the predicate has a clone in
  it, whether it satisfies the predicate itself or not. When the calling node is not
  retained, the call throws the missing-node error.
\<close>

theorem C5_ancestors_of_selected_retained:
  assumes "wellFormedGraph h this"
  shows "(this \<in> retained h (Some p) this \<longrightarrow>
     (\<exists>h' c. cloneWithRelationships this (Some p) h = Some (Inr (h', c)) \<and>
        graphIds h' c = (\<lambda>a. nid (h ! a)) ` retained h (Some p) this \<and>
        card (graphNodes h' c) = card (retained h (Some p) this) \<and>
        (\<forall>s \<in> graphNodes h this. p h s \<longrightarrow>
           (\<forall>a. (s, a) \<in> (depRel h)\<^sup>* \<longrightarrow>
              (\<exists>a' \<in> graphNodes h' c. length h \<le> a' \<and> nid (h' ! a') = nid (h ! a)))))) \<and>
    (this \<notin> retained h (Some p) this \<longrightarrow>
       cloneWithRelationships this (Some p) h = Some (Inl MissingNode))"
proof (intro conjI impI)
  assume t: "this \<in> retained h (Some p) this"
  obtain h' c where r: "cloneWithRelationships this (Some p) h = Some (Inr (h', c))"
    "graphNodes h' c = {length h ..< length h'}"
    "card (graphNodes h' c) = card (retained h (Some p) this)"
    "graphIds h' c = (\<lambda>a. nid (h ! a)) ` retained h (Some p) this"
    using clone_returns[OF assms t] by blast
  have "\<exists>a' \<in> graphNodes h' c. length h \<le> a' \<and> nid (h' ! a') = nid (h ! a)"
    if "s \<in> graphNodes h this" "p h s" "(s, a) \<in> (depRel h)\<^sup>*" for s a
  proof -
    have "a \<in> retained h (Some p) this" using that by (auto simp: retained_def)
    then have "nid (h ! a) \<in> graphIds h' c" unfolding r(4) by (rule imageI)
    then obtain a' where "a' \<in> graphNodes h' c" "nid (h' ! a') = nid (h ! a)"
      unfolding graphIds_def by force
    then show ?thesis using r(2) by auto
  qed
  then show "\<exists>h' c. cloneWithRelationships this (Some p) h = Some (Inr (h', c)) \<and>
        graphIds h' c = (\<lambda>a. nid (h ! a)) ` retained h (Some p) this \<and>
        card (graphNodes h' c) = card (retained h (Some p) this) \<and>
        (\<forall>s \<in> graphNodes h this. p h s \<longrightarrow>
           (\<forall>a. (s, a) \<in> (depRel h)\<^sup>* \<longrightarrow>
              (\<exists>a' \<in> graphNodes h' c. length h \<le> a' \<and> nid (h' ! a') = nid (h ! a))))"
    using r(1,3,4) by blast
next
  assume "this \<notin> retained h (Some p) this"
  then show "cloneWithRelationships this (Some p) h = Some (Inl MissingNode)"
    by (rule clone_missing[OF assms])
qed

lemma onlyX_chainABCX:
  "cloneWithRelationships 3 (Some (\<lambda>h n. nid (h ! n) = ''X'')) chainABCX =
     Some (Inr (clonedChainABCX, 7))"
  by (simp add: traverse_eval clone_eval chainABCX_def clonedChainABCX_def)

lemma retained_chainABCX:
  "retained chainABCX (Some (\<lambda>h n. nid (h ! n) = ''X'')) 3 = {0, 1, 2, 3}"
proof -
  let ?p = "\<lambda>(h :: node list) n. nid (h ! n) = ''X''"
  have px: "?p chainABCX 3" by (simp add: chainABCX_def)
  have d: "(3, 2) \<in> depRel chainABCX" "(2, 1) \<in> depRel chainABCX" "(1, 0) \<in> depRel chainABCX"
    by (simp_all add: depRel_def chainABCX_def)
  have r3: "(3, 3) \<in> (depRel chainABCX)\<^sup>*" by simp
  have r2: "(3, 2) \<in> (depRel chainABCX)\<^sup>*" using d(1) by (rule r_into_rtrancl)
  have r1: "(3, 1) \<in> (depRel chainABCX)\<^sup>*" using r2 d(2) by (rule rtrancl_into_rtrancl)
  have r0: "(3, 0) \<in> (depRel chainABCX)\<^sup>*" using r1 d(3) by (rule rtrancl_into_rtrancl)
  have in_r: "a \<in> retained chainABCX (Some ?p) 3" if "(3, a) \<in> (depRel chainABCX)\<^sup>*" for a
    unfolding retained_def using px graphNodes_self[of 3 chainABCX] that by auto
  have "{0, 1, 2, 3} \<subseteq> retained chainABCX (Some ?p) 3"
    using in_r[OF r0] in_r[OF r1] in_r[OF r2] in_r[OF r3] by simp
  moreover have "retained chainABCX (Some ?p) 3 \<subseteq> {0, 1, 2, 3}"
    using retained_subset[of chainABCX "Some ?p" 3] unfolding graphNodes_chainABCX .
  ultimately show ?thesis by (rule equalityI[rotated])
qed

theorem C5_ancestors_of_selected_retained_witness:
  "wellFormedGraph chainABCX 3 \<and>
   filter (\<lambda>n. nid (chainABCX ! n) = ''X'') [0, 1, 2, 3] = [3] \<and>
   retained chainABCX (Some (\<lambda>h n. nid (h ! n) = ''X'')) 3 = {0, 1, 2, 3} \<and>
   cloneWithRelationships 3 (Some (\<lambda>h n. nid (h ! n) = ''X'')) chainABCX =
     Some (Inr (clonedChainABCX, 7)) \<and>
   graphIds clonedChainABCX 7 = {''A'', ''B'', ''C'', ''X''} \<and>
   card (graphNodes clonedChainABCX 7) = 4"
proof -
  let ?p = "\<lambda>(h :: node list) n. nid (h ! n) = ''X''"
  have t: "3 \<in> retained chainABCX (Some ?p) 3" unfolding retained_chainABCX by simp
  note T = C5_ancestors_of_selected_retained[OF wellFormed_chainABCX, of ?p,
      THEN conjunct1, rule_format, OF t]
  from T obtain h' c where r: "cloneWithRelationships 3 (Some ?p) chainABCX = Some (Inr (h', c))"
    and i: "graphIds h' c = (\<lambda>a. nid (chainABCX ! a)) ` retained chainABCX (Some ?p) 3"
    and n: "card (graphNodes h' c) = card (retained chainABCX (Some ?p) 3)"
    by (elim exE conjE)
  have hc: "h' = clonedChainABCX" "c = 7" using r onlyX_chainABCX by simp_all
  have i': "graphIds clonedChainABCX 7 = {''A'', ''B'', ''C'', ''X''}"
    using i unfolding hc retained_chainABCX by (simp add: chainABCX_def)
  have n': "card (graphNodes clonedChainABCX 7) = 4"
    using n unfolding hc retained_chainABCX by simp
  have f: "filter (\<lambda>n. nid (chainABCX ! n) = ''X'') [0, 1, 2, 3] = [3]"
    by (simp add: chainABCX_def)
  show ?thesis using wellFormed_chainABCX f retained_chainABCX onlyX_chainABCX i' n' by simp
qed

section \<open>The estimate graphs\<close>

lemma fold_collectCpu:
  "foldCallback (collectCpuCallback fcpTs) ps (h, acc) =
     Some (Inr (h, acc @ startedCpuNodes h fcpTs (map hd ps)))"
  by (induction ps arbitrary: acc) (simp_all add: collectCpuCallback_def startedCpuNodes_def)

lemma set_setAdd: "set (setAdd x xs) = insert x (set xs)"
  by (auto simp: setAdd_def)

lemma fold_scriptUrl:
  "\<exists>us. foldCallback (scriptUrlCallback cond) ps (h, acc) = Some (Inr (h, us)) \<and>
     set us = set acc \<union> (\<lambda>n. url (node.more (h ! n))) `
       {n \<in> set (map hd ps). nodeType (h ! n) \<noteq> CPU \<and> cond (h ! n)}"
proof (induction ps arbitrary: acc)
  case Nil
  show ?case by simp
next
  case (Cons p ps)
  show ?case
  proof (cases "nodeType (h ! hd p) \<noteq> CPU \<and> cond (h ! hd p)")
    case True
    obtain us where us: "foldCallback (scriptUrlCallback cond) ps
        (h, setAdd (url (node.more (h ! hd p))) acc) = Some (Inr (h, us))"
      "set us = set (setAdd (url (node.more (h ! hd p))) acc) \<union>
        (\<lambda>n. url (node.more (h ! n))) ` {n \<in> set (map hd ps). nodeType (h ! n) \<noteq> CPU \<and> cond (h ! n)}"
      using Cons.IH by blast
    have "foldCallback (scriptUrlCallback cond) (p # ps) (h, acc) = Some (Inr (h, us))"
      using True us(1) by (simp add: scriptUrlCallback_def)
    moreover have "set us = set acc \<union> (\<lambda>n. url (node.more (h ! n))) `
        {n \<in> set (map hd (p # ps)). nodeType (h ! n) \<noteq> CPU \<and> cond (h ! n)}"
      unfolding us(2) set_setAdd using True by auto
    ultimately show ?thesis by blast
  next
    case False
    obtain us where us: "foldCallback (scriptUrlCallback cond) ps (h, acc) = Some (Inr (h, us))"
      "set us = set acc \<union>
        (\<lambda>n. url (node.more (h ! n))) ` {n \<in> set (map hd ps). nodeType (h ! n) \<noteq> CPU \<and> cond (h ! n)}"
      using Cons.IH by blast
    have "foldCallback (scriptUrlCallback cond) (p # ps) (h, acc) = Some (Inr (h, us))"
      using False us(1) by (auto simp: scriptUrlCallback_def)
    moreover have "set us = set acc \<union> (\<lambda>n. url (node.more (h ! n))) `
        {n \<in> set (map hd (p # ps)). nodeType (h ! n) \<noteq> CPU \<and> cond (h ! n)}"
      unfolding us(2) using False by auto
    ultimately show ?thesis by blast
  qed
qed

lemma scanCpuNodes_sets:
  "scanCpuNodes h u cs (act, ids) = (act', ids') \<Longrightarrow>
   set act' = set act \<union> (if \<exists>c \<in> set cs. isEvaluateScriptFor (node.more (h ! c)) {u} then {u} else {}) \<and>
   stringsOf ids' = stringsOf ids"
proof (induction cs)
  case Nil
  then show ?case by simp
next
  case (Cons c cs)
  show ?case
  proof (cases "isEvaluateScriptFor (node.more (h ! c)) {u}")
    case True
    then have "act' = setAdd u act" "ids' = setAdd (JNode c) ids" using Cons.prems by simp_all
    then show ?thesis using True by (auto simp: set_setAdd stringsOf_def)
  next
    case False
    then show ?thesis using Cons by simp
  qed
qed

lemma fold_scanCpuNodes:
  "fold (\<lambda>u acc. scanCpuNodes h u cs acc) us (act, ids) = (act', ids') \<Longrightarrow>
   set act' = set act \<union> {u \<in> set us. \<exists>c \<in> set cs. isEvaluateScriptFor (node.more (h ! c)) {u}} \<and>
   stringsOf ids' = stringsOf ids"
proof (induction us arbitrary: act ids)
  case Nil
  then show ?case by simp
next
  case (Cons u us)
  obtain a1 i1 where s: "scanCpuNodes h u cs (act, ids) = (a1, i1)"
    by (cases "scanCpuNodes h u cs (act, ids)")
  have 1: "set a1 = set act \<union> (if \<exists>c \<in> set cs. isEvaluateScriptFor (node.more (h ! c)) {u} then {u} else {})"
    "stringsOf i1 = stringsOf ids"
    using scanCpuNodes_sets[OF s] by simp_all
  have "fold (\<lambda>u acc. scanCpuNodes h u cs acc) us (a1, i1) = (act', ids')"
    using Cons.prems s by simp
  then have 2: "set act' = set a1 \<union> {u \<in> set us. \<exists>c \<in> set cs. isEvaluateScriptFor (node.more (h ! c)) {u}}"
    "stringsOf ids' = stringsOf i1"
    using Cons.IH by simp_all
  show ?case unfolding 2 1 by auto
qed

lemma stringsOf_addFound:
  "stringsOf (addFound h found ids) =
     stringsOf ids \<union> (case found of None \<Rightarrow> {} | Some n \<Rightarrow> {nid (h ! n)})"
  by (auto simp: addFound_def stringsOf_def set_setAdd split: option.splits)

lemma getBlockingCpuData_sets:
  assumes c: "heapClosed h" and g: "g < length h"
    and run: "bfsRun h getDependents {nid (h ! g)} [[g]] ps"
  shows "\<exists>d. getBlockingCpuData g fcpTs f None h = Some (Inr (h, d)) \<and>
     set (possiblyRenderBlockingScriptUrls d) = possiblyBlocking h fcpTs f (map hd ps) \<and>
     set (actuallyRenderBlockingScriptUrls d) = actuallyBlocking h fcpTs f (map hd ps) \<and>
     stringsOf (blockingCpuNodeIds d) = markedCpuIds h fcpTs (map hd ps)"
proof -
  let ?ns = "map hd ps"
  let ?cond = "\<lambda>n. endTime (node.more n) \<le> fcpTs \<and> f n"
  let ?collected = "startedCpuNodes h fcpTs ?ns"
  let ?cpu = "sort_key (\<lambda>n. startTime (node.more (h ! n))) ?collected"
  have nx: "\<forall>n < length h. \<forall>m \<in> set (getDependents h n). m < length h"
    by (rule closed_getDependents[OF c])
  have "traverse g (collectCpuCallback fcpTs) getDependents (h, []) =
      foldCallback (collectCpuCallback fcpTs) ps (h, [])"
    by (rule traverse_fold_same_heap[OF nx g run])
       (auto simp: collectCpuCallback_def split: if_splits)
  then have t1: "traverse g (collectCpuCallback fcpTs) getDependents (h, []) =
      Some (Inr (h, ?collected))"
    by (simp add: fold_collectCpu)
  have t2': "traverse g (scriptUrlCallback ?cond) getDependents (h, []) =
      foldCallback (scriptUrlCallback ?cond) ps (h, [])"
    by (rule traverse_fold_same_heap[OF nx g run])
       (auto simp: scriptUrlCallback_def split: if_splits)
  obtain us where us: "foldCallback (scriptUrlCallback ?cond) ps (h, []) = Some (Inr (h, us))"
    and su: "set us = set [] \<union> (\<lambda>n. url (node.more (h ! n))) `
       {n \<in> set ?ns. nodeType (h ! n) \<noteq> CPU \<and> ?cond (h ! n)}"
    using fold_scriptUrl[of ?cond ps h "[]"] by blast
  have t2: "getScriptUrls g ?cond h = Some (Inr (h, us))"
    unfolding getScriptUrls_def t2' us ..
  have pos: "set us = possiblyBlocking h fcpTs f ?ns"
    unfolding su possiblyBlocking_def by simp
  obtain act ids0 where sc: "fold (\<lambda>u acc. scanCpuNodes h u ?cpu acc) us ([], []) = (act, ids0)"
    by (cases "fold (\<lambda>u acc. scanCpuNodes h u ?cpu acc) us ([], [])")
  have a: "set act = set [] \<union> {u \<in> set us. \<exists>c \<in> set ?cpu. isEvaluateScriptFor (node.more (h ! c)) {u}}"
    and i0: "stringsOf ids0 = stringsOf []"
    using fold_scanCpuNodes[OF sc] by simp_all
  have act: "set act = actuallyBlocking h fcpTs f ?ns"
    unfolding a actuallyBlocking_def pos by simp
  let ?fl = "find (\<lambda>n. didPerformLayout (node.more (h ! n))) ?cpu"
  let ?fp = "find (\<lambda>n. ''Paint'' \<in> set (childEvents (node.more (h ! n)))) ?cpu"
  let ?fh = "find (\<lambda>n. ''ParseHTML'' \<in> set (childEvents (node.more (h ! n)))) ?cpu"
  let ?ids = "addFound h ?fh (addFound h ?fp (addFound h ?fl ids0))"
  let ?d = "\<lparr>possiblyRenderBlockingScriptUrls = us, actuallyRenderBlockingScriptUrls = act,
             blockingCpuNodeIds = ?ids\<rparr>"
  have r: "getBlockingCpuData g fcpTs f None h = Some (Inr (h, ?d))"
    unfolding getBlockingCpuData_def by (simp add: t1 t2 andThen_def Let_def sc)
  have ids: "stringsOf ?ids = markedCpuIds h fcpTs ?ns"
    unfolding stringsOf_addFound i0 markedCpuIds_def Let_def
    by (auto simp: stringsOf_def)
  show ?thesis
    by (intro exI[of _ ?d] conjI) (simp_all add: r pos act ids)
qed

lemma not_CPU: "(t \<noteq> CPU) = (t = NETWORK)"
  by (cases t) simp_all

lemma firstPaintPredicate_mono:
  assumes po: "set (possiblyRenderBlockingScriptUrls d1) =
      possiblyBlocking h fcpTs (\<lambda>n. hasRenderBlockingPriority (node.more n) \<and>
        initiatorType (node.more n) \<noteq> ''script'') ns"
    and ao: "set (actuallyRenderBlockingScriptUrls d1) =
      actuallyBlocking h fcpTs (\<lambda>n. hasRenderBlockingPriority (node.more n) \<and>
        initiatorType (node.more n) \<noteq> ''script'') ns"
    and pp: "set (possiblyRenderBlockingScriptUrls d2) =
      possiblyBlocking h fcpTs (\<lambda>n. hasRenderBlockingPriority (node.more n)) ns"
    and ap: "set (actuallyRenderBlockingScriptUrls d2) =
      actuallyBlocking h fcpTs (\<lambda>n. hasRenderBlockingPriority (node.more n)) ns"
    and ids: "stringsOf (blockingCpuNodeIds d1) = stringsOf (blockingCpuNodeIds d2)"
    and ev: "scriptsEvaluated h fcpTs (set ns)"
    and p: "firstPaintPredicate fcpTs d1 h n"
  shows "firstPaintPredicate fcpTs d2 h n"
proof (cases "nodeType (h ! n) = NETWORK")
  case False
  then show ?thesis using p ids by (simp add: firstPaintPredicate_def stringsOf_def set_eq_iff)
next
  case True
  let ?u = "url (node.more (h ! n))"
  let ?fo = "\<lambda>n :: lnode. hasRenderBlockingPriority (node.more n) \<and>
        initiatorType (node.more n) \<noteq> ''script''"
  let ?fp = "\<lambda>n :: lnode. hasRenderBlockingPriority (node.more n)"
  have late: "\<not> (endTime (node.more (h ! n)) > fcpTs \<and> \<not> isMainDocument (h ! n))"
    using p True by (auto simp: firstPaintPredicate_def split: if_splits)
  have sub: "possiblyBlocking h fcpTs ?fo ns \<subseteq> possiblyBlocking h fcpTs ?fp ns"
    unfolding possiblyBlocking_def by blast
  have goal: "?u \<in> possiblyBlocking h fcpTs ?fp ns \<longrightarrow> ?u \<in> actuallyBlocking h fcpTs ?fp ns"
    and goal2: "?u \<notin> possiblyBlocking h fcpTs ?fp ns \<longrightarrow> hasRenderBlockingPriority (node.more (h ! n))"
  proof -
    show "?u \<in> possiblyBlocking h fcpTs ?fp ns \<longrightarrow> ?u \<in> actuallyBlocking h fcpTs ?fp ns"
    proof
      assume up: "?u \<in> possiblyBlocking h fcpTs ?fp ns"
      show "?u \<in> actuallyBlocking h fcpTs ?fp ns"
      proof (cases "?u \<in> possiblyBlocking h fcpTs ?fo ns")
        case True
        then have "?u \<in> actuallyBlocking h fcpTs ?fo ns"
          using p \<open>nodeType (h ! n) = NETWORK\<close> late po ao
          by (auto simp: firstPaintPredicate_def)
        then show ?thesis using up unfolding actuallyBlocking_def by blast
      next
        case False
        from up obtain n' where n': "n' \<in> set ns" "nodeType (h ! n') \<noteq> CPU"
          "endTime (node.more (h ! n')) \<le> fcpTs" "hasRenderBlockingPriority (node.more (h ! n'))"
          "?u = url (node.more (h ! n'))"
          unfolding possiblyBlocking_def by blast
        have "initiatorType (node.more (h ! n')) = ''script''"
        proof (rule ccontr)
          assume "initiatorType (node.more (h ! n')) \<noteq> ''script''"
          then have "url (node.more (h ! n')) \<in> possiblyBlocking h fcpTs ?fo ns"
            unfolding possiblyBlocking_def using n'(1-4) by blast
          then show False using False n'(5) by simp
        qed
        then obtain c where c: "c \<in> set ns" "nodeType (h ! c) = CPU"
          "startTime (node.more (h ! c)) \<le> fcpTs"
          "isEvaluateScriptFor (node.more (h ! c)) {url (node.more (h ! n'))}"
          using ev n'(1-4) unfolding scriptsEvaluated_def not_CPU by blast
        have "c \<in> set (startedCpuNodes h fcpTs ns)" using c(1-3) by (simp add: startedCpuNodes_def)
        then show ?thesis using up c(4) n'(5) unfolding actuallyBlocking_def by auto
      qed
    qed
    show "?u \<notin> possiblyBlocking h fcpTs ?fp ns \<longrightarrow> hasRenderBlockingPriority (node.more (h ! n))"
    proof
      assume "?u \<notin> possiblyBlocking h fcpTs ?fp ns"
      then have "?u \<notin> possiblyBlocking h fcpTs ?fo ns" using sub by blast
      then show "hasRenderBlockingPriority (node.more (h ! n))"
        using p True late po by (auto simp: firstPaintPredicate_def)
    qed
  qed
  show ?thesis
    using True late goal goal2 pp ap by (auto simp: firstPaintPredicate_def)
qed

lemma retained_mono:
  assumes "\<And>n. p h n \<Longrightarrow> q h n"
  shows "retained h (Some p) g \<subseteq> retained h (Some q) g"
  unfolding retained_def using assms by auto

lemma traversed_run:
  assumes w: "wellFormedGraph h g"
  shows "\<exists>ps. bfsRun h getDependents {nid (h ! g)} [[g]] ps \<and> set (map hd ps) = traversed h g"
proof -
  have u: "uniqueIds h (getDependents h) g" by (rule uniqueIds_dependents[OF w graphNodes_self])
  obtain ps visited' where run: "bfsRun h getDependents {nid (h ! g)} [[g]] ps"
    and inv: "bfsInv h (getDependents h) g visited' [] ps"
    using bfs_total[of g h getDependents, OF wfD_bound[OF w] closed_getDependents[OF wfD_closed[OF w]] u]
    by blast
  have "set (map hd ps) = traversed h g"
    unfolding traversed_def by (rule bfsInv_final_nodes[OF inv u])
  then show ?thesis using run by blast
qed

lemma finite_retained:
  assumes w: "wellFormedGraph h g"
  shows "finite (retained h predicate g)"
proof (rule finite_subset)
  show "retained h predicate g \<subseteq> {..< length h}"
    using retained_subset[of h predicate g] wfD_nodes[OF w] by auto
qed simp

lemma estimate_graphs:
  assumes w: "wellFormedGraph h g"
  obtains d1 d2 where
    "getBlockingCpuData g (firstContentfulPaint t)
       (\<lambda>n. hasRenderBlockingPriority (node.more n) \<and> initiatorType (node.more n) \<noteq> ''script'')
       None h = Some (Inr (h, d1))"
    and "getBlockingCpuData g (firstContentfulPaint t)
       (\<lambda>n. hasRenderBlockingPriority (node.more n)) None h = Some (Inr (h, d2))"
    and "getOptimisticGraph g t h =
       cloneWithRelationships g (Some (firstPaintPredicate (firstContentfulPaint t) d1)) h"
    and "getPessimisticGraph g t h =
       cloneWithRelationships g (Some (firstPaintPredicate (firstContentfulPaint t) d2)) h"
    and "scriptsEvaluated h (firstContentfulPaint t) (traversed h g) \<longrightarrow>
       retained h (Some (firstPaintPredicate (firstContentfulPaint t) d1)) g \<subseteq>
       retained h (Some (firstPaintPredicate (firstContentfulPaint t) d2)) g"
proof -
  let ?fcp = "firstContentfulPaint t"
  let ?fo = "\<lambda>n :: lnode. hasRenderBlockingPriority (node.more n) \<and>
        initiatorType (node.more n) \<noteq> ''script''"
  let ?fp = "\<lambda>n :: lnode. hasRenderBlockingPriority (node.more n)"
  obtain ps where run: "bfsRun h getDependents {nid (h ! g)} [[g]] ps"
    and ns: "set (map hd ps) = traversed h g"
    using traversed_run[OF w] by blast
  obtain d1 where d1: "getBlockingCpuData g ?fcp ?fo None h = Some (Inr (h, d1))"
    "set (possiblyRenderBlockingScriptUrls d1) = possiblyBlocking h ?fcp ?fo (map hd ps)"
    "set (actuallyRenderBlockingScriptUrls d1) = actuallyBlocking h ?fcp ?fo (map hd ps)"
    "stringsOf (blockingCpuNodeIds d1) = markedCpuIds h ?fcp (map hd ps)"
    using getBlockingCpuData_sets[OF wfD_closed[OF w] wfD_bound[OF w] run, of ?fcp ?fo] by blast
  obtain d2 where d2: "getBlockingCpuData g ?fcp ?fp None h = Some (Inr (h, d2))"
    "set (possiblyRenderBlockingScriptUrls d2) = possiblyBlocking h ?fcp ?fp (map hd ps)"
    "set (actuallyRenderBlockingScriptUrls d2) = actuallyBlocking h ?fcp ?fp (map hd ps)"
    "stringsOf (blockingCpuNodeIds d2) = markedCpuIds h ?fcp (map hd ps)"
    using getBlockingCpuData_sets[OF wfD_closed[OF w] wfD_bound[OF w] run, of ?fcp ?fp] by blast
  have o: "getOptimisticGraph g t h = cloneWithRelationships g (Some (firstPaintPredicate ?fcp d1)) h"
    by (simp add: getOptimisticGraph_def getFirstPaintBasedGraph_def d1(1) andThen_def)
  have p: "getPessimisticGraph g t h = cloneWithRelationships g (Some (firstPaintPredicate ?fcp d2)) h"
    by (simp add: getPessimisticGraph_def getFirstPaintBasedGraph_def d2(1) andThen_def)
  have m: "retained h (Some (firstPaintPredicate ?fcp d1)) g \<subseteq>
       retained h (Some (firstPaintPredicate ?fcp d2)) g"
    if ev: "scriptsEvaluated h ?fcp (traversed h g)"
  proof (rule retained_mono)
    fix n assume "firstPaintPredicate ?fcp d1 h n"
    then show "firstPaintPredicate ?fcp d2 h n"
      using firstPaintPredicate_mono[OF d1(2,3) d2(2,3) _ _, of n] d1(4) d2(4) ev ns by simp
  qed
  have m': "scriptsEvaluated h ?fcp (traversed h g) \<longrightarrow>
       retained h (Some (firstPaintPredicate ?fcp d1)) g \<subseteq>
       retained h (Some (firstPaintPredicate ?fcp d2)) g"
    using m by blast
  show ?thesis by (rule that[OF d1(1) d2(1) o p m'])
qed

lemma clone_nodes:
  assumes w: "wellFormedGraph h this"
    and r: "cloneWithRelationships this predicate h = Some (Inr (h', c))"
  shows "graphNodes h' c = {length h ..< length h'}"
proof (cases "this \<in> retained h predicate this")
  case False
  then show ?thesis using clone_missing[OF w False] r by simp
next
  case True
  obtain h2 c2 where g: "cloneWithRelationships this predicate h = Some (Inr (h2, c2))"
    "take (length h) h2 = h" "graphNodes h2 c2 = {length h ..< length h2}"
    "nid (h2 ! c2) = nid (h ! this)"
    "card (graphNodes h2 c2) = card (retained h predicate this)"
    "graphIds h2 c2 = (\<lambda>a. nid (h ! a)) ` retained h predicate this"
    "card (graphEdges h2 c2) =
       card {(a, d). a \<in> retained h predicate this \<and> d \<in> set (dependencies (h ! a))}"
    by (rule clone_graph[OF w True])
  show ?thesis using g(1,3) r by simp
qed

text \<open>
  C2, as stated: whenever the graph holds a render-blocking network node that a script
  initiated, the optimistic graph has no more nodes than the pessimistic one. It can have
  more: the optimistic filter leaves a script-initiated script out of the possibly
  blocking URLs, and a URL that is not possibly blocking is kept for its render-blocking
  priority alone, while the pessimistic graph drops the script because no CPU node
  evaluates it.
\<close>

theorem C2_optimistic_graph_larger:
  "built unevaluatedScript \<and> wellFormedGraph unevaluatedScript 0 \<and>
   nodeType (unevaluatedScript ! 1) = NETWORK \<and>
   hasRenderBlockingPriority (node.more (unevaluatedScript ! 1)) \<and>
   initiatorType (node.more (unevaluatedScript ! 1)) = ''script'' \<and>
   getOptimisticGraph 0 \<lparr>firstContentfulPaint = 150\<rparr> unevaluatedScript =
     Some (Inr (unevaluatedScriptOptimistic, 2)) \<and>
   getPessimisticGraph 0 \<lparr>firstContentfulPaint = 150\<rparr> unevaluatedScript =
     Some (Inr (unevaluatedScriptPessimistic, 2)) \<and>
   card (graphNodes unevaluatedScriptOptimistic 2) = 2 \<and>
   card (graphNodes unevaluatedScriptPessimistic 2) = 1"
proof -
  let ?h = unevaluatedScript
  let ?doc = "\<lparr>nid = ''doc'', isMainDocument = True, dependents = [], dependencies = [],
      \<dots> = NetworkNode 0 200 ''http://a/'' True ''other''\<rparr>"
  let ?js = "\<lparr>nid = ''js'', isMainDocument = False, dependents = [], dependencies = [],
      \<dots> = NetworkNode 60 100 ''http://a/s.js'' True ''script''\<rparr>"
  have 0: "built ([] :: payload heap)" by (rule builtEmpty)
  have 1: "built ([] @ [?doc])" by (rule builtNew[OF 0]) simp_all
  have 2: "built (([] @ [?doc]) @ [?js])" by (rule builtNew[OF 1]) simp_all
  have b2: "built [?doc, ?js]" using 2 by simp
  have 3: "built (addDependency 1 0 [?doc, ?js])" by (rule builtAddDependency[OF b2]) simp_all
  have "addDependency 1 0 [?doc, ?js] = ?h"
    by (simp add: addDependency_def unevaluatedScript_def Let_def)
  then have b: "built ?h" using 3 by simp
  have w: "wellFormedGraph ?h 0"
    by (rule wellFormedGraphI)
       (simp_all add: heapClosed_def symmetricEdges_def unevaluatedScript_def All_less_Suc
          eval_nat_numeral)
  have n: "nodeType (?h ! 1) = NETWORK" "hasRenderBlockingPriority (node.more (?h ! 1))"
    "initiatorType (node.more (?h ! 1)) = ''script''"
    by (simp_all add: unevaluatedScript_def nodeType_def)
  have o: "getOptimisticGraph 0 \<lparr>firstContentfulPaint = 150\<rparr> ?h =
      Some (Inr (unevaluatedScriptOptimistic, 2))"
    by (simp add: traverse_eval clone_eval classifier_eval getOptimisticGraph_def
        getFirstPaintBasedGraph_def firstPaintPredicate_def unevaluatedScript_def
        unevaluatedScriptOptimistic_def)
  have p: "getPessimisticGraph 0 \<lparr>firstContentfulPaint = 150\<rparr> ?h =
      Some (Inr (unevaluatedScriptPessimistic, 2))"
    by (simp add: traverse_eval clone_eval classifier_eval getPessimisticGraph_def
        getFirstPaintBasedGraph_def firstPaintPredicate_def unevaluatedScript_def
        unevaluatedScriptPessimistic_def)
  obtain d1 d2 where e: "getOptimisticGraph 0 \<lparr>firstContentfulPaint = 150\<rparr> ?h =
       cloneWithRelationships 0
         (Some (firstPaintPredicate (firstContentfulPaint \<lparr>firstContentfulPaint = 150\<rparr>) d1)) ?h"
    "getPessimisticGraph 0 \<lparr>firstContentfulPaint = 150\<rparr> ?h =
       cloneWithRelationships 0
         (Some (firstPaintPredicate (firstContentfulPaint \<lparr>firstContentfulPaint = 150\<rparr>) d2)) ?h"
    using estimate_graphs[OF w, of "\<lparr>firstContentfulPaint = 150\<rparr>"] by metis
  have "graphNodes unevaluatedScriptOptimistic 2 = {length ?h ..< length unevaluatedScriptOptimistic}"
    by (rule clone_nodes[OF w o[unfolded e(1)]])
  then have co: "card (graphNodes unevaluatedScriptOptimistic 2) = 2"
    by (simp add: unevaluatedScript_def unevaluatedScriptOptimistic_def)
  have "graphNodes unevaluatedScriptPessimistic 2 = {length ?h ..< length unevaluatedScriptPessimistic}"
    by (rule clone_nodes[OF w p[unfolded e(2)]])
  then have cp: "card (graphNodes unevaluatedScriptPessimistic 2) = 1"
    by (simp add: unevaluatedScript_def unevaluatedScriptPessimistic_def)
  show ?thesis using b w n o p co cp by simp
qed

text \<open>
  C2, amended. On a well-formed graph in which every render-blocking, script-initiated
  network node that the classifier visits and that ended by the paint has its script
  evaluated by a CPU node that the classifier visits and that started by the paint: the
  classifier returns its data under both filters, and the nodes retained under the
  predicate of the optimistic graph are among those retained under the predicate of the
  pessimistic graph. When the calling node is retained under the optimistic predicate,
  both \<open>getOptimisticGraph\<close> and \<open>getPessimisticGraph\<close> return a graph, each with
  one node for every node retained, the optimistic graph has no more nodes than the
  pessimistic one, and every id of the optimistic graph is an id of the pessimistic
  graph. Otherwise \<open>getOptimisticGraph\<close> throws the missing-node error.
\<close>

theorem C2_optimistic_graph_no_larger:
  assumes "wellFormedGraph h g"
    and "scriptsEvaluated h (firstContentfulPaint t) (traversed h g)"
  shows "\<exists>d1 d2.
     getBlockingCpuData g (firstContentfulPaint t)
       (\<lambda>n. hasRenderBlockingPriority (node.more n) \<and> initiatorType (node.more n) \<noteq> ''script'')
       None h = Some (Inr (h, d1)) \<and>
     getBlockingCpuData g (firstContentfulPaint t)
       (\<lambda>n. hasRenderBlockingPriority (node.more n)) None h = Some (Inr (h, d2)) \<and>
     retained h (Some (firstPaintPredicate (firstContentfulPaint t) d1)) g \<subseteq>
       retained h (Some (firstPaintPredicate (firstContentfulPaint t) d2)) g \<and>
     (if g \<in> retained h (Some (firstPaintPredicate (firstContentfulPaint t) d1)) g
      then \<exists>ho co hp cp. getOptimisticGraph g t h = Some (Inr (ho, co)) \<and>
             getPessimisticGraph g t h = Some (Inr (hp, cp)) \<and>
             card (graphNodes ho co) =
               card (retained h (Some (firstPaintPredicate (firstContentfulPaint t) d1)) g) \<and>
             card (graphNodes hp cp) =
               card (retained h (Some (firstPaintPredicate (firstContentfulPaint t) d2)) g) \<and>
             card (graphNodes ho co) \<le> card (graphNodes hp cp) \<and>
             graphIds ho co \<subseteq> graphIds hp cp
      else getOptimisticGraph g t h = Some (Inl MissingNode))"
proof -
  let ?fcp = "firstContentfulPaint t"
  obtain d1 d2 where b1: "getBlockingCpuData g ?fcp
       (\<lambda>n. hasRenderBlockingPriority (node.more n) \<and> initiatorType (node.more n) \<noteq> ''script'')
       None h = Some (Inr (h, d1))"
    and b2: "getBlockingCpuData g ?fcp
       (\<lambda>n. hasRenderBlockingPriority (node.more n)) None h = Some (Inr (h, d2))"
    and o: "getOptimisticGraph g t h =
       cloneWithRelationships g (Some (firstPaintPredicate ?fcp d1)) h"
    and p: "getPessimisticGraph g t h =
       cloneWithRelationships g (Some (firstPaintPredicate ?fcp d2)) h"
    and m: "scriptsEvaluated h ?fcp (traversed h g) \<longrightarrow>
       retained h (Some (firstPaintPredicate ?fcp d1)) g \<subseteq>
       retained h (Some (firstPaintPredicate ?fcp d2)) g"
    by (rule estimate_graphs[OF assms(1), where t = t])
  let ?Ro = "retained h (Some (firstPaintPredicate ?fcp d1)) g"
  let ?Rp = "retained h (Some (firstPaintPredicate ?fcp d2)) g"
  have sub: "?Ro \<subseteq> ?Rp" using m assms(2) by blast
  have br: "if g \<in> ?Ro
      then \<exists>ho co hp cp. getOptimisticGraph g t h = Some (Inr (ho, co)) \<and>
             getPessimisticGraph g t h = Some (Inr (hp, cp)) \<and>
             card (graphNodes ho co) = card ?Ro \<and> card (graphNodes hp cp) = card ?Rp \<and>
             card (graphNodes ho co) \<le> card (graphNodes hp cp) \<and>
             graphIds ho co \<subseteq> graphIds hp cp
      else getOptimisticGraph g t h = Some (Inl MissingNode)"
  proof (cases "g \<in> ?Ro")
    case False
    then show ?thesis using clone_missing[OF assms(1) False] o by simp
  next
    case True
    then have tp: "g \<in> ?Rp" using sub by blast
    obtain ho co where ro: "cloneWithRelationships g (Some (firstPaintPredicate ?fcp d1)) h =
        Some (Inr (ho, co))"
      "graphNodes ho co = {length h ..< length ho}"
      "card (graphNodes ho co) = card ?Ro"
      "graphIds ho co = (\<lambda>a. nid (h ! a)) ` ?Ro"
      using clone_returns[OF assms(1) True] by blast
    obtain hp cp where rp: "cloneWithRelationships g (Some (firstPaintPredicate ?fcp d2)) h =
        Some (Inr (hp, cp))"
      "graphNodes hp cp = {length h ..< length hp}"
      "card (graphNodes hp cp) = card ?Rp"
      "graphIds hp cp = (\<lambda>a. nid (h ! a)) ` ?Rp"
      using clone_returns[OF assms(1) tp] by blast
    have c: "card (graphNodes ho co) \<le> card (graphNodes hp cp)"
      unfolding ro(3) rp(3) by (rule card_mono[OF finite_retained[OF assms(1)] sub])
    have i: "graphIds ho co \<subseteq> graphIds hp cp"
      unfolding ro(4) rp(4) using sub by (rule image_mono)
    have "\<exists>ho co hp cp. getOptimisticGraph g t h = Some (Inr (ho, co)) \<and>
        getPessimisticGraph g t h = Some (Inr (hp, cp)) \<and>
        card (graphNodes ho co) = card ?Ro \<and> card (graphNodes hp cp) = card ?Rp \<and>
        card (graphNodes ho co) \<le> card (graphNodes hp cp) \<and>
        graphIds ho co \<subseteq> graphIds hp cp"
      by (intro exI[of _ ho] exI[of _ co] exI[of _ hp] exI[of _ cp] conjI)
         (simp_all add: o p ro(1) rp(1) ro(3) rp(3) c[unfolded ro(3) rp(3)] i)
    then show ?thesis using True by simp
  qed
  show ?thesis
    by (intro exI[of _ d1] exI[of _ d2] conjI) (rule b1 b2 sub br)+
qed

lemma traversed_evaluatedScript: "traversed evaluatedScript 0 = {0, 1, 2}"
proof (intro set_eqI iffI)
  fix n assume "n \<in> traversed evaluatedScript 0"
  then obtain p where p: "validPath (getDependents evaluatedScript) 0 p" "hd p = n"
    unfolding traversed_def by blast
  have c: "heapClosed evaluatedScript" by (simp add: heapClosed_def evaluatedScript_def)
  have "hd p < length evaluatedScript"
    by (rule validPath_hd_bound[OF closed_getDependents[OF c] _ p(1)])
       (simp add: evaluatedScript_def)
  then have "n < 3" using p(2) by (simp add: evaluatedScript_def)
  then show "n \<in> {0, 1, 2}" by auto
next
  fix n :: nat assume "n \<in> {0, 1, 2}"
  then consider "n = 0" | "n = 1" | "n = 2" by auto
  then show "n \<in> traversed evaluatedScript 0"
  proof cases
    case 1
    have "validPath (getDependents evaluatedScript) 0 [0]" by simp
    then show ?thesis unfolding traversed_def 1 by (intro CollectI exI[of _ "[0]"]) simp
  next
    case 2
    have "validPath (getDependents evaluatedScript) 0 [1, 0]"
      by (simp add: getDependents_def evaluatedScript_def)
    then show ?thesis unfolding traversed_def 2 by (intro CollectI exI[of _ "[1, 0]"]) simp
  next
    case 3
    have "validPath (getDependents evaluatedScript) 0 [2, 1, 0]"
      by (simp add: getDependents_def evaluatedScript_def)
    then show ?thesis unfolding traversed_def 3 by (intro CollectI exI[of _ "[2, 1, 0]"]) simp
  qed
qed

lemma optimistic_evaluatedScript:
  "getOptimisticGraph 0 \<lparr>firstContentfulPaint = 150\<rparr> evaluatedScript =
     Some (Inr (graphOf (getOptimisticGraph 0 \<lparr>firstContentfulPaint = 150\<rparr> evaluatedScript), 3))"
  by (simp add: traverse_eval clone_eval classifier_eval evaluatedScript_def graphOf_def
      getOptimisticGraph_def getFirstPaintBasedGraph_def firstPaintPredicate_def)

lemma pessimistic_evaluatedScript:
  "getPessimisticGraph 0 \<lparr>firstContentfulPaint = 150\<rparr> evaluatedScript =
     Some (Inr (graphOf (getPessimisticGraph 0 \<lparr>firstContentfulPaint = 150\<rparr> evaluatedScript), 3))"
  by (simp add: traverse_eval clone_eval classifier_eval evaluatedScript_def graphOf_def
      getPessimisticGraph_def getFirstPaintBasedGraph_def firstPaintPredicate_def)

lemma lengths_evaluatedScript:
  "length (graphOf (getOptimisticGraph 0 \<lparr>firstContentfulPaint = 150\<rparr> evaluatedScript)) = 5 \<and>
   length (graphOf (getPessimisticGraph 0 \<lparr>firstContentfulPaint = 150\<rparr> evaluatedScript)) = 5"
  by (simp add: traverse_eval clone_eval classifier_eval evaluatedScript_def graphOf_def
      getOptimisticGraph_def getPessimisticGraph_def getFirstPaintBasedGraph_def
      firstPaintPredicate_def)

theorem C2_optimistic_graph_no_larger_witness:
  "wellFormedGraph evaluatedScript 0 \<and>
   scriptsEvaluated evaluatedScript 150 (traversed evaluatedScript 0) \<and>
   initiatorType (node.more (evaluatedScript ! 1)) = ''script'' \<and>
   hasRenderBlockingPriority (node.more (evaluatedScript ! 1)) \<and>
   getOptimisticGraph 0 \<lparr>firstContentfulPaint = 150\<rparr> evaluatedScript =
     Some (Inr (graphOf (getOptimisticGraph 0 \<lparr>firstContentfulPaint = 150\<rparr> evaluatedScript), 3)) \<and>
   getPessimisticGraph 0 \<lparr>firstContentfulPaint = 150\<rparr> evaluatedScript =
     Some (Inr (graphOf (getPessimisticGraph 0 \<lparr>firstContentfulPaint = 150\<rparr> evaluatedScript), 3)) \<and>
   length (graphOf (getOptimisticGraph 0 \<lparr>firstContentfulPaint = 150\<rparr> evaluatedScript)) = 5 \<and>
   length (graphOf (getPessimisticGraph 0 \<lparr>firstContentfulPaint = 150\<rparr> evaluatedScript)) = 5 \<and>
   card (graphNodes (graphOf (getOptimisticGraph 0 \<lparr>firstContentfulPaint = 150\<rparr> evaluatedScript)) 3)
     \<le> card (graphNodes (graphOf (getPessimisticGraph 0 \<lparr>firstContentfulPaint = 150\<rparr> evaluatedScript)) 3)"
proof -
  let ?h = evaluatedScript
  let ?t = "\<lparr>firstContentfulPaint = 150\<rparr>"
  have w: "wellFormedGraph ?h 0"
    by (rule wellFormedGraphI)
       (simp_all add: heapClosed_def symmetricEdges_def evaluatedScript_def All_less_Suc
          eval_nat_numeral)
  have e: "scriptsEvaluated ?h 150 (traversed ?h 0)"
    unfolding scriptsEvaluated_def traversed_evaluatedScript
    by (simp add: evaluatedScript_def nodeType_def)
  have n: "initiatorType (node.more (?h ! 1)) = ''script''"
    "hasRenderBlockingPriority (node.more (?h ! 1))"
    by (simp_all add: evaluatedScript_def)
  have e': "scriptsEvaluated ?h (firstContentfulPaint ?t) (traversed ?h 0)" using e by simp
  have "\<exists>x. getOptimisticGraph 0 ?t ?h = Some (Inr x)"
    by (rule exI, rule optimistic_evaluatedScript)
  then have nm: "getOptimisticGraph 0 ?t ?h \<noteq> Some (Inl MissingNode)" by auto
  from C2_optimistic_graph_no_larger[OF w e'] obtain d1 d2 where
    br: "if 0 \<in> retained ?h (Some (firstPaintPredicate (firstContentfulPaint ?t) d1)) 0
      then \<exists>ho co hp cp. getOptimisticGraph 0 ?t ?h = Some (Inr (ho, co)) \<and>
             getPessimisticGraph 0 ?t ?h = Some (Inr (hp, cp)) \<and>
             card (graphNodes ho co) =
               card (retained ?h (Some (firstPaintPredicate (firstContentfulPaint ?t) d1)) 0) \<and>
             card (graphNodes hp cp) =
               card (retained ?h (Some (firstPaintPredicate (firstContentfulPaint ?t) d2)) 0) \<and>
             card (graphNodes ho co) \<le> card (graphNodes hp cp) \<and>
             graphIds ho co \<subseteq> graphIds hp cp
      else getOptimisticGraph 0 ?t ?h = Some (Inl MissingNode)"
    by (elim exE conjE)
  have "0 \<in> retained ?h (Some (firstPaintPredicate (firstContentfulPaint ?t) d1)) 0"
    using br nm by (cases "0 \<in> retained ?h (Some (firstPaintPredicate (firstContentfulPaint ?t) d1)) 0")
      simp_all
  with br have "\<exists>ho co hp cp. getOptimisticGraph 0 ?t ?h = Some (Inr (ho, co)) \<and>
             getPessimisticGraph 0 ?t ?h = Some (Inr (hp, cp)) \<and>
             card (graphNodes ho co) =
               card (retained ?h (Some (firstPaintPredicate (firstContentfulPaint ?t) d1)) 0) \<and>
             card (graphNodes hp cp) =
               card (retained ?h (Some (firstPaintPredicate (firstContentfulPaint ?t) d2)) 0) \<and>
             card (graphNodes ho co) \<le> card (graphNodes hp cp) \<and>
             graphIds ho co \<subseteq> graphIds hp cp"
    by (simp only: if_True)
  then obtain ho co hp cp where r: "getOptimisticGraph 0 ?t ?h = Some (Inr (ho, co))"
    "getPessimisticGraph 0 ?t ?h = Some (Inr (hp, cp))"
    "card (graphNodes ho co) \<le> card (graphNodes hp cp)"
    by (elim exE conjE)
  have o: "ho = graphOf (getOptimisticGraph 0 ?t ?h)" by (simp add: r(1) graphOf_def)
  have o3: "co = 3" using optimistic_evaluatedScript unfolding r(1) by simp
  have p: "hp = graphOf (getPessimisticGraph 0 ?t ?h)" by (simp add: r(2) graphOf_def)
  have p3: "cp = 3" using pessimistic_evaluatedScript unfolding r(2) by simp
  show ?thesis
    using w e n optimistic_evaluatedScript pessimistic_evaluatedScript lengths_evaluatedScript
      r(3)[unfolded o3 p3, unfolded o p]
    by (intro conjI) simp_all
qed

section \<open>Edge operations on the states that the code builds\<close>

lemma built_distinct:
  "built h \<Longrightarrow> \<forall>a < length h. distinct (dependencies (h ! a))"
proof (induction rule: built.induct)
  case builtEmpty
  show ?case by simp
next
  case (builtNew h n)
  then show ?case by (simp add: nth_append)
next
  case (builtSetIsMainDocument h this v)
  then show ?case by (simp add: setIsMainDocument_dependencies)
next
  case (builtAddDependency h this n)
  then show ?case by (auto simp: addDependency_dependencies)
next
  case (builtAddDependent h this n)
  then show ?case by (auto simp: addDependent_def addDependency_dependencies)
next
  case (builtRemoveDependency h this n)
  then show ?case by (auto simp: removeDependency_dependencies)
next
  case (builtRemoveDependent h this n)
  then show ?case by (auto simp: removeDependent_def removeDependency_dependencies)
next
  case (builtRemoveAllDependencies h this)
  have "\<forall>a < length k. distinct (dependencies (k ! a)) \<Longrightarrow> this < length k \<Longrightarrow>
      \<forall>n \<in> set ns. n < length k \<Longrightarrow>
      length (fold (\<lambda>n h'. removeDependency this n h') ns k) = length k \<and>
      (\<forall>a < length k. distinct (dependencies (fold (\<lambda>n h'. removeDependency this n h') ns k ! a)))"
    for ns and k :: "'a heap"
  proof (induction ns arbitrary: k)
    case Nil
    then show ?case by simp
  next
    case (Cons n ns)
    have "\<forall>a < length (removeDependency this n k). distinct (dependencies (removeDependency this n k ! a))"
      using Cons.prems by (auto simp: removeDependency_dependencies)
    then show ?case using Cons.IH[of "removeDependency this n k"] Cons.prems by simp
  qed
  moreover have "\<forall>n \<in> set (dependencies (h ! this)). n < length h"
    using built_invariant[OF builtRemoveAllDependencies.hyps(1)] builtRemoveAllDependencies.hyps(2)
      closedD2 by blast
  ultimately show ?case
    using builtRemoveAllDependencies by (simp add: removeAllDependencies_def)
qed

lemma removeAll_fold_empty:
  "dependencies (h ! this) = ns \<Longrightarrow> this < length h \<Longrightarrow> \<forall>n \<in> set ns. n < length h \<Longrightarrow>
   dependencies (fold (\<lambda>n h'. removeDependency this n h') ns h ! this) = []"
proof (induction ns arbitrary: h)
  case Nil
  then show ?case by simp
next
  case (Cons n ns)
  have "dependencies (removeDependency this n h ! this) = ns"
    using Cons.prems by (simp add: removeDependency_dependencies)
  then show ?case using Cons.IH[of "removeDependency this n h"] Cons.prems by simp
qed

lemma built_effects:
  assumes b: "built h" and t: "this < length h" and n: "n < length h"
  shows "n \<in> set (dependencies (addDependency this n h ! this))"
    and "this \<in> set (dependents (addDependency this n h ! n))"
    and "n \<notin> set (dependencies (removeDependency this n h ! this))"
    and "this \<notin> set (dependents (removeDependency this n h ! n))"
    and "dependencies (removeAllDependencies this h ! this) = []"
proof -
  have s: "symmetricEdges k" if "built k" for k :: "'a heap"
    using built_invariant[OF that] edgeCountsAgree_symmetric by blast
  show 1: "n \<in> set (dependencies (addDependency this n h ! this))"
    using t n by (simp add: addDependency_dependencies)
  have sa: "symmetricEdges (addDependency this n h)" by (rule s[OF builtAddDependency[OF b t n]])
  show "this \<in> set (dependents (addDependency this n h ! n))"
    using sa 1 t n unfolding symmetricEdges_def by simp
  have "distinct (dependencies (h ! this))" using built_distinct[OF b] t by simp
  then show 3: "n \<notin> set (dependencies (removeDependency this n h ! this))"
    using t n by (simp add: removeDependency_dependencies)
  have sr: "symmetricEdges (removeDependency this n h)"
    by (rule s[OF builtRemoveDependency[OF b t n]])
  show "this \<notin> set (dependents (removeDependency this n h ! n))"
    using sr 3 t n unfolding symmetricEdges_def by simp
  have "\<forall>n \<in> set (dependencies (h ! this)). n < length h"
    using built_invariant[OF b] t closedD2 by blast
  then show "dependencies (removeAllDependencies this h ! this) = []"
    unfolding removeAllDependencies_def using removeAll_fold_empty[OF refl t] by blast
qed

lemma built_append_clones: "built h \<Longrightarrow> built (h @ clonesOf h ns)"
proof (induction ns rule: rev_induct)
  case Nil
  then show ?case by (simp add: clonesOf_def)
next
  case (snoc n ns)
  have "built ((h @ clonesOf h ns) @ [cloneWithoutRelationships (h ! n)])"
    by (rule builtNew[OF snoc.IH[OF snoc.prems]]) (simp_all add: cloneWithoutRelationships_def)
  then show ?case by (simp add: clonesOf_def)
qed

lemma wireDependencies_built:
  "wireDependencies m co ds H = Inr H' \<Longrightarrow> built H \<Longrightarrow> \<forall>r \<in> ran m. r < length H \<Longrightarrow>
   \<forall>c'. co = Some c' \<longrightarrow> c' < length H \<Longrightarrow> built H' \<and> length H' = length H"
proof (induction ds arbitrary: H)
  case Nil
  then show ?case by simp
next
  case (Cons d ds)
  from Cons.prems(1) obtain cd c where cd: "m (nid (H ! d)) = Some cd" and co: "co = Some c"
    and rec: "wireDependencies m co ds (addDependency c cd H) = Inr H'"
    by (auto split: option.splits)
  have "cd \<in> ran m" using cd by (auto simp: ran_def)
  then have cdl: "cd < length H" using Cons.prems(3) by blast
  have cl: "c < length H" using Cons.prems(4) co by simp
  have "built (addDependency c cd H)" by (rule builtAddDependency[OF Cons.prems(2) cl cdl])
  then show ?case using Cons.IH[OF rec] Cons.prems(3,4) by simp
qed

lemma cloneEdges_built:
  assumes J: "built (fst s) \<and> length (fst s) = M" and mr: "\<forall>r \<in> ran m. r < M"
    and cb: "cloneEdgesCallback io m n p s = Some (Inr s')"
  shows "built (fst s') \<and> length (fst s') = M"
proof (cases "shouldIncludeNode io (fst s) n")
  case False
  with cb have "s' = s" by (cases s) (simp add: cloneEdgesCallback_def)
  then show ?thesis using J by simp
next
  case True
  obtain H u where s: "s = (H, u)" by (cases s)
  with True cb obtain H' where
    w: "wireDependencies m (m (nid (H ! n))) (dependencies (H ! n)) H = Inr H'"
    and s': "s' = (H', u)"
    by (auto simp: cloneEdgesCallback_def split: sum.splits)
  have c: "\<forall>c'. m (nid (H ! n)) = Some c' \<longrightarrow> c' < length H"
    using mr J s by (auto simp: ran_def)
  have "built H' \<and> length H' = length H"
    by (rule wireDependencies_built[OF w _ _ c]) (use J mr s in simp_all)
  then show ?thesis using s' J s by simp
qed

lemma built_cloneGraph:
  assumes b: "built h" and t: "this < length h"
    and g: "cloneGraph this predicate h = Some (Inr (h', m))"
  shows "built h'"
proof -
  have c: "heapClosed h" using built_invariant[OF b] by simp
  from g obtain rt where rt: "getRootNode h this = Some rt"
    by (auto simp: cloneGraph_def split: option.splits)
  have r: "rt < length h" using getRootNode_bound[OF rt c t] by simp
  obtain ps where run: "bfsRun h getDependents {nid (h ! rt)} [[rt]] ps"
    and hb: "\<forall>p \<in> set ps. hd p < length h"
    using bfsRun_start[where g = getDependents, OF closed_getDependents[OF c] r] by blast
  let ?io = "idsToIncludeOf h predicate (map hd ps)"
  let ?m = "cloneMap h ?io (map hd ps) (length h) Map.empty"
  let ?incl = "includedNodes h ?io (map hd ps)"
  let ?h2 = "h @ clonesOf h ?incl"
  let ?J = "\<lambda>s :: 'a heap \<times> unit. built (fst s) \<and> length (fst s) = length ?h2"
  have mr: "\<forall>r \<in> ran ?m. r < length ?h2"
    using cloneMap_ran[of h ?io "map hd ps" "length h" Map.empty] by (auto simp: clonesOf_def)
  from g obtain u where f: "foldCallback (cloneEdgesCallback ?io ?m) ps (?h2, ()) = Some (Inr (h', u))"
    unfolding cloneGraph_eq[OF c t rt run]
    by (auto simp: andThen_def split: option.splits sum.splits)
  have "?J (h', u)"
  proof (rule foldCallback_invariant[where J = ?J and N = "length h", OF _ hb _ f])
    show "?J s'" if "?J s" "cloneEdgesCallback ?io ?m n p s = Some (Inr s')" for n p s s'
      using cloneEdges_built[OF that(1) mr that(2)] .
    show "?J (?h2, ())" using built_append_clones[OF b, of ?incl] by simp
  qed
  then show ?thesis by simp
qed

lemma built_cloneWithRelationships:
  assumes b: "built h" and t: "this < length h"
    and g: "cloneWithRelationships this predicate h = Some (Inr (h', c))"
  shows "built h'"
proof -
  from g obtain m where cg: "cloneGraph this predicate h = Some (Inr (h', m))"
    by (auto simp: cloneWithRelationships_def andThen_def split: option.splits sum.splits)
  show ?thesis by (rule built_cloneGraph[OF b t cg])
qed

text \<open>
  C9. Edge symmetry is an invariant of the states that the code can be in (the states
  built from fresh nodes by the operations of the class): in every such state A appears
  in B's dependents exactly when B appears in A's dependencies, and each of
  \<open>addDependency\<close>, \<open>addDependent\<close>, \<open>removeDependency\<close>, \<open>removeDependent\<close>
  and \<open>removeAllDependencies\<close> leads to a state of the kind again, where the symmetry
  holds. The operations do their work: after \<open>addDependency\<close> the edge is in both
  lists, after \<open>removeDependency\<close> it is in neither, after
  \<open>removeAllDependencies\<close> the node has no dependency, and \<open>addDependent\<close> and
  \<open>removeDependent\<close> are the same operations seen from the other node.
  \<open>addDependency\<close> is a no-op when the edge is present and \<open>removeDependency\<close>
  when it is absent.
\<close>

theorem C9_edge_symmetry_invariant:
  assumes "built h" and "this < length h" and "n < length h"
  shows "symmetricEdges h \<and>
         built (addDependency this n h) \<and> symmetricEdges (addDependency this n h) \<and>
         n \<in> set (dependencies (addDependency this n h ! this)) \<and>
         this \<in> set (dependents (addDependency this n h ! n)) \<and>
         built (addDependent this n h) \<and> symmetricEdges (addDependent this n h) \<and>
         addDependent this n h = addDependency n this h \<and>
         built (removeDependency this n h) \<and> symmetricEdges (removeDependency this n h) \<and>
         n \<notin> set (dependencies (removeDependency this n h ! this)) \<and>
         this \<notin> set (dependents (removeDependency this n h ! n)) \<and>
         built (removeDependent this n h) \<and> symmetricEdges (removeDependent this n h) \<and>
         removeDependent this n h = removeDependency n this h \<and>
         built (removeAllDependencies this h) \<and> symmetricEdges (removeAllDependencies this h) \<and>
         dependencies (removeAllDependencies this h ! this) = [] \<and>
         (n \<in> set (dependencies (h ! this)) \<longrightarrow> addDependency this n h = h) \<and>
         (n \<notin> set (dependencies (h ! this)) \<longrightarrow> removeDependency this n h = h)"
proof -
  have s: "symmetricEdges k" if "built k" for k :: "'a heap"
    using built_invariant[OF that] edgeCountsAgree_symmetric by blast
  have a: "built (addDependency this n h)" by (rule builtAddDependency[OF assms])
  have b: "built (addDependent this n h)" by (rule builtAddDependent[OF assms])
  have c: "built (removeDependency this n h)" by (rule builtRemoveDependency[OF assms])
  have d: "built (removeDependent this n h)" by (rule builtRemoveDependent[OF assms])
  have e: "built (removeAllDependencies this h)"
    by (rule builtRemoveAllDependencies[OF assms(1,2)])
  have f: "n \<in> set (dependencies (h ! this)) \<longrightarrow> addDependency this n h = h"
    by (simp add: addDependency_def)
  have g: "n \<notin> set (dependencies (h ! this)) \<longrightarrow> removeDependency this n h = h"
    by (simp add: removeDependency_def)
  have i: "addDependent this n h = addDependency n this h" by (simp add: addDependent_def)
  have j: "removeDependent this n h = removeDependency n this h" by (simp add: removeDependent_def)
  note x = built_effects[OF assms]
  show ?thesis
    using s[OF assms(1)] a s[OF a] x(1) x(2) b s[OF b] i c s[OF c] x(3) x(4) d s[OF d] j
      e s[OF e] x(5) f g
    by (intro conjI)
qed

theorem C9_edge_symmetry_invariant_witness:
  "built chainABCX \<and> 3 < length chainABCX \<and> 0 < length chainABCX \<and>
   symmetricEdges chainABCX \<and>
   symmetricEdges (addDependency 3 0 chainABCX) \<and>
   dependencies (addDependency 3 0 chainABCX ! 3) = [2, 0] \<and>
   dependents (addDependency 3 0 chainABCX ! 0) = [1, 3] \<and>
   symmetricEdges (removeDependency 3 2 chainABCX) \<and>
   dependencies (removeDependency 3 2 chainABCX ! 3) = [] \<and>
   dependents (removeDependency 3 2 chainABCX ! 2) = [] \<and>
   symmetricEdges (removeAllDependencies 3 chainABCX) \<and>
   addDependency 3 2 chainABCX = chainABCX \<and>
   removeDependency 3 0 chainABCX = chainABCX"
proof -
  have l: "(3::nat) < length chainABCX" "(0::nat) < length chainABCX" "(2::nat) < length chainABCX"
    by (simp_all add: chainABCX_def)
  have m: "2 \<in> set (dependencies (chainABCX ! 3))" "0 \<notin> set (dependencies (chainABCX ! 3))"
    by (simp_all add: chainABCX_def)
  have e: "dependencies (addDependency 3 0 chainABCX ! 3) = [2, 0]"
    "dependents (addDependency 3 0 chainABCX ! 0) = [1, 3]"
    by (simp_all add: addDependency_def chainABCX_def Let_def)
  have r: "dependencies (removeDependency 3 2 chainABCX ! 3) = []"
    "dependents (removeDependency 3 2 chainABCX ! 2) = []"
    by (simp_all add: removeDependency_def chainABCX_def Let_def splice1_def)
  show ?thesis
    using built_chainABCX l m e r
      C9_edge_symmetry_invariant[OF built_chainABCX l(1) l(2)]
      C9_edge_symmetry_invariant[OF built_chainABCX l(1) l(3)]
    by simp
qed

section \<open>The clone of a whole graph\<close>

lemma numberOfDependencies_card:
  assumes b: "built h" and n: "n < length h"
  shows "numberOfDependencies h n = card (graphEdges h n)"
proof -
  have c: "heapClosed h" using built_invariant[OF b] by simp
  have sub: "graphNodes h n \<subseteq> {..< length h}" using graphNodes_bound[OF c n] by auto
  have fin: "finite (graphNodes h n)" by (rule finite_subset[OF sub]) simp
  have "graphEdges h n = (SIGMA a : graphNodes h n. set (dependencies (h ! a)))"
    unfolding graphEdges_def by auto
  then have "card (graphEdges h n) = (\<Sum>a \<in> graphNodes h n. card (set (dependencies (h ! a))))"
    using fin by (simp add: card_SigmaI)
  also have "\<dots> = (\<Sum>a \<in> graphNodes h n. length (dependencies (h ! a)))"
  proof (rule sum.cong[OF refl])
    fix a assume "a \<in> graphNodes h n"
    then have "a < length h" using sub by auto
    then have "distinct (dependencies (h ! a))" using built_distinct[OF b] by simp
    then show "card (set (dependencies (h ! a))) = length (dependencies (h ! a))"
      by (rule distinct_card)
  qed
  finally show ?thesis by (simp add: numberOfDependencies_def getNumberOfDependencies_def)
qed

text \<open>
  C4. For a well-formed graph (one root that every node eventually depends on, no
  dependency cycle, symmetric edges, pairwise distinct ids) and any node of it,
  \<open>cloneWithRelationships\<close> without a predicate, or with one that is true of every
  node, returns a graph with as many nodes as the graph of the calling node, as many
  dependency edges (an edge is a pair of a node and one of its dependencies) and the same
  set of ids; the node returned has the id of the calling node; every node of the input
  heap is as it was, and every node of the returned graph is newly allocated, so that none
  is a node of the original. In a state that the code has built, where no edge list holds
  a node twice, the sums of \<open>getNumberOfDependencies\<close> over the nodes of the two
  graphs are equal too.
\<close>

theorem C4_clone_of_whole_graph:
  assumes "wellFormedGraph h this" and "\<forall>p. predicate = Some p \<longrightarrow> (\<forall>a. p h a)"
  shows "\<exists>h' c. cloneWithRelationships this predicate h = Some (Inr (h', c)) \<and>
     card (graphNodes h' c) = card (graphNodes h this) \<and>
     card (graphEdges h' c) = card (graphEdges h this) \<and>
     (built h \<longrightarrow> numberOfDependencies h' c = numberOfDependencies h this) \<and>
     graphIds h' c = graphIds h this \<and>
     nid (h' ! c) = nid (h ! this) \<and>
     take (length h) h' = h \<and>
     graphNodes h' c \<inter> {..< length h} = {} \<and>
     graphNodes h' c \<inter> graphNodes h this = {}"
proof -
  have R: "retained h predicate this = graphNodes h this" by (rule retained_all[OF assms(2)])
  have t: "this \<in> retained h predicate this" unfolding R by (rule graphNodes_self)
  obtain h' c where r: "cloneWithRelationships this predicate h = Some (Inr (h', c))"
    "take (length h) h' = h" "graphNodes h' c = {length h ..< length h'}"
    "nid (h' ! c) = nid (h ! this)"
    "card (graphNodes h' c) = card (retained h predicate this)"
    "graphIds h' c = (\<lambda>a. nid (h ! a)) ` retained h predicate this"
    "card (graphEdges h' c) =
       card {(a, d). a \<in> retained h predicate this \<and> d \<in> set (dependencies (h ! a))}"
    by (rule clone_graph[OF assms(1) t])
  have 1: "card (graphNodes h' c) = card (graphNodes h this)" using r(5) R by simp
  have 2: "card (graphEdges h' c) = card (graphEdges h this)"
    using r(7) unfolding R graphEdges_def by simp
  have 3: "graphIds h' c = graphIds h this" using r(6) unfolding R graphIds_def by simp
  have 4: "graphNodes h' c \<inter> {..< length h} = {}" unfolding r(3) by auto
  have "graphNodes h this \<subseteq> {..< length h}"
    using wfD_nodes[OF assms(1)] by auto
  then have 5: "graphNodes h' c \<inter> graphNodes h this = {}" using 4 by blast
  have 6: "built h \<longrightarrow> numberOfDependencies h' c = numberOfDependencies h this"
  proof
    assume b: "built h"
    have tl: "this < length h" by (rule wfD_bound[OF assms(1)])
    have b': "built h'" by (rule built_cloneWithRelationships[OF b tl r(1)])
    have "c \<in> graphNodes h' c" by (rule graphNodes_self)
    then have cl: "c < length h'" unfolding r(3) by simp
    show "numberOfDependencies h' c = numberOfDependencies h this"
      unfolding numberOfDependencies_card[OF b' cl] numberOfDependencies_card[OF b tl] by (rule 2)
  qed
  show ?thesis
    by (intro exI[of _ h'] exI[of _ c] conjI) (rule r(1) 1 2 6 3 r(4) r(2) 4 5)+
qed

lemma numberOfDependencies_chainABCX: "numberOfDependencies chainABCX 3 = 3"
  unfolding numberOfDependencies_def graphNodes_chainABCX
  by (simp add: getNumberOfDependencies_def chainABCX_def)

theorem C4_clone_of_whole_graph_witness:
  "wellFormedGraph chainABCX 3 \<and> built chainABCX \<and>
   cloneWithRelationships 3 None chainABCX = Some (Inr (clonedChainABCX, 7)) \<and>
   card (graphNodes chainABCX 3) = 4 \<and>
   card (graphNodes clonedChainABCX 7) = 4 \<and>
   card (graphEdges clonedChainABCX 7) = card (graphEdges chainABCX 3) \<and>
   numberOfDependencies chainABCX 3 = 3 \<and>
   numberOfDependencies clonedChainABCX 7 = 3 \<and>
   graphIds chainABCX 3 = {''A'', ''B'', ''C'', ''X''} \<and>
   graphIds clonedChainABCX 7 = {''A'', ''B'', ''C'', ''X''} \<and>
   graphNodes clonedChainABCX 7 \<inter> graphNodes chainABCX 3 = {}"
proof -
  have p: "\<forall>p. (None :: (node list \<Rightarrow> ref \<Rightarrow> bool) option) = Some p \<longrightarrow> (\<forall>a. p chainABCX a)"
    by simp
  from C4_clone_of_whole_graph[OF wellFormed_chainABCX p]
  obtain h' c where r: "cloneWithRelationships 3 None chainABCX = Some (Inr (h', c))"
    "card (graphNodes h' c) = card (graphNodes chainABCX 3)"
    "card (graphEdges h' c) = card (graphEdges chainABCX 3)"
    "built chainABCX \<longrightarrow> numberOfDependencies h' c = numberOfDependencies chainABCX 3"
    "graphIds h' c = graphIds chainABCX 3"
    and d: "graphNodes h' c \<inter> graphNodes chainABCX 3 = {}"
    by (elim exE conjE)
  have hc: "h' = clonedChainABCX" "c = 7" using r(1) clone_chainABCX by simp_all
  have n: "card (graphNodes chainABCX 3) = 4" unfolding graphNodes_chainABCX by simp
  have i: "graphIds chainABCX 3 = {''A'', ''B'', ''C'', ''X''}"
    unfolding graphIds_def graphNodes_chainABCX by (simp add: chainABCX_def)
  have e: "numberOfDependencies clonedChainABCX 7 = 3"
    using r(4) built_chainABCX numberOfDependencies_chainABCX unfolding hc by simp
  show ?thesis
    using wellFormed_chainABCX built_chainABCX clone_chainABCX r(2,3,5) d n i e
      numberOfDependencies_chainABCX
    unfolding hc by simp
qed

end
